(* ===== verification/Prelude.thy ===== *)
theory Prelude
  imports Complex_Main "HOL-Library.Word" "HOL-Library.Signed_Division"
begin

unbundle bit_operations_syntax

section \<open>Prelude: the parts of Go the aggregator is written in\<close>

text \<open>
  Shared vocabulary of the development: the outcome of a Go call (a value, an
  error value, or a panic), the division operations of \<^verbatim>\<open>math/big\<close>, machine
  integers whose wrap-around matters, the string functions used on addresses,
  and loops whose body may panic.

  \<^item> \<^verbatim>\<open>(*big.Int).Div\<close> is Euclidean division, \<^verbatim>\<open>Quo\<close>/\<^verbatim>\<open>Rem\<close> (and
    \<^verbatim>\<open>QuoRem\<close>) truncate. Every divisor the swap mathematics uses is positive; the
    lemmas about the routines carry that as a hypothesis and discharge it at each call.
  \<^item> A \<^verbatim>\<open>*big.Int\<close> that may be \<^verbatim>\<open>nil\<close> is an \<open>int option\<close>.
  \<^item> Strings are byte strings; \<open>toLower\<close>, \<open>trimSpace\<close> and \<open>equalFold\<close> are the ASCII
    behaviour of the functions of package \<^verbatim>\<open>strings\<close>, which is all of their behaviour
    on the hexadecimal addresses and ticker symbols they are applied to; so is \<open>goQuote\<close> of \<^verbatim>\<open>strconv.Quote\<close>.
\<close>

subsection \<open>Fact collections\<close>

named_theorems go_arith \<open>division and shift facts\<close>
named_theorems store_simps \<open>reads after writes of a workspace\<close>

subsection \<open>Outcomes of a call\<close>

datatype ('e, 'a) outcome = Ok 'a | Err 'e | Panic

primrec map_outcome_ok :: "('a \<Rightarrow> 'b) \<Rightarrow> ('e, 'a) outcome \<Rightarrow> ('e, 'b) outcome" where
  "map_outcome_ok f (Ok x) = Ok (f x)"
| "map_outcome_ok f (Err e) = Err e"
| "map_outcome_ok f Panic = Panic"

primrec map_outcome_err :: "('e \<Rightarrow> 'f) \<Rightarrow> ('e, 'a) outcome \<Rightarrow> ('f, 'a) outcome" where
  "map_outcome_err f (Ok x) = Ok x"
| "map_outcome_err f (Err e) = Err (f e)"
| "map_outcome_err f Panic = Panic"

lemma map_outcome_ok_Ok [simp]: "map_outcome_ok f r = Ok y \<longleftrightarrow> (\<exists>x. r = Ok x \<and> y = f x)"
  by (cases r) auto

lemma map_outcome_ok_Err [simp]: "map_outcome_ok f r = Err e \<longleftrightarrow> r = Err e"
  by (cases r) auto

lemma map_outcome_ok_Panic [simp]: "map_outcome_ok f r = Panic \<longleftrightarrow> r = Panic"
  by (cases r) auto

lemma map_outcome_err_Ok [simp]: "map_outcome_err f r = Ok y \<longleftrightarrow> r = Ok y"
  by (cases r) auto

lemma map_outcome_err_Panic [simp]: "map_outcome_err f r = Panic \<longleftrightarrow> r = Panic"
  by (cases r) auto

subsection \<open>Loops whose body may panic\<close>

text \<open>A \<^verbatim>\<open>for range\<close> loop over a slice that updates a state; \<open>None\<close> is a panic of the body,
  which unwinds the whole loop.\<close>

primrec foldM :: "('a \<Rightarrow> 's \<Rightarrow> 's option) \<Rightarrow> 'a list \<Rightarrow> 's \<Rightarrow> 's option" where
  "foldM f [] s = Some s"
| "foldM f (x # xs) s = (case f x s of None \<Rightarrow> None | Some s' \<Rightarrow> foldM f xs s')"

lemma foldM_append: "foldM f (xs @ ys) s = (case foldM f xs s of None \<Rightarrow> None | Some s' \<Rightarrow> foldM f ys s')"
  by (induction xs arbitrary: s) (auto split: option.splits)

lemma foldM_snoc: "foldM f (xs @ [x]) s = (case foldM f xs s of None \<Rightarrow> None | Some s' \<Rightarrow> f x s')"
  by (simp add: foldM_append split: option.splits)

lemma foldM_invariant:
  assumes "foldM f xs s = Some s'" and "I s"
    and "\<And>x t t'. x \<in> set xs \<Longrightarrow> I t \<Longrightarrow> f x t = Some t' \<Longrightarrow> I t'"
  shows "I s'"
  using assms
proof (induction xs arbitrary: s)
  case (Cons x xs)
  then obtain t where "f x s = Some t" "foldM f xs t = Some s'" by (auto split: option.splits)
  moreover from this Cons.prems have "I t" by (meson list.set_intros(1))
  ultimately show ?case using Cons.IH[of t] Cons.prems(3) by (meson list.set_intros(2))
qed simp

text \<open>The invariant may speak of the elements already visited.\<close>

lemma foldM_invariant_prefix:
  assumes "foldM f xs s = Some s'" and "I [] s"
    and "\<And>ys x zs t t'. xs = ys @ x # zs \<Longrightarrow> I ys t \<Longrightarrow> f x t = Some t' \<Longrightarrow> I (ys @ [x]) t'"
  shows "I xs s'"
proof -
  have "\<And>s'. foldM f ys s = Some s' \<Longrightarrow> I ys s'" if "\<exists>zs. xs = ys @ zs" for ys
    using that
  proof (induction ys rule: rev_induct)
    case Nil
    then show ?case using assms(2) by simp
  next
    case (snoc x ys)
    then obtain zs where zs: "xs = ys @ x # zs" by auto
    from snoc.prems(1) obtain t where t: "foldM f ys s = Some t" "f x t = Some s'"
      by (auto simp: foldM_snoc split: option.splits)
    have "I ys t" using snoc.IH[OF t(1)] zs by blast
    then show ?case using assms(3) zs t(2) by blast
  qed
  then show ?thesis using assms(1) by auto
qed

lemma foldM_simulation:
  assumes "R s t"
    and "\<And>x s t. x \<in> set xs \<Longrightarrow> R s t \<Longrightarrow> rel_option R (f x s) (g x t)"
  shows "rel_option R (foldM f xs s) (foldM g xs t)"
  using assms
proof (induction xs arbitrary: s t)
  case (Cons x xs)
  from Cons.prems have step: "rel_option R (f x s) (g x t)" by simp
  show ?case
  proof (cases "f x s")
    case None
    with step show ?thesis by simp
  next
    case (Some s')
    with step obtain t' where "g x t = Some t'" "R s' t'"
      by (cases "g x t") auto
    with Some Cons show ?thesis by simp
  qed
qed simp

subsection \<open>Division of \<^verbatim>\<open>math/big\<close>\<close>

definition go_div :: "int \<Rightarrow> int \<Rightarrow> int" where
  "go_div x y = (if 0 < y then x div y else - (x div (- y)))"

lemma go_div_pos [go_arith]: "0 < y \<Longrightarrow> go_div x y = x div y"
  by (simp add: go_div_def)

text \<open>Euclidean: the remainder is never negative, whatever the signs.\<close>

lemma go_div_euclidean:
  assumes "y \<noteq> 0"
  shows "0 \<le> x - y * go_div x y \<and> x - y * go_div x y < \<bar>y\<bar>"
proof (cases "0 < y")
  case True
  then show ?thesis by (simp add: go_div_def minus_mult_div_eq_mod)
next
  case False
  then have "0 < - y" using assms by simp
  have "x - y * go_div x y = x - (- y) * (x div (- y))" using False by (simp add: go_div_def)
  also have "\<dots> = x mod (- y)" by (rule minus_mult_div_eq_mod)
  finally show ?thesis using \<open>0 < - y\<close> pos_mod_bound[of "- y" x] pos_mod_sign[of "- y" x] by simp
qed

lemma sdiv_pos [go_arith]: "0 \<le> x \<Longrightarrow> 0 < y \<Longrightarrow> x sdiv y = x div y" for x y :: int
  by (cases "x = 0") (simp_all add: signed_divide_int_def)

lemma smod_pos [go_arith]: "0 \<le> x \<Longrightarrow> 0 < y \<Longrightarrow> x smod y = x mod y" for x y :: int
  by (cases "x = 0") (simp_all add: signed_modulo_int_def signed_divide_int_def minus_div_mult_eq_mod)

subsection \<open>Rounding up\<close>

definition ceil_div :: "int \<Rightarrow> int \<Rightarrow> int" where
  "ceil_div a b = (if a mod b \<noteq> 0 then a div b + 1 else a div b)"

lemma ceil_div_0 [simp]: "ceil_div 0 b = 0"
  by (simp add: ceil_div_def)

lemma ceil_div_le_iff:
  assumes "0 < b"
  shows "ceil_div a b \<le> c \<longleftrightarrow> a \<le> c * b"
proof -
  have eq: "a = b * (a div b) + a mod b" by simp
  have lt: "0 \<le> a mod b" "a mod b < b" using assms by auto
  show ?thesis
  proof (cases "a mod b = 0")
    case True
    then have "a = b * (a div b)" using eq by simp
    then have "a \<le> c * b \<longleftrightarrow> (a div b) * b \<le> c * b" by (simp add: mult.commute)
    then show ?thesis using True assms by (simp add: ceil_div_def)
  next
    case False
    have "a \<le> c * b \<longleftrightarrow> a div b < c"
    proof
      assume "a \<le> c * b"
      then have "b * (a div b) < c * b" using eq False lt by linarith
      then show "a div b < c" using assms by (simp add: mult.commute)
    next
      assume "a div b < c"
      then have "(a div b + 1) * b \<le> c * b" using assms by (intro mult_right_mono) auto
      moreover have "a \<le> b * (a div b) + b" using eq lt by linarith
      ultimately show "a \<le> c * b" by (simp add: algebra_simps)
    qed
    then show ?thesis using False by (auto simp: ceil_div_def)
  qed
qed

lemma less_ceil_div_iff: "0 < b \<Longrightarrow> c < ceil_div a b \<longleftrightarrow> c * b < a"
  using ceil_div_le_iff[of b a c] by linarith

lemma le_div_iff: "0 < b \<Longrightarrow> c \<le> a div b \<longleftrightarrow> c * b \<le> a" for a b c :: int
proof
  assume b: "0 < b" and "c \<le> a div b"
  then have "c * b \<le> (a div b) * b" by (intro mult_right_mono) auto
  also have "\<dots> \<le> a" using b by (simp add: minus_mod_eq_div_mult [symmetric])
  finally show "c * b \<le> a" .
next
  assume b: "0 < b" and "c * b \<le> a"
  then have "(c * b) div b \<le> a div b" by (intro zdiv_mono1)
  then show "c \<le> a div b" using b by simp
qed

lemma div_less_iff: "0 < b \<Longrightarrow> a div b < c \<longleftrightarrow> a < c * b" for a b c :: int
  using le_div_iff[of b c a] by linarith

lemma ceil_div_mono: "0 < b \<Longrightarrow> a \<le> a' \<Longrightarrow> ceil_div a b \<le> ceil_div a' b"
  using ceil_div_le_iff[of b a "ceil_div a' b"] ceil_div_le_iff[of b a' "ceil_div a' b"] by simp

lemma ceil_div_nonneg: "0 < b \<Longrightarrow> 0 \<le> a \<Longrightarrow> 0 \<le> ceil_div a b"
  by (simp add: ceil_div_def pos_imp_zdiv_nonneg_iff)

lemma ceil_div_upper: "0 < b \<Longrightarrow> a \<le> ceil_div a b * b"
  using ceil_div_le_iff[of b a "ceil_div a b"] by simp

lemma ceil_div_pos: "0 < b \<Longrightarrow> 0 < a \<Longrightarrow> 0 < ceil_div a b"
  using less_ceil_div_iff[of b 0 a] by simp

lemma ceil_div_ceil_div:
  assumes "0 < b" "0 < c"
  shows "ceil_div (ceil_div a b) c = ceil_div a (b * c)"
proof (rule antisym)
  have bc: "0 < b * c" using assms by simp
  have "a \<le> ceil_div a (b * c) * (b * c)" using ceil_div_upper[OF bc] .
  then have "a \<le> (ceil_div a (b * c) * c) * b" by (simp add: algebra_simps)
  then have "ceil_div a b \<le> ceil_div a (b * c) * c" using ceil_div_le_iff[OF assms(1)] by simp
  then show "ceil_div (ceil_div a b) c \<le> ceil_div a (b * c)" using ceil_div_le_iff[OF assms(2)] by simp
  have "ceil_div a b \<le> ceil_div (ceil_div a b) c * c" using ceil_div_upper[OF assms(2)] .
  then have "a \<le> (ceil_div (ceil_div a b) c * c) * b" using ceil_div_le_iff[OF assms(1)] by simp
  then have "a \<le> ceil_div (ceil_div a b) c * (b * c)" by (simp add: algebra_simps)
  then show "ceil_div a (b * c) \<le> ceil_div (ceil_div a b) c" using ceil_div_le_iff[OF bc] by simp
qed

subsection \<open>Machine integers\<close>

text \<open>Conversion to \<^verbatim>\<open>int32\<close> and \<^verbatim>\<open>int64\<close> keeps the low bits (two's complement).\<close>

definition wrap32 :: "int \<Rightarrow> int" where
  "wrap32 x = (x + 2 ^ 31) mod 2 ^ 32 - 2 ^ 31"

definition wrap64 :: "int \<Rightarrow> int" where
  "wrap64 x = (x + 2 ^ 63) mod 2 ^ 64 - 2 ^ 63"

definition maxInt64 :: int where "maxInt64 = 2 ^ 63 - 1"

definition minInt64 :: int where "minInt64 = - (2 ^ 63)"

definition isInt64 :: "int \<Rightarrow> bool" where
  "isInt64 x \<longleftrightarrow> minInt64 \<le> x \<and> x \<le> maxInt64"

lemma wrap32_id: "- (2 ^ 31) \<le> x \<Longrightarrow> x < 2 ^ 31 \<Longrightarrow> wrap32 x = x"
  by (simp add: wrap32_def)

lemma wrap64_id: "isInt64 x \<Longrightarrow> wrap64 x = x"
  by (simp add: wrap64_def isInt64_def minInt64_def maxInt64_def)

lemma wrap32_range: "- (2 ^ 31) \<le> wrap32 x \<and> wrap32 x < 2 ^ 31"
  using pos_mod_bound[of "2 ^ 32" "x + 2 ^ 31"] pos_mod_sign[of "2 ^ 32" "x + 2 ^ 31"]
  by (simp add: wrap32_def)

subsection \<open>Strings\<close>

definition isSpace :: "char \<Rightarrow> bool" where
  "isSpace c \<longleftrightarrow> of_char c \<in> {9, 10, 11, 12, 13, 32 :: nat}"

definition trimSpace :: "string \<Rightarrow> string" where
  "trimSpace s = rev (dropWhile isSpace (rev (dropWhile isSpace s)))"

definition toLowerChar :: "char \<Rightarrow> char" where
  "toLowerChar c = (if 65 \<le> (of_char c :: nat) \<and> (of_char c :: nat) \<le> 90
                    then char_of (of_char c + 32 :: nat) else c)"

definition toLower :: "string \<Rightarrow> string" where
  "toLower s = map toLowerChar s"

definition equalFold :: "string \<Rightarrow> string \<Rightarrow> bool" where
  "equalFold a b \<longleftrightarrow> toLower a = toLower b"

text \<open>The verb \<^verbatim>\<open>%q\<close>: a quoted string with Go's escapes.\<close>

definition hexDigit :: "nat \<Rightarrow> char" where
  "hexDigit d = char_of (if d < 10 then 48 + d else 87 + d)"

definition quoteChar :: "char \<Rightarrow> string" where
  "quoteChar c =
     (let n = of_char c :: nat; escape = \<lambda>e. [CHR 0x5C, e]
      in if n = 34 \<or> n = 92 then escape c
         else if n = 7 then escape (CHR ''a'') else if n = 8 then escape (CHR ''b'') else if n = 9 then escape (CHR ''t'')
         else if n = 10 then escape (CHR ''n'') else if n = 11 then escape (CHR ''v'') else if n = 12 then escape (CHR ''f'')
         else if n = 13 then escape (CHR ''r'')
         else if n < 32 \<or> n = 127 then escape (CHR ''x'') @ [hexDigit (n div 16), hexDigit (n mod 16)]
         else [c])"

definition goQuote :: "string \<Rightarrow> string" where
  "goQuote s = [CHR 0x22] @ concat (map quoteChar s) @ [CHR 0x22]"

text \<open>\<^verbatim>\<open>strings.Join\<close>.\<close>

fun joinStrings :: "string \<Rightarrow> string list \<Rightarrow> string" where
  "joinStrings sep [] = []"
| "joinStrings sep [x] = x"
| "joinStrings sep (x # y # ys) = x @ sep @ joinStrings sep (y # ys)"

subsection \<open>State machines\<close>

text \<open>A step relation with an invariant, and a relation between earlier and later states: what the long-running parts of the
  program promise, whatever the order of their steps.\<close>

locale evolution =
  fixes step :: "'s \<Rightarrow> 's \<Rightarrow> bool" and inv :: "'s \<Rightarrow> bool" and since :: "'s \<Rightarrow> 's \<Rightarrow> bool"
  assumes step_inv: "step s t \<Longrightarrow> inv s \<Longrightarrow> inv t"
    and step_since: "step s t \<Longrightarrow> inv s \<Longrightarrow> since s t"
    and since_refl: "since s s"
    and since_trans: "since s t \<Longrightarrow> since t u \<Longrightarrow> since s u"
begin

lemma steps:
  assumes "step\<^sup>*\<^sup>* s t" "inv s"
  shows "inv t \<and> since s t"
  using assms
proof (induction rule: rtranclp_induct)
  case base
  then show ?case by (simp add: since_refl)
next
  case (step t u)
  then have t: "inv t" "since s t" by auto
  show ?case using step_inv[OF step.hyps(2) t(1)] since_trans[OF t(2) step_since[OF step.hyps(2) t(1)]] by simp
qed

lemmas steps_inv = steps[THEN conjunct1] and steps_since = steps[THEN conjunct2]

end

text \<open>With the states it may start in.\<close>

locale machine = evolution +
  fixes initial :: "'s \<Rightarrow> bool"
  assumes initial_inv: "initial s \<Longrightarrow> inv s"
begin

lemma reachable:
  assumes "initial s\<^sub>0" "step\<^sup>*\<^sup>* s\<^sub>0 s"
  shows "inv s"
  by (rule steps_inv[OF assms(2) initial_inv[OF assms(1)]])

lemma reachable_since:
  assumes "initial s\<^sub>0" "step\<^sup>*\<^sup>* s\<^sub>0 s" "step\<^sup>*\<^sup>* s t"
  shows "inv t \<and> since s t"
  by (rule steps[OF assms(3) reachable[OF assms(1,2)]])

end

end
