(* ===== verification/Go_Decimal.thy ===== *)
theory Go_Decimal
  imports Prelude
begin

section \<open>Numbers as decimal strings\<close>

text \<open>
  The conversions of \<^verbatim>\<open>math/big\<close> and \<^verbatim>\<open>strconv\<close> the service uses on amounts and settings: \<open>intString\<close>
  is \<^verbatim>\<open>(*big.Int).String\<close>, \<open>setString\<close> is \<^verbatim>\<open>SetString(s, 10)\<close> and \<open>parseInt64\<close> is \<^verbatim>\<open>strconv.Atoi\<close>,
  which on a 64-bit machine is \<^verbatim>\<open>ParseInt(s, 10, 64)\<close>. \<open>None\<close> is the failure of a conversion.
\<close>

definition digitChar :: "nat \<Rightarrow> char" where "digitChar d = char_of (48 + d)"

definition digitVal :: "char \<Rightarrow> nat option" where
  "digitVal c = (let n = of_char c :: nat in if 48 \<le> n \<and> n \<le> 57 then Some (n - 48) else None)"

fun natString :: "nat \<Rightarrow> string" where
  "natString n = (if n < 10 then [digitChar n] else natString (n div 10) @ [digitChar (n mod 10)])"

declare natString.simps [simp del]

definition intString :: "int \<Rightarrow> string" where
  "intString n = (if n < 0 then CHR ''-'' # natString (nat (- n)) else natString (nat n))"

fun digitsFrom :: "nat \<Rightarrow> string \<Rightarrow> nat option" where
  "digitsFrom acc [] = Some acc"
| "digitsFrom acc (c # cs) = (case digitVal c of None \<Rightarrow> None | Some d \<Rightarrow> digitsFrom (10 * acc + d) cs)"

definition parseDigits :: "string \<Rightarrow> nat option" where
  "parseDigits s = (if s = [] then None else digitsFrom 0 s)"

definition setString :: "string \<Rightarrow> int option" where
  "setString s =
     (case s of
        [] \<Rightarrow> None
      | c # cs \<Rightarrow>
          if c = CHR ''-'' then map_option (\<lambda>n. - int n) (parseDigits cs)
          else if c = CHR ''+'' then map_option int (parseDigits cs)
          else map_option int (parseDigits s))"

text \<open>\<^verbatim>\<open>SetString(s, 16)\<close>.\<close>

definition hexVal :: "char \<Rightarrow> nat option" where
  "hexVal c =
     (let n = of_char c :: nat
      in if 48 \<le> n \<and> n \<le> 57 then Some (n - 48) else if 97 \<le> n \<and> n \<le> 102 then Some (n - 87)
         else if 65 \<le> n \<and> n \<le> 70 then Some (n - 55) else None)"

fun hexDigitsFrom :: "nat \<Rightarrow> string \<Rightarrow> nat option" where
  "hexDigitsFrom acc [] = Some acc"
| "hexDigitsFrom acc (c # cs) = (case hexVal c of None \<Rightarrow> None | Some d \<Rightarrow> hexDigitsFrom (16 * acc + d) cs)"

definition setStringHex :: "string \<Rightarrow> int option" where
  "setStringHex s =
     (let neg = (s \<noteq> [] \<and> hd s = CHR ''-''); ds = (if s \<noteq> [] \<and> (hd s = CHR ''-'' \<or> hd s = CHR ''+'') then tl s else s)
      in if ds = [] then None else map_option (\<lambda>n. if neg then - int n else int n) (hexDigitsFrom 0 ds))"

definition parseInt64 :: "string \<Rightarrow> int option" where
  "parseInt64 s = (case setString s of None \<Rightarrow> None | Some n \<Rightarrow> if isInt64 n then Some n else None)"

subsection \<open>Reading back what was printed\<close>

lemma digitVal_digitChar: "d < 10 \<Longrightarrow> digitVal (digitChar d) = Some d"
  by (simp add: digitVal_def digitChar_def Let_def)

lemma digitsFrom_append:
  "digitsFrom acc (xs @ ys) = (case digitsFrom acc xs of None \<Rightarrow> None | Some n \<Rightarrow> digitsFrom n ys)"
  by (induction xs arbitrary: acc) (auto split: option.split)

lemma natString_nonempty: "natString n \<noteq> []"
  by (subst natString.simps) simp

lemma digitsFrom_natString: "digitsFrom 0 (natString n) = Some n"
proof (induction n rule: natString.induct)
  case (1 n)
  show ?case
    by (subst natString.simps) (use 1 in \<open>auto simp: digitsFrom_append digitVal_digitChar\<close>)
qed

lemma parseDigits_natString: "parseDigits (natString n) = Some n"
  by (simp add: parseDigits_def natString_nonempty digitsFrom_natString)

lemma hd_natString: "\<exists>d < 10. hd (natString n) = digitChar d"
proof (induction n rule: natString.induct)
  case (1 n)
  then show ?case
    by (subst natString.simps) (auto simp: natString_nonempty)
qed

lemma digitChar_sign:
  assumes "d < 10"
  shows "digitChar d \<noteq> CHR ''-''" "digitChar d \<noteq> CHR ''+''"
proof -
  have "(of_char (digitChar d) :: nat) = 48 + d" using assms by (simp add: digitChar_def)
  moreover have "(of_char (CHR ''-'') :: nat) = 45" "(of_char (CHR ''+'') :: nat) = 43" by simp_all
  ultimately show "digitChar d \<noteq> CHR ''-''" "digitChar d \<noteq> CHR ''+''" by fastforce+
qed

lemma setString_intString: "setString (intString n) = Some n"
proof (cases "n < 0")
  case True
  then show ?thesis by (simp add: setString_def intString_def parseDigits_natString)
next
  case False
  obtain c cs where cs: "natString (nat n) = c # cs" by (cases "natString (nat n)") (auto simp: natString_nonempty)
  then have "c \<noteq> CHR ''-''" "c \<noteq> CHR ''+''" using hd_natString[of "nat n"] digitChar_sign by fastforce+
  then show ?thesis using False parseDigits_natString[of "nat n"] cs by (simp add: setString_def intString_def)
qed

lemma parseInt64_intString: "parseInt64 (intString n) = (if isInt64 n then Some n else None)"
  by (simp add: parseInt64_def setString_intString)

lemma intString_nonempty: "intString n \<noteq> []"
  by (simp add: intString_def natString_nonempty)

lemma intString_inject: "intString m = intString n \<longleftrightarrow> m = n"
  by (metis option.inject setString_intString)

end
