(* ===== verification/Amm_TickMath.thy ===== *)
theory Amm_TickMath
  imports Prelude Go_Decimal
begin

unbundle bit_operations_syntax

section \<open>Tick mathematics (\<^verbatim>\<open>internal/amm/amount.go\<close>, \<^verbatim>\<open>internal/amm/tickmath.go\<close>)\<close>

text \<open>
  The error values of package \<^verbatim>\<open>amm\<close>, the sign test on nullable integers, the
  constants of the tick grid, the conversion of a tick index to a square-root price
  in Q64.96, and the three rounding divisions. The lemmas show that the conversion
  is defined exactly on the protocol's range, is strictly increasing there, and maps
  the two ends of the range to the published price bounds.
\<close>

subsection \<open>\<^verbatim>\<open>amount.go\<close>\<close>

datatype amm_error =
    ErrZeroAmount
  | ErrInsufficientLiquidity
  | ErrInvalidFee
  | ErrTickOutOfRange

definition bpsDenominator :: int where "bpsDenominator = 10000"

definition isPositive :: "int option \<Rightarrow> bool" where
  "isPositive n = (case n of None \<Rightarrow> False | Some x \<Rightarrow> 0 < x)"

lemma isPositive_Some [simp]: "isPositive (Some x) \<longleftrightarrow> 0 < x"
  by (simp add: isPositive_def)

lemma isPositive_None [simp]: "\<not> isPositive None"
  by (simp add: isPositive_def)

subsection \<open>\<^verbatim>\<open>tickmath.go\<close>: constants\<close>

definition MinTick :: int where "MinTick = -887272"

definition MaxTick :: int where "MaxTick = 887272"

definition q96 :: int where "q96 = push_bit 96 1"

definition q128 :: int where "q128 = push_bit 128 1"

definition uint256Max :: int where "uint256Max = push_bit 256 1 - 1"

definition minSqrtRatio :: int where "minSqrtRatio = 4295128739"

definition maxSqrtRatio :: int where
  "maxSqrtRatio = 1461446703485210103287273052203988822378723970342"

definition sqrtRatioFactors :: "int list" where
  "sqrtRatioFactors = [
     0xfffcb933bd6fad37aa2d162d1a594001,
     0xfff97272373d413259a46990580e213a,
     0xfff2e50f5f656932ef12357cf3c7fdcc,
     0xffe5caca7e10e4e61c3624eaa0941cd0,
     0xffcb9843d60f6159c9db58835c926644,
     0xff973b41fa98c081472e6896dfb254c0,
     0xff2ea16466c96a3843ec78b326b52861,
     0xfe5dee046a99a2a811c461f1969c3053,
     0xfcbe86c7900a88aedcffc83b479aa3a4,
     0xf987a7253ac413176f2b074cf7815e54,
     0xf3392b0822b70005940c7a398e4b70f3,
     0xe7159475a2c29b7443b29c7fa6e889d9,
     0xd097f3bdfd2022b8845ad8f792aa5825,
     0xa9f746462d870fdf8a65dc1f90e061e5,
     0x70d869a156d2a1b890bb3df62baf32f7,
     0x31be135f97d08fd981231505542fcfa6,
     0x9aa508b5b7a84e1c677de54f3e99bc9,
     0x5d6af8dedb81196699c329225ee604,
     0x2216e584f5fa1ea926041bedfe98,
     0x48a170391f7dc42444e8fa2]"

text \<open>The source writes the large constants as strings, which package initialisation parses; \<open>None\<close> is its panic.\<close>

definition mustParse :: "string \<Rightarrow> int option" where "mustParse s = setString s"

definition mustParseHex :: "string \<Rightarrow> int option" where "mustParseHex s = setStringHex s"

lemma maxSqrtRatio_parsed: "mustParse ''1461446703485210103287273052203988822378723970342'' = Some maxSqrtRatio"
  by (simp add: mustParse_def setString_def parseDigits_def digitVal_def maxSqrtRatio_def)

lemma sqrtRatioFactors_parsed: "those (map mustParseHex [
     ''fffcb933bd6fad37aa2d162d1a594001'',
     ''fff97272373d413259a46990580e213a'',
     ''fff2e50f5f656932ef12357cf3c7fdcc'',
     ''ffe5caca7e10e4e61c3624eaa0941cd0'',
     ''ffcb9843d60f6159c9db58835c926644'',
     ''ff973b41fa98c081472e6896dfb254c0'',
     ''ff2ea16466c96a3843ec78b326b52861'',
     ''fe5dee046a99a2a811c461f1969c3053'',
     ''fcbe86c7900a88aedcffc83b479aa3a4'',
     ''f987a7253ac413176f2b074cf7815e54'',
     ''f3392b0822b70005940c7a398e4b70f3'',
     ''e7159475a2c29b7443b29c7fa6e889d9'',
     ''d097f3bdfd2022b8845ad8f792aa5825'',
     ''a9f746462d870fdf8a65dc1f90e061e5'',
     ''70d869a156d2a1b890bb3df62baf32f7'',
     ''31be135f97d08fd981231505542fcfa6'',
     ''9aa508b5b7a84e1c677de54f3e99bc9'',
     ''5d6af8dedb81196699c329225ee604'',
     ''2216e584f5fa1ea926041bedfe98'',
     ''48a170391f7dc42444e8fa2'']) = Some sqrtRatioFactors"
  by (simp add: mustParseHex_def setStringHex_def hexVal_def sqrtRatioFactors_def)

subsection \<open>\<^verbatim>\<open>GetSqrtRatioAtTick\<close>\<close>

text \<open>The body of the loop over the bits of the absolute tick.\<close>

definition ratioStep :: "int \<Rightarrow> nat \<Rightarrow> int \<Rightarrow> int" where
  "ratioStep absTick k ratio =
     (if absTick AND push_bit k 1 \<noteq> 0
      then drop_bit 128 (ratio * sqrtRatioFactors ! k)
      else ratio)"

definition GetSqrtRatioAtTick :: "int \<Rightarrow> amm_error + int" where
  "GetSqrtRatioAtTick tick =
     (if tick < MinTick \<or> tick > MaxTick then Inl ErrTickOutOfRange
      else
        let absTick = (if tick < 0 then - tick else tick);
            ratio0 = (if absTick AND 1 \<noteq> 0 then sqrtRatioFactors ! 0 else q128);
            ratio1 = fold (ratioStep absTick) [1..<length sqrtRatioFactors] ratio0;
            ratio = (if tick > 0 then go_div uint256Max ratio1 else ratio1);
            remainder = ratio AND 0xFFFFFFFF;
            result = drop_bit 32 ratio
        in Inr (if remainder \<noteq> 0 then result + 1 else result))"

definition MinSqrtRatio :: int where "MinSqrtRatio = minSqrtRatio"

definition MaxSqrtRatio :: int where "MaxSqrtRatio = maxSqrtRatio"

subsection \<open>Rounding divisions\<close>

definition mulDiv :: "int \<Rightarrow> int \<Rightarrow> int \<Rightarrow> int" where
  "mulDiv a b denominator = go_div (a * b) denominator"

definition mulDivRoundingUp :: "int \<Rightarrow> int \<Rightarrow> int \<Rightarrow> int" where
  "mulDivRoundingUp a b denominator =
     (let quotient = (a * b) sdiv denominator; remainder = (a * b) smod denominator
      in if remainder \<noteq> 0 then quotient + 1 else quotient)"

definition divRoundingUp :: "int \<Rightarrow> int \<Rightarrow> int" where
  "divRoundingUp a denominator =
     (let quotient = a sdiv denominator; remainder = a smod denominator
      in if remainder \<noteq> 0 then quotient + 1 else quotient)"

lemma mulDiv_eq: "0 < d \<Longrightarrow> mulDiv a b d = (a * b) div d"
  by (simp add: mulDiv_def go_arith)

lemma mulDivRoundingUp_eq: "0 < d \<Longrightarrow> 0 \<le> a * b \<Longrightarrow> mulDivRoundingUp a b d = ceil_div (a * b) d"
  by (simp add: mulDivRoundingUp_def ceil_div_def go_arith)

lemma divRoundingUp_eq: "0 < d \<Longrightarrow> 0 \<le> a \<Longrightarrow> divRoundingUp a d = ceil_div a d"
  by (simp add: divRoundingUp_def ceil_div_def go_arith)

subsection \<open>The accumulated ratio against the exact product\<close>

text \<open>\<open>ratioAcc n K\<close> is the accumulator after the bits below \<open>K\<close>; \<open>ratioExact n K\<close> is the product
  of the selected factors as real numbers, without the truncation of each shift.\<close>

definition ratioAcc :: "int \<Rightarrow> nat \<Rightarrow> int" where
  "ratioAcc n K = fold (ratioStep n) [1..<K] (if n AND 1 \<noteq> 0 then sqrtRatioFactors ! 0 else q128)"

definition factor :: "nat \<Rightarrow> real" where
  "factor k = real_of_int (sqrtRatioFactors ! k) / 2 ^ 128"

primrec ratioExact :: "int \<Rightarrow> nat \<Rightarrow> real" where
  "ratioExact n 0 = 1"
| "ratioExact n (Suc k) = (if bit n k then factor k else 1) * ratioExact n k"

lemma length_sqrtRatioFactors [simp]: "length sqrtRatioFactors = 20"
  by (simp add: sqrtRatioFactors_def)

lemma sqrtRatioFactors_range: "k < 20 \<Longrightarrow> 0 < sqrtRatioFactors ! k \<and> sqrtRatioFactors ! k < 2 ^ 128"
proof -
  have "\<forall>x \<in> set sqrtRatioFactors. 0 < x \<and> x < 2 ^ 128"
    by (simp add: sqrtRatioFactors_def)
  then show "k < 20 \<Longrightarrow> ?thesis" by simp
qed

lemma factor_range: "k < 20 \<Longrightarrow> 0 < factor k \<and> factor k < 1"
  using sqrtRatioFactors_range[of k] by (simp add: factor_def)

lemma ratioExact_pos: "K \<le> 20 \<Longrightarrow> 0 < ratioExact n K"
  by (induction K) (auto simp: factor_range)

lemma ratioExact_le_1: "K \<le> 20 \<Longrightarrow> ratioExact n K \<le> 1"
proof (induction K)
  case (Suc K)
  then have f: "0 < factor K" "factor K < 1" "ratioExact n K \<le> 1" "0 < ratioExact n K"
    using factor_range[of K] ratioExact_pos[of K n] by auto
  then have "factor K * ratioExact n K \<le> 1 * 1" by (intro mult_mono) auto
  then show ?case using f by simp
qed simp

text \<open>Only the low bits matter.\<close>

lemma ratioExact_cong: "(\<And>k. k < K \<Longrightarrow> bit n k = bit m k) \<Longrightarrow> ratioExact n K = ratioExact m K"
  by (induction K) auto

lemma ratioExact_take_bit: "ratioExact (take_bit K n) K = ratioExact n K"
  by (rule ratioExact_cong) (simp add: bit_take_bit_iff)

text \<open>The numerical facts about the table: the first factor is below 1 by a margin, each next
  factor is the square of the one before up to \<open>2\<^sup>-\<^sup>4\<^sup>0\<close>, and the last one is at least \<open>2\<^sup>-\<^sup>3\<^sup>8\<close>.\<close>

lemma factor_table_squares:
  "\<forall>j \<in> set [0..<19]. sqrtRatioFactors ! Suc j * 2 ^ 128 * 2 ^ 40
                       \<le> (sqrtRatioFactors ! j) * (sqrtRatioFactors ! j) * (2 ^ 40 + 1)"
  by (simp add: sqrtRatioFactors_def upt_rec)

lemma factor_square:
  assumes "j < 19"
  shows "factor (Suc j) \<le> factor j * factor j * (1 + 1 / 2 ^ 40)"
proof -
  from factor_table_squares assms
  have "sqrtRatioFactors ! Suc j * 2 ^ 128 * 2 ^ 40
          \<le> (sqrtRatioFactors ! j) * (sqrtRatioFactors ! j) * (2 ^ 40 + 1)" by simp
  then have "real_of_int (sqrtRatioFactors ! Suc j * 2 ^ 128 * 2 ^ 40)
          \<le> real_of_int ((sqrtRatioFactors ! j) * (sqrtRatioFactors ! j) * (2 ^ 40 + 1))"
    by (rule of_int_le_iff[THEN iffD2])
  then show ?thesis by (simp add: factor_def field_simps)
qed

lemma factor_first: "factor 0 \<le> 1 - 1 / 21000"
  by (simp add: factor_def sqrtRatioFactors_def)

lemma factor_last: "1 / 2 ^ 38 \<le> factor 19"
  by (simp add: factor_def sqrtRatioFactors_def)

lemma ratioExact_ones_Suc: "ratioExact (2 ^ Suc j - 1) (Suc j) = factor j * ratioExact (2 ^ j - 1) j"
proof -
  have "bit (2 ^ Suc j - 1 :: int) k" if "k \<le> j" for k
    using that by (simp add: bit_mask_iff del: power_Suc flip: mask_eq_exp_minus_1)
  moreover have "bit (2 ^ j - 1 :: int) k" if "k < j" for k
    using that by (simp add: bit_mask_iff flip: mask_eq_exp_minus_1)
  ultimately have "ratioExact (2 ^ Suc j - 1) j = ratioExact (2 ^ j - 1) j"
    by (intro ratioExact_cong) simp
  then show ?thesis using \<open>\<And>k. k \<le> j \<Longrightarrow> bit (2 ^ Suc j - 1 :: int) k\<close> by simp
qed

lemma factor_gap_aux:
  "j < 20 \<Longrightarrow> factor j \<le> (1 - 1 / 21000 + j / 2 ^ 39) * ratioExact (2 ^ j - 1) j"
proof (induction j)
  case 0
  then show ?case using factor_first by simp
next
  case (Suc j)
  define c where "c = 1 - 1 / 21000 + real j / 2 ^ 39"
  define P where "P = ratioExact (2 ^ j - 1) j"
  have P: "0 < P" using ratioExact_pos[of j "2 ^ j - 1"] Suc.prems by (simp add: P_def)
  have f: "0 < factor j" using factor_range[of j] Suc.prems by simp
  have IH: "factor j \<le> c * P" using Suc by (simp add: c_def P_def)
  have "real j \<le> 20" using Suc.prems by simp
  then have c: "c * (1 + 1 / 2 ^ 40) \<le> c + 1 / 2 ^ 39" by (simp add: c_def field_simps)
  have "factor (Suc j) \<le> factor j * factor j * (1 + 1 / 2 ^ 40)" using factor_square Suc.prems by simp
  also have "\<dots> \<le> factor j * (c * P) * (1 + 1 / 2 ^ 40)" using IH f by simp
  also have "\<dots> = (c * (1 + 1 / 2 ^ 40)) * (factor j * P)" by (simp add: algebra_simps)
  also have "\<dots> \<le> (c + 1 / 2 ^ 39) * (factor j * P)" using c f P by (intro mult_right_mono) auto
  also have "\<dots> = (1 - 1 / 21000 + real (Suc j) / 2 ^ 39) * ratioExact (2 ^ Suc j - 1) (Suc j)"
    unfolding ratioExact_ones_Suc c_def P_def by (simp add: add_divide_distrib)
  finally show ?case .
qed

lemma factor_gap:
  assumes "j < 20"
  shows "25000 * factor j \<le> 24999 * ratioExact (2 ^ j - 1) j"
proof -
  have P: "0 < ratioExact (2 ^ j - 1) j" using ratioExact_pos assms by simp
  have "real j \<le> 20" using assms by simp
  then have "1 - 1 / 21000 + real j / 2 ^ 39 \<le> 24999 / 25000" by (simp add: field_simps)
  then have "(1 - 1 / 21000 + real j / 2 ^ 39) * ratioExact (2 ^ j - 1) j
               \<le> 24999 / 25000 * ratioExact (2 ^ j - 1) j" using P by (intro mult_right_mono) auto
  then show ?thesis using factor_gap_aux[OF assms] by simp
qed

lemma ratioExact_min: "1 / 2 ^ 76 \<le> ratioExact n 20"
proof -
  have le: "ratioExact (2 ^ K - 1) K \<le> ratioExact n K" if "K \<le> 20" for K
    using that
  proof (induction K)
    case (Suc K)
    then have IH: "ratioExact (2 ^ K - 1) K \<le> ratioExact n K" by simp
    have f: "0 < factor K" "factor K < 1" "0 < ratioExact n K"
      using factor_range[of K] ratioExact_pos[of K n] Suc.prems by auto
    have "factor K * ratioExact (2 ^ K - 1) K \<le> factor K * ratioExact n K"
      using IH f by (intro mult_left_mono) auto
    also have "\<dots> \<le> ratioExact n (Suc K)" using f by (simp add: mult_left_le_one_le)
    finally show ?case unfolding ratioExact_ones_Suc .
  qed simp
  have "1 / 2 ^ 38 \<le> ratioExact (2 ^ 19 - 1) 19"
    using factor_gap[of 19] ratioExact_pos[of 19 "2 ^ 19 - 1"] factor_last by (simp del: ratioExact.simps)
  then have "(1 / 2 ^ 38) * (1 / 2 ^ 38) \<le> factor 19 * ratioExact (2 ^ 19 - 1) 19"
    using factor_last by (intro mult_mono) auto
  also have "\<dots> = ratioExact (2 ^ 20 - 1) 20" using ratioExact_ones_Suc[of 19] by simp
  finally show ?thesis using le[of 20] by simp
qed

lemma ratioExact_step:
  assumes "K \<le> 20" "0 \<le> n" "n + 1 < 2 ^ K"
  shows "25000 * ratioExact (n + 1) K \<le> 24999 * ratioExact n K"
  using assms
proof (induction K arbitrary: n)
  case (Suc K)
  have IH: "25000 * ratioExact (m + 1) K \<le> 24999 * ratioExact m K" if "0 \<le> m" "m + 1 < 2 ^ K" for m
    using Suc.IH Suc.prems(1) that by simp
  consider "n + 1 < 2 ^ K" | "n + 1 = 2 ^ K" | "2 ^ K \<le> n" by linarith
  then show ?case
  proof cases
    case 1
    then have "\<not> bit n K" "\<not> bit (n + 1) K"
      using Suc.prems(2) by (auto simp: bit_iff_odd)
    then show ?thesis using IH[of n] 1 Suc.prems by simp
  next
    case 2
    then have n: "n = 2 ^ K - 1" by simp
    have "\<not> bit n K" using 2 Suc.prems(2) by (simp add: bit_iff_odd)
    moreover have "bit (n + 1) K" using 2 by (simp add: bit_iff_odd)
    moreover have "ratioExact (n + 1) K = 1"
    proof -
      have "ratioExact (n + 1) K = ratioExact 0 K"
        by (rule ratioExact_cong) (simp add: 2 bit_exp_iff)
      also have "\<dots> = 1" by (induction K) auto
      finally show ?thesis .
    qed
    ultimately show ?thesis using factor_gap[of K] Suc.prems(1) n by simp
  next
    case 3
    define m where "m = n - 2 ^ K"
    have m: "0 \<le> m" "m + 1 < 2 ^ K" "n = m + 2 ^ K" using 3 Suc.prems by (auto simp: m_def)
    have b: "bit n K" "bit (n + 1) K"
      using m by (auto simp: bit_iff_odd div_add_self2 add.assoc [symmetric] add.commute)
    have low: "ratioExact (x + 2 ^ K) K = ratioExact x K" for x
      using ratioExact_take_bit[of K "x + 2 ^ K"] ratioExact_take_bit[of K x] by (simp add: take_bit_eq_mod)
    have "ratioExact n K = ratioExact m K" "ratioExact (n + 1) K = ratioExact (m + 1) K"
      using low[of m] low[of "m + 1"] m(3) by (simp_all add: algebra_simps)
    moreover have "0 < factor K" using factor_range[of K] Suc.prems(1) by simp
    ultimately show ?thesis using IH[OF m(1,2)] b by simp
  qed
qed simp


subsection \<open>The accumulator stays close to the exact product\<close>

lemma and_push_bit_nonzero: "(n :: int) AND push_bit k 1 \<noteq> 0 \<longleftrightarrow> bit n k"
  using and_exp_eq_0_iff_not_bit[of n k] by (simp add: push_bit_eq_mult)

lemma and_one_nonzero: "(n :: int) AND 1 \<noteq> 0 \<longleftrightarrow> bit n 0"
  using and_push_bit_nonzero[of n 0] by simp

lemma ratioStep_bit: "ratioStep n k r = (if bit n k then (r * sqrtRatioFactors ! k) div 2 ^ 128 else r)"
  unfolding ratioStep_def and_push_bit_nonzero drop_bit_eq_div ..

lemma ratioAcc_Suc: "1 \<le> K \<Longrightarrow> ratioAcc n (Suc K) = ratioStep n K (ratioAcc n K)"
  by (simp add: ratioAcc_def)

lemma ratioAcc_bounds:
  assumes "1 \<le> K" "K \<le> 20"
  shows "ratioAcc n K \<le> 2 ^ 128 * ratioExact n K \<and> 2 ^ 128 * ratioExact n K - K \<le> ratioAcc n K"
  using assms
proof (induction K rule: dec_induct)
  case base
  then show ?case by (simp add: ratioAcc_def and_one_nonzero factor_def q128_def push_bit_eq_mult)
next
  case (step K)
  let ?F = "sqrtRatioFactors ! K"
  define C where "C = ratioAcc n K"
  define E where "E = 2 ^ 128 * ratioExact n K"
  have IH: "C \<le> E" "E - K \<le> C" using step by (auto simp: C_def E_def)
  have f: "0 < factor K" "factor K < 1" using factor_range[of K] step.prems by auto
  show ?case
  proof (cases "bit n K")
    case False
    then show ?thesis using IH step by (simp add: ratioAcc_Suc ratioStep_bit C_def E_def)
  next
    case True
    have acc: "ratioAcc n (Suc K) = (C * ?F) div 2 ^ 128"
      using True step by (simp add: ratioAcc_Suc ratioStep_bit C_def)
    have ex: "2 ^ 128 * ratioExact n (Suc K) = E * factor K" using True by (simp add: E_def)
    have cf: "real_of_int (C * ?F) / 2 ^ 128 = C * factor K" by (simp add: factor_def)
    have fl: "real_of_int ((C * ?F) div 2 ^ 128) = \<lfloor>C * factor K\<rfloor>"
      using floor_divide_of_int_eq[of "C * ?F" "2 ^ 128", where 'a = real] unfolding cf[symmetric] by simp
    have up: "C * factor K \<le> E * factor K" using IH f by simp
    have "(E - K) * factor K \<le> C * factor K" using IH f by simp
    moreover have "K * factor K \<le> K" using f by (simp add: mult_left_le)
    ultimately have lo: "E * factor K - K \<le> C * factor K" by (simp add: algebra_simps)
    have "real_of_int \<lfloor>C * factor K\<rfloor> \<le> E * factor K" using up by linarith
    moreover have "E * factor K - real (Suc K) \<le> real_of_int \<lfloor>C * factor K\<rfloor>" using lo by linarith
    ultimately show ?thesis unfolding acc ex fl by blast
  qed
qed

lemma ratioAcc_range: "2 ^ 51 \<le> ratioAcc n 20 \<and> ratioAcc n 20 \<le> 2 ^ 128"
proof -
  have b: "ratioAcc n 20 \<le> 2 ^ 128 * ratioExact n 20" "2 ^ 128 * ratioExact n 20 - 20 \<le> ratioAcc n 20"
    using ratioAcc_bounds[of 20 n] by auto
  have "2 ^ 128 * ratioExact n 20 \<le> 2 ^ 128 * 1" using ratioExact_le_1[of 20 n] by (intro mult_left_mono) auto
  moreover have "2 ^ 128 * (1 / 2 ^ 76) \<le> 2 ^ 128 * ratioExact n 20"
    using ratioExact_min[of n] by (intro mult_left_mono) auto
  ultimately have "real_of_int (ratioAcc n 20) \<le> real_of_int (2 ^ 128)" "real_of_int (2 ^ 51) \<le> real_of_int (ratioAcc n 20)"
    using b by (simp_all del: ratioExact.simps)
  then show ?thesis using of_int_le_iff by blast
qed

text \<open>One tick apart, the accumulators differ by at least one part in thirty thousand.\<close>

lemma ratioAcc_gap:
  assumes "0 \<le> n" "n + 1 < 2 ^ 20"
  shows "30000 * ratioAcc (n + 1) 20 \<le> 29999 * ratioAcc n 20"
proof -
  define E where "E = 2 ^ 128 * ratioExact n 20"
  have E: "2 ^ 52 \<le> E" unfolding E_def using ratioExact_min[of n] by (simp add: field_simps del: ratioExact.simps)
  have "25000 * (2 ^ 128 * ratioExact (n + 1) 20) \<le> 24999 * E"
    using ratioExact_step[of 20 n] assms by (simp add: E_def del: ratioExact.simps)
  moreover have "ratioAcc (n + 1) 20 \<le> 2 ^ 128 * ratioExact (n + 1) 20" "E - 20 \<le> ratioAcc n 20"
    using ratioAcc_bounds[of 20 "n + 1"] ratioAcc_bounds[of 20 n] by (auto simp: E_def)
  ultimately have "30000 * real_of_int (ratioAcc (n + 1) 20) \<le> 29999 * real_of_int (ratioAcc n 20)"
    using E by (simp del: ratioExact.simps)
  then show ?thesis using of_int_le_iff[of "30000 * ratioAcc (n + 1) 20" "29999 * ratioAcc n 20", where 'a = real]
    by simp
qed

subsection \<open>Strict monotonicity of the conversion\<close>

text \<open>The Q128 ratio of a signed tick before the final shift.\<close>

definition tickRatioQ128 :: "int \<Rightarrow> int" where
  "tickRatioQ128 tick =
     (if tick > 0 then uint256Max div ratioAcc tick 20 else ratioAcc (- tick) 20)"

lemma round_up_32: "(if (x :: int) AND 0xFFFFFFFF \<noteq> 0 then drop_bit 32 x + 1 else drop_bit 32 x) = ceil_div x (2 ^ 32)"
proof -
  have "x AND 0xFFFFFFFF = x mod 2 ^ 32"
    using take_bit_eq_mask[of 32 x] by (simp add: take_bit_eq_mod mask_eq_exp_minus_1)
  then show ?thesis by (simp add: ceil_div_def drop_bit_eq_div)
qed

lemma GetSqrtRatioAtTick_eq:
  assumes "MinTick \<le> t" "t \<le> MaxTick"
  shows "GetSqrtRatioAtTick t = Inr (ceil_div (tickRatioQ128 t) (2 ^ 32))"
proof -
  have pos: "0 < ratioAcc t 20" using ratioAcc_range[of t] by simp
  show ?thesis
    unfolding GetSqrtRatioAtTick_def Let_def round_up_32 length_sqrtRatioFactors
      ratioAcc_def[symmetric] go_div_pos[OF pos] tickRatioQ128_def
    using assms go_div_pos[OF pos] by auto
qed

lemma tickRatioQ128_step_neg:
  assumes "- (2 ^ 20) < t" "t < 0"
  shows "tickRatioQ128 t + 2 ^ 32 \<le> tickRatioQ128 (t + 1)"
proof -
  have "30000 * ratioAcc (- t) 20 \<le> 29999 * ratioAcc (- t - 1) 20"
    using ratioAcc_gap[of "- t - 1"] assms by simp
  moreover have "2 ^ 51 \<le> ratioAcc (- t) 20" "2 ^ 51 \<le> ratioAcc (- t - 1) 20" using ratioAcc_range by auto
  ultimately have "ratioAcc (- t) 20 + 2 ^ 32 \<le> ratioAcc (- t - 1) 20" by simp
  then show ?thesis using assms by (simp add: tickRatioQ128_def)
qed

lemma uint256_div_gap:
  assumes "0 < c" "c \<le> 2 ^ 128" "0 < d" "30000 * d \<le> 29999 * c"
  shows "uint256Max div c + 2 ^ 33 \<le> uint256Max div d"
proof -
  define q where "q = uint256Max div c"
  have M: "uint256Max = 2 ^ 256 - 1" by (simp add: uint256Max_def push_bit_eq_mult)
  have qc: "q * c \<le> uint256Max" using le_div_iff[OF assms(1), of q uint256Max] by (simp add: q_def)
  have "(2 ^ 128 - 1) * c \<le> (2 ^ 128 - 1) * 2 ^ 128" using assms(2) by (intro mult_left_mono) auto
  then have q: "2 ^ 128 - 1 \<le> q" unfolding q_def using le_div_iff[OF assms(1)] M by simp
  have "(q + 2 ^ 33) * (30000 * d) \<le> (q + 2 ^ 33) * (29999 * c)"
    using assms(4) q by (intro mult_left_mono) auto
  also have "\<dots> = (29999 * q + 29999 * 2 ^ 33) * c" by (simp add: algebra_simps)
  also have "\<dots> \<le> (30000 * q) * c" using q assms(1) by (intro mult_right_mono) auto
  also have "\<dots> \<le> 30000 * uint256Max" using qc by simp
  finally have "(q + 2 ^ 33) * d \<le> uint256Max" by simp
  then show ?thesis using le_div_iff[OF assms(3)] by (simp add: q_def)
qed

lemma tickRatioQ128_step_pos:
  assumes "0 \<le> t" "t + 1 < 2 ^ 20"
  shows "tickRatioQ128 t + 2 ^ 32 \<le> tickRatioQ128 (t + 1)"
proof -
  have r: "0 < ratioAcc t 20" "ratioAcc t 20 \<le> 2 ^ 128" "0 < ratioAcc (t + 1) 20"
    using ratioAcc_range[of t] ratioAcc_range[of "t + 1"] by auto
  have g: "uint256Max div ratioAcc t 20 + 2 ^ 33 \<le> uint256Max div ratioAcc (t + 1) 20"
    using uint256_div_gap[OF r] ratioAcc_gap[of t] assms by simp
  show ?thesis
  proof (cases "t = 0")
    case True
    have "ratioAcc 0 20 = 2 ^ 128"
      by (simp add: ratioAcc_def ratioStep_def upt_rec q128_def)
    moreover have "uint256Max div 2 ^ 128 = 2 ^ 128 - 1" by (simp add: uint256Max_def)
    ultimately show ?thesis using g True by (simp add: tickRatioQ128_def)
  next
    case False
    then show ?thesis using g assms by (simp add: tickRatioQ128_def)
  qed
qed

lemma ceil_div_shift: "0 < b \<Longrightarrow> ceil_div (a + b) b = ceil_div a b + 1"
  by (simp add: ceil_div_def)

lemma sqrt_ratio_step:
  assumes "- (2 ^ 20) < t" "t + 1 < 2 ^ 20"
  shows "ceil_div (tickRatioQ128 t) (2 ^ 32) < ceil_div (tickRatioQ128 (t + 1)) (2 ^ 32)"
proof -
  have "tickRatioQ128 t + 2 ^ 32 \<le> tickRatioQ128 (t + 1)"
    using tickRatioQ128_step_neg[of t] tickRatioQ128_step_pos[of t] assms by (cases "t < 0") auto
  then have "ceil_div (tickRatioQ128 t + 2 ^ 32) (2 ^ 32) \<le> ceil_div (tickRatioQ128 (t + 1)) (2 ^ 32)"
    by (intro ceil_div_mono) auto
  then show ?thesis by (simp add: ceil_div_shift)
qed

lemma sqrt_ratio_mono:
  assumes "- (2 ^ 20) < s" "s < t" "t < 2 ^ 20"
  shows "ceil_div (tickRatioQ128 s) (2 ^ 32) < ceil_div (tickRatioQ128 t) (2 ^ 32)"
proof -
  have "s + 1 \<le> t" using assms by simp
  then show ?thesis using assms(3)
  proof (induction t rule: int_ge_induct)
    case base
    then show ?case using sqrt_ratio_step[of s] assms(1) by simp
  next
    case (step t)
    then show ?case using sqrt_ratio_step[of t] assms(1) by simp
  qed
qed

lemma GetSqrtRatioAtTick_Inl_iff:
  "GetSqrtRatioAtTick t = Inl e \<longleftrightarrow> e = ErrTickOutOfRange \<and> (t < MinTick \<or> t > MaxTick)"
proof (cases "t < MinTick \<or> t > MaxTick")
  case True
  then show ?thesis by (auto simp: GetSqrtRatioAtTick_def)
next
  case False
  then show ?thesis by (auto simp: GetSqrtRatioAtTick_eq)
qed

lemma GetSqrtRatioAtTick_Inr_range: "GetSqrtRatioAtTick t = Inr r \<Longrightarrow> MinTick \<le> t \<and> t \<le> MaxTick"
  by (auto simp: GetSqrtRatioAtTick_def split: if_splits)

lemma GetSqrtRatioAtTick_less:
  assumes "GetSqrtRatioAtTick s = Inr a" "GetSqrtRatioAtTick t = Inr b" "s < t"
  shows "a < b"
proof -
  have "MinTick \<le> s" "t \<le> MaxTick" "s \<le> MaxTick" "MinTick \<le> t"
    using assms GetSqrtRatioAtTick_Inr_range by blast+
  then show ?thesis
    using assms sqrt_ratio_mono[of s t] by (simp add: GetSqrtRatioAtTick_eq MinTick_def MaxTick_def)
qed

lemma GetSqrtRatioAtTick_le:
  "GetSqrtRatioAtTick s = Inr a \<Longrightarrow> GetSqrtRatioAtTick t = Inr b \<Longrightarrow> s \<le> t \<Longrightarrow> a \<le> b"
  using GetSqrtRatioAtTick_less[of s a t b] by (cases "s = t") auto

lemma GetSqrtRatioAtTick_MinTick: "GetSqrtRatioAtTick MinTick = Inr MinSqrtRatio"
  by code_simp

lemma GetSqrtRatioAtTick_MaxTick: "GetSqrtRatioAtTick MaxTick = Inr MaxSqrtRatio"
  by code_simp

lemma GetSqrtRatioAtTick_bounds:
  assumes "GetSqrtRatioAtTick t = Inr r"
  shows "MinSqrtRatio \<le> r \<and> r \<le> MaxSqrtRatio"
  using GetSqrtRatioAtTick_Inr_range[OF assms]
    GetSqrtRatioAtTick_le[OF GetSqrtRatioAtTick_MinTick assms]
    GetSqrtRatioAtTick_le[OF assms GetSqrtRatioAtTick_MaxTick] by simp

lemma GetSqrtRatioAtTick_pos: "GetSqrtRatioAtTick t = Inr r \<Longrightarrow> 0 < r"
  using GetSqrtRatioAtTick_bounds[of t r] by (simp add: MinSqrtRatio_def minSqrtRatio_def)

subsection \<open>Properties of the conversion\<close>

text \<open>C33. The tick conversion is defined exactly on the protocol's tick range, and there it is
  strictly increasing: a higher tick always has a strictly higher square-root price, in spite of
  the twenty truncations, the reciprocal for positive ticks and the final rounding.\<close>

theorem GetSqrtRatioAtTick_strict_mono:
  assumes "MinTick \<le> s" and "s < t" and "t \<le> MaxTick"
  shows "\<exists>a b. GetSqrtRatioAtTick s = Inr a \<and> GetSqrtRatioAtTick t = Inr b \<and> a < b"
  using assms GetSqrtRatioAtTick_eq[of s] GetSqrtRatioAtTick_eq[of t] GetSqrtRatioAtTick_less[of s _ t]
  by auto

theorem GetSqrtRatioAtTick_strict_mono_witness:
  "\<exists>a b. GetSqrtRatioAtTick (-60) = Inr a \<and> GetSqrtRatioAtTick 1 = Inr b \<and> a < b"
  using GetSqrtRatioAtTick_strict_mono[of "-60" 1] by (simp add: MinTick_def MaxTick_def)

text \<open>Every tick either is refused, exactly when it lies outside the protocol bounds, or maps
  to a price between the published lowest and highest square-root prices, which are the values at
  the two ends of the range.\<close>

theorem GetSqrtRatioAtTick_range:
  "case GetSqrtRatioAtTick t of
     Inl e \<Rightarrow> e = ErrTickOutOfRange \<and> (t < MinTick \<or> MaxTick < t)
   | Inr r \<Rightarrow> MinTick \<le> t \<and> t \<le> MaxTick \<and> MinSqrtRatio \<le> r \<and> r \<le> MaxSqrtRatio
             \<and> (r = MinSqrtRatio \<longleftrightarrow> t = MinTick) \<and> (r = MaxSqrtRatio \<longleftrightarrow> t = MaxTick)"
proof (cases "GetSqrtRatioAtTick t")
  case (Inl e)
  then show ?thesis using GetSqrtRatioAtTick_Inl_iff[of t e] by simp
next
  case (Inr r)
  have "t = MinTick" if "r = MinSqrtRatio"
    using GetSqrtRatioAtTick_less[OF GetSqrtRatioAtTick_MinTick Inr] GetSqrtRatioAtTick_Inr_range[OF Inr] that
    by fastforce
  moreover have "t = MaxTick" if "r = MaxSqrtRatio"
    using GetSqrtRatioAtTick_less[OF Inr GetSqrtRatioAtTick_MaxTick] GetSqrtRatioAtTick_Inr_range[OF Inr] that
    by fastforce
  ultimately show ?thesis
    using Inr GetSqrtRatioAtTick_Inr_range[OF Inr] GetSqrtRatioAtTick_bounds[OF Inr]
      GetSqrtRatioAtTick_MinTick GetSqrtRatioAtTick_MaxTick by auto
qed

end
