(* ===== verification/Amm_Scratch.thy ===== *)
theory Amm_Scratch
  imports Amm_TickMath
begin

unbundle bit_operations_syntax

section \<open>The reusable workspace (\<^verbatim>\<open>internal/amm/scratch.go\<close>)\<close>

text \<open>
  The swap routines write their intermediate values into the fields of one shared
  \<^verbatim>\<open>Scratch\<close>, through pointers, and return a pointer into it. The workspace is
  therefore modelled as a store: \<open>reg\<close> names its fields, a \<open>scratch\<close> gives each field's
  value, and a \<^verbatim>\<open>*big.Int\<close> operand is a \<open>bigref\<close>, either a field (read when the operation
  runs, so aliasing of a destination with an operand is visible) or an integer outside the
  workspace, which the routines only read. The locale \<open>workspace_routine\<close> is the contract of
  every \<^verbatim>\<open>...Into\<close> function: its result does not depend on what the workspace held.
\<close>

subsection \<open>Fields and pointers\<close>

datatype reg =
    Remaining | Out | SqrtPrice | Liquidity | StepNext | StepIn | StepOut
  | LessFee | InToTarget | FeeAmount
  | A0t0 | A0t1 | A1t0 | Ns0 | Ns1 | Rem | One
  | V2a | V2b

type_synonym scratch = "reg \<Rightarrow> int"

datatype bigref = Reg reg | Ext int

fun deref :: "scratch \<Rightarrow> bigref \<Rightarrow> int" where
  "deref sc (Reg r) = sc r"
| "deref sc (Ext n) = n"

definition NewScratch :: scratch where
  "NewScratch = (\<lambda>_. 0)(One := 1)"

subsection \<open>The methods of \<^verbatim>\<open>big.Int\<close> the routines call, with a field as receiver\<close>

definition bSet :: "reg \<Rightarrow> bigref \<Rightarrow> scratch \<Rightarrow> scratch" where
  "bSet dst a sc = sc(dst := deref sc a)"

definition bAdd :: "reg \<Rightarrow> bigref \<Rightarrow> bigref \<Rightarrow> scratch \<Rightarrow> scratch" where
  "bAdd dst a b sc = sc(dst := deref sc a + deref sc b)"

definition bSub :: "reg \<Rightarrow> bigref \<Rightarrow> bigref \<Rightarrow> scratch \<Rightarrow> scratch" where
  "bSub dst a b sc = sc(dst := deref sc a - deref sc b)"

definition bMul :: "reg \<Rightarrow> bigref \<Rightarrow> bigref \<Rightarrow> scratch \<Rightarrow> scratch" where
  "bMul dst a b sc = sc(dst := deref sc a * deref sc b)"

definition bDiv :: "reg \<Rightarrow> bigref \<Rightarrow> bigref \<Rightarrow> scratch \<Rightarrow> scratch" where
  "bDiv dst a b sc = sc(dst := go_div (deref sc a) (deref sc b))"

definition bLsh :: "reg \<Rightarrow> bigref \<Rightarrow> nat \<Rightarrow> scratch \<Rightarrow> scratch" where
  "bLsh dst a n sc = sc(dst := push_bit n (deref sc a))"

definition bQuoRem :: "reg \<Rightarrow> reg \<Rightarrow> bigref \<Rightarrow> bigref \<Rightarrow> scratch \<Rightarrow> scratch" where
  "bQuoRem dst r a b sc = sc(dst := deref sc a sdiv deref sc b, r := deref sc a smod deref sc b)"

lemmas big_methods [store_simps] =
  bSet_def bAdd_def bSub_def bMul_def bDiv_def bLsh_def bQuoRem_def

subsection \<open>Rounding divisions into a field\<close>

definition mulDivInto :: "reg \<Rightarrow> bigref \<Rightarrow> bigref \<Rightarrow> bigref \<Rightarrow> scratch \<Rightarrow> scratch" where
  "mulDivInto dst a b denominator s =
     (let s = bMul dst a b s
      in bDiv dst (Reg dst) denominator s)"

definition mulDivRoundingUpInto :: "reg \<Rightarrow> bigref \<Rightarrow> bigref \<Rightarrow> bigref \<Rightarrow> scratch \<Rightarrow> scratch" where
  "mulDivRoundingUpInto dst a b denominator s =
     (let s = bMul dst a b s;
          s = bQuoRem dst Rem (Reg dst) denominator s
      in if s Rem \<noteq> 0 then bAdd dst (Reg dst) (Reg One) s else s)"

definition divRoundingUpInto :: "reg \<Rightarrow> bigref \<Rightarrow> scratch \<Rightarrow> scratch" where
  "divRoundingUpInto dst denominator s =
     (let s = bQuoRem dst Rem (Reg dst) denominator s
      in if s Rem \<noteq> 0 then bAdd dst (Reg dst) (Reg One) s else s)"

subsection \<open>Their effect\<close>

text \<open>Each computes the value of its allocating counterpart in \<^verbatim>\<open>tickmath.go\<close>, provided the
  destination is not the divisor (the comment on \<^verbatim>\<open>mulDivInto\<close>) and the field \<open>One\<close> holds 1.\<close>

lemma deref_upd [store_simps]: "deref (sc(r := v)) x = (if x = Reg r then v else deref sc x)"
  by (cases x) auto

lemma mulDivInto_eq:
  assumes "denominator \<noteq> Reg dst"
  shows "mulDivInto dst a b denominator sc
           = sc(dst := mulDiv (deref sc a) (deref sc b) (deref sc denominator))"
  using assms by (simp add: mulDivInto_def mulDiv_def Let_def store_simps)

lemma mulDivRoundingUpInto_eq:
  assumes "denominator \<noteq> Reg dst" "dst \<noteq> Rem" "dst \<noteq> One" "sc One = 1"
  shows "mulDivRoundingUpInto dst a b denominator sc
           = sc(dst := mulDivRoundingUp (deref sc a) (deref sc b) (deref sc denominator),
                Rem := (deref sc a * deref sc b) smod deref sc denominator)"
  using assms by (auto simp: mulDivRoundingUpInto_def mulDivRoundingUp_def Let_def store_simps fun_eq_iff)

lemma divRoundingUpInto_eq:
  assumes "dst \<noteq> Rem" "dst \<noteq> One" "sc One = 1"
  shows "divRoundingUpInto dst denominator sc
           = sc(dst := divRoundingUp (sc dst) (deref sc denominator),
                Rem := sc dst smod deref sc denominator)"
  using assms by (auto simp: divRoundingUpInto_def divRoundingUp_def Let_def store_simps fun_eq_iff)

lemmas into_eqs = mulDivInto_eq mulDivRoundingUpInto_eq divRoundingUpInto_eq

lemma NewScratch_One [simp]: "NewScratch One = 1"
  by (simp add: NewScratch_def)

subsection \<open>The contract of an \<^verbatim>\<open>Into\<close> routine\<close>

text \<open>\<open>into\<close> runs against a workspace and returns the workspace it leaves and, on success, a
  pointer into it; \<open>value\<close> is what the routine computes. The only thing a workspace has to provide
  is the constant in its field \<open>One\<close>, and the routine keeps it.\<close>

locale workspace_routine =
  fixes into :: "scratch \<Rightarrow> scratch \<times> ('e, bigref) outcome"
    and val :: "('e, int) outcome"
  assumes into_value: "sc One = 1 \<Longrightarrow> map_outcome_ok (deref (fst (into sc))) (snd (into sc)) = val"
    and into_One: "sc One = 1 \<Longrightarrow> fst (into sc) One = 1"
begin

lemma fresh_value: "(case into NewScratch of (sc, r) \<Rightarrow> map_outcome_ok (deref sc) r) = val"
  using into_value[of NewScratch] by (simp add: case_prod_beta)

lemma reuse: "sc One = 1 \<Longrightarrow> sc' One = 1 \<Longrightarrow>
    map_outcome_ok (deref (fst (into sc))) (snd (into sc))
      = map_outcome_ok (deref (fst (into sc'))) (snd (into sc'))"
  by (simp add: into_value)

lemma into_cases:
  assumes "sc One = 1"
  obtains (ok) sc' r v where "into sc = (sc', Ok r)" "deref sc' r = v" "val = Ok v" "sc' One = 1"
  | (err) sc' e where "into sc = (sc', Err e)" "val = Err e" "sc' One = 1"
  | (panic) sc' where "into sc = (sc', Panic)" "val = Panic" "sc' One = 1"
proof -
  note facts = into_value[of sc, OF assms] into_One[of sc, OF assms]
  obtain sc' r where *: "into sc = (sc', r)" by (cases "into sc")
  show thesis
  proof (cases r)
    case (Ok x)
    with * facts show thesis by (intro ok[of sc' x "deref sc' x"]) simp_all
  next
    case (Err e)
    with * facts show thesis by (intro err[of sc' e]) simp_all
  next
    case Panic
    with * facts show thesis by (intro panic[of sc']) simp_all
  qed
qed

end

end
