(* ===== verification/Amm_V2.thy ===== *)
theory Amm_V2
  imports Amm_Scratch
begin

section \<open>Constant product swaps (\<^verbatim>\<open>internal/amm/v2.go\<close>)\<close>

text \<open>
  \<open>SwapV2Into\<close> is the workspace routine, \<open>SwapV2\<close> the allocating wrapper, \<open>swapV2\<close> the closed
  formula both compute. The lemmas about \<open>v2Out\<close> are the arithmetic of the formula: rounding is
  downward and exact, the pool is never drained, its product never falls, output grows with input,
  and a round trip never gains.
\<close>

record v2pool =
  v2ReserveIn :: "int option"
  v2ReserveOut :: "int option"
  v2FeeBps :: nat

definition SwapV2Into :: "scratch \<Rightarrow> int option \<Rightarrow> v2pool \<Rightarrow> scratch \<times> (amm_error, bigref) outcome" where
  "SwapV2Into sc amountIn p =
     (if \<not> isPositive amountIn then (sc, Err ErrZeroAmount)
      else if bpsDenominator \<le> int (v2FeeBps p) then (sc, Err ErrInvalidFee)
      else if \<not> isPositive (v2ReserveIn p) \<or> \<not> isPositive (v2ReserveOut p)
        then (sc, Err ErrInsufficientLiquidity)
      else
        let sc = bMul V2a (Ext (the amountIn)) (Ext (bpsDenominator - int (v2FeeBps p))) sc;
            sc = bMul V2b (Ext (the (v2ReserveIn p))) (Ext bpsDenominator) sc;
            sc = bAdd V2b (Reg V2b) (Reg V2a) sc;
            sc = bMul Out (Reg V2a) (Ext (the (v2ReserveOut p))) sc;
            sc = bDiv Out (Reg Out) (Reg V2b) sc
        in (sc, Ok (Reg Out)))"

definition SwapV2 :: "int option \<Rightarrow> v2pool \<Rightarrow> (amm_error, int) outcome" where
  "SwapV2 amountIn p =
     (case SwapV2Into NewScratch amountIn p of (sc, r) \<Rightarrow> map_outcome_ok (deref sc) r)"

subsection \<open>The formula\<close>

definition v2Out :: "int \<Rightarrow> int \<Rightarrow> int \<Rightarrow> nat \<Rightarrow> int" where
  "v2Out a rin rout fee =
     (a * (10000 - int fee) * rout) div (rin * 10000 + a * (10000 - int fee))"

definition swapV2 :: "int option \<Rightarrow> v2pool \<Rightarrow> (amm_error, int) outcome" where
  "swapV2 amountIn p =
     (case amountIn of None \<Rightarrow> Err ErrZeroAmount
      | Some a \<Rightarrow>
        if a \<le> 0 then Err ErrZeroAmount
        else if 10000 \<le> int (v2FeeBps p) then Err ErrInvalidFee
        else case (v2ReserveIn p, v2ReserveOut p) of
               (Some rin, Some rout) \<Rightarrow>
                  if 0 < rin \<and> 0 < rout then Ok (v2Out a rin rout (v2FeeBps p))
                  else Err ErrInsufficientLiquidity
             | _ \<Rightarrow> Err ErrInsufficientLiquidity)"

text \<open>The denominator of the formula is positive, so the Euclidean division of the routine is the
  flooring one of the formula.\<close>

lemma v2_denominator_pos: "0 < a \<Longrightarrow> fee < 10000 \<Longrightarrow> 0 < rin \<Longrightarrow> 0 < rin * 10000 + a * (10000 - int fee)"
  by (simp add: add_pos_pos)

interpretation v2: workspace_routine "\<lambda>sc. SwapV2Into sc amountIn p" "swapV2 amountIn p"
  for amountIn p
proof unfold_locales
  fix sc :: scratch
  assume "sc One = 1"
  show "map_outcome_ok (deref (fst (SwapV2Into sc amountIn p))) (snd (SwapV2Into sc amountIn p))
          = swapV2 amountIn p"
    using v2_denominator_pos
    by (auto simp: SwapV2Into_def swapV2_def v2Out_def bpsDenominator_def Let_def store_simps go_arith
             split: option.splits)
next
  fix sc :: scratch
  assume "sc One = 1"
  then show "fst (SwapV2Into sc amountIn p) One = 1"
    by (simp add: SwapV2Into_def Let_def store_simps)
qed

lemma SwapV2_eq: "SwapV2 amountIn p = swapV2 amountIn p"
  unfolding SwapV2_def by (rule v2.fresh_value)

lemma swapV2_Ok_iff:
  "swapV2 amountIn p = Ok v \<longleftrightarrow>
     (\<exists>a rin rout. amountIn = Some a \<and> v2ReserveIn p = Some rin \<and> v2ReserveOut p = Some rout
        \<and> 0 < a \<and> v2FeeBps p < 10000 \<and> 0 < rin \<and> 0 < rout \<and> v = v2Out a rin rout (v2FeeBps p))"
  by (auto simp: swapV2_def split: option.splits if_splits)

lemma swapV2_no_panic: "swapV2 amountIn p \<noteq> Panic"
  by (auto simp: swapV2_def split: option.splits)

subsection \<open>Arithmetic of the formula\<close>

lemma v2Out_nonneg: "0 < a \<Longrightarrow> fee < 10000 \<Longrightarrow> 0 < rin \<Longrightarrow> 0 < rout \<Longrightarrow> 0 \<le> v2Out a rin rout fee"
  using v2_denominator_pos[of a fee rin] by (simp add: v2Out_def pos_imp_zdiv_nonneg_iff)

text \<open>The output is the largest integer that keeps the fee-adjusted product of the reserves.\<close>

lemma v2Out_le_iff:
  assumes "0 < a" "fee < 10000" "0 < rin"
  shows "x \<le> v2Out a rin rout fee \<longleftrightarrow>
           10000 * rin * rout \<le> (10000 * rin + a * (10000 - int fee)) * (rout - x)"
  unfolding v2Out_def le_div_iff[OF v2_denominator_pos[OF assms]] by (simp add: algebra_simps)

lemma v2Out_less_reserve:
  assumes "0 < a" "fee < 10000" "0 < rin" "0 < rout"
  shows "v2Out a rin rout fee < rout"
proof -
  have "\<not> rout \<le> v2Out a rin rout fee"
    unfolding v2Out_le_iff[OF assms(1-3)] using assms by (simp add: not_le)
  then show ?thesis by simp
qed

lemma v2Out_mono:
  assumes "0 < a" "a \<le> b" "fee < 10000" "0 < rin" "0 < rout"
  shows "v2Out a rin rout fee \<le> v2Out b rin rout fee"
proof -
  let ?x = "v2Out a rin rout fee"
  have x: "?x < rout" using v2Out_less_reserve assms by simp
  have "10000 * rin * rout \<le> (10000 * rin + a * (10000 - int fee)) * (rout - ?x)"
    using v2Out_le_iff[of a fee rin ?x rout] assms by simp
  also have "\<dots> \<le> (10000 * rin + b * (10000 - int fee)) * (rout - ?x)"
    using x assms by (intro mult_right_mono add_left_mono) auto
  finally show ?thesis using v2Out_le_iff[of b fee rin ?x rout] assms by simp
qed

text \<open>The product of the real reserves never falls: the whole input stays in the pool.\<close>

lemma v2Out_product:
  assumes "0 < a" "fee < 10000" "0 < rin" "0 < rout"
  shows "rin * rout \<le> (rin + a) * (rout - v2Out a rin rout fee)"
proof -
  let ?x = "v2Out a rin rout fee"
  have x: "?x < rout" using v2Out_less_reserve assms by simp
  have "10000 * (rin * rout) \<le> (10000 * rin + a * (10000 - int fee)) * (rout - ?x)"
    using v2Out_le_iff[of a fee rin ?x rout] assms by (simp add: algebra_simps)
  also have "\<dots> \<le> (10000 * rin + a * 10000) * (rout - ?x)"
    using x assms by (intro mult_right_mono add_left_mono mult_left_mono) auto
  also have "\<dots> = 10000 * ((rin + a) * (rout - ?x))" by (simp add: algebra_simps)
  finally show ?thesis by simp
qed

text \<open>Selling the output back into the same quoted reserves returns no more than was sold.\<close>

lemma v2Out_round_trip:
  assumes "0 < a" "fee < 10000" "0 < rin" "0 < rout" "0 < v2Out a rin rout fee"
  shows "v2Out (v2Out a rin rout fee) rout rin fee \<le> a"
proof (rule ccontr)
  let ?x = "v2Out a rin rout fee"
  assume "\<not> ?thesis"
  then have "a + 1 \<le> v2Out ?x rout rin fee" by simp
  have "rout * rin \<le> (rout + ?x) * (rin - v2Out ?x rout rin fee)"
    using v2Out_product[of ?x fee rout rin] assms by simp
  also have "\<dots> \<le> (rout + ?x) * (rin - (a + 1))"
    using \<open>a + 1 \<le> _\<close> assms by (intro mult_left_mono) auto
  finally have "rout * rin \<le> (rout + ?x) * (rin - (a + 1))" .
  moreover have "rin * rout \<le> (rin + a) * (rout - ?x)" using v2Out_product assms by simp
  moreover have "(rout + ?x) * (rin - (a + 1)) = rout * rin - rout * (a + 1) + ?x * rin - ?x * (a + 1)"
    "(rin + a) * (rout - ?x) = rin * rout - rin * ?x + a * rout - a * ?x" by (simp_all add: algebra_simps)
  moreover have "0 < ?x * (a + 1)" "0 < a * ?x" using assms by simp_all
  ultimately show False using assms by (simp add: algebra_simps)
qed

subsection \<open>Properties\<close>

definition exampleV2 :: v2pool where
  "exampleV2 = \<lparr>v2ReserveIn = Some 1000000, v2ReserveOut = Some 2000000, v2FeeBps = 30\<rparr>"

text \<open>C10. A constant-product swap is exact and safe: the amount \<^verbatim>\<open>SwapV2\<close> returns is the largest
  integer that keeps the fee-adjusted product of the reserves, it is never negative and never drains
  the output reserve, and the product of the real reserves after the trade is at least what it was
  before.\<close>

theorem SwapV2_sound:
  assumes "SwapV2 (Some a) p = Ok v" "v2ReserveIn p = Some rin" "v2ReserveOut p = Some rout"
  shows "(\<forall>x. x \<le> v \<longleftrightarrow> 10000 * rin * rout \<le> (10000 * rin + a * (10000 - int (v2FeeBps p))) * (rout - x))
    \<and> 0 \<le> v \<and> v < rout \<and> rin * rout \<le> (rin + a) * (rout - v)"
proof -
  have c: "0 < a" "v2FeeBps p < 10000" "0 < rin" "0 < rout" "v = v2Out a rin rout (v2FeeBps p)"
    using assms by (auto simp: SwapV2_eq swapV2_Ok_iff)
  show ?thesis
    unfolding c(5) using v2Out_le_iff[OF c(1-3)] v2Out_nonneg[OF c(1-4)] v2Out_less_reserve[OF c(1-4)]
      v2Out_product[OF c(1-4)] by blast
qed

lemma exampleV2_facts: "SwapV2 (Some 1000) exampleV2 = Ok 1992" "SwapV2 (Some 5000) exampleV2 = Ok 9920"
  by (simp_all add: SwapV2_eq swapV2_def exampleV2_def v2Out_def)

theorem SwapV2_sound_witness:
  "SwapV2 (Some 1000) exampleV2 = Ok 1992 \<and> (1000000 :: int) * 2000000 \<le> (1000000 + 1000) * (2000000 - 1992)"
  using SwapV2_sound[OF exampleV2_facts(1), of 1000000 2000000] exampleV2_facts(1)
  by (simp add: exampleV2_def)

text \<open>The output of \<^verbatim>\<open>SwapV2\<close> grows with the input, and a larger input never turns a quote into
  an error.\<close>

theorem SwapV2_mono:
  assumes "SwapV2 (Some a) p = Ok v" "a \<le> b"
  shows "\<exists>w. SwapV2 (Some b) p = Ok w \<and> v \<le> w"
  using assms v2Out_mono[of a b "v2FeeBps p"] by (auto simp: SwapV2_eq swapV2_Ok_iff)

theorem SwapV2_mono_witness: "\<exists>w. SwapV2 (Some 5000) exampleV2 = Ok w \<and> 1992 \<le> w"
  by (rule SwapV2_mono[OF exampleV2_facts(1)]) simp

text \<open>Selling the proceeds of a swap back into the same pool, at the reserves it was quoted
  against, never returns more than was sold.\<close>

theorem SwapV2_round_trip:
  assumes "SwapV2 (Some a) p = Ok v"
    and "SwapV2 (Some v) (p\<lparr>v2ReserveIn := v2ReserveOut p, v2ReserveOut := v2ReserveIn p\<rparr>) = Ok w"
  shows "w \<le> a"
  using assms v2Out_round_trip[of a "v2FeeBps p"] by (auto simp: SwapV2_eq swapV2_Ok_iff)

theorem SwapV2_round_trip_witness:
  "\<exists>w. SwapV2 (Some 1992) (exampleV2\<lparr>v2ReserveIn := v2ReserveOut exampleV2, v2ReserveOut := v2ReserveIn exampleV2\<rparr>) = Ok w \<and> w \<le> 1000"
  using SwapV2_round_trip[OF exampleV2_facts(1)]
  by (simp add: SwapV2_eq swapV2_def exampleV2_def v2Out_def)

text \<open>\<^verbatim>\<open>SwapV2Into\<close> reports its errors in the order of its guards, never panics, and succeeds on
  every positive amount against a pool with positive reserves and a fee below 100 percent, whatever
  the workspace holds.\<close>

theorem SwapV2Into_outcome:
  "snd (SwapV2Into sc amountIn p) =
     (if \<not> isPositive amountIn then Err ErrZeroAmount
      else if 10000 \<le> int (v2FeeBps p) then Err ErrInvalidFee
      else if isPositive (v2ReserveIn p) \<and> isPositive (v2ReserveOut p) then Ok (Reg Out)
      else Err ErrInsufficientLiquidity)"
  by (simp add: SwapV2Into_def bpsDenominator_def Let_def)

end
