(* ===== verification/Amm_V3.thy ===== *)
theory Amm_V3
  imports Amm_Scratch "HOL-Library.Multiset"
begin

unbundle bit_operations_syntax

section \<open>Concentrated liquidity swaps (\<^verbatim>\<open>internal/amm/v3.go\<close>)\<close>

text \<open>
  The tick-crossing swap. \<open>SwapV3Into\<close> is the routine of the source, statement by statement
  over the workspace; \<open>swapV3\<close> is the same walk over plain values. The first part proves that they
  agree for every workspace, the second part proves the walk correct: an exact-input swap that
  succeeds consumes the whole input, its output is monotone in the input, and the branches the
  comments call impossible are impossible.

  A tick's \<^verbatim>\<open>LiquidityNet\<close> is a nullable pointer that the walk dereferences without a test, so
  crossing a tick whose net is \<^verbatim>\<open>nil\<close> is a panic. Tick indices are \<^verbatim>\<open>int32\<close>: the decrement
  after crossing downward wraps. Ticks are ordered by \<open>sort_key\<close>, which is the only order
  \<^verbatim>\<open>sort.Slice\<close> can produce when the indices are distinct.
\<close>

record v3tick =
  Index :: int
  LiquidityNet :: "int option"
  SqrtRatioX96 :: "int option"

record v3pool =
  v3SqrtPriceX96 :: "int option"
  v3Liquidity :: "int option"
  v3Tick :: int
  v3FeeBps :: nat
  v3TickSpacing :: int
  v3Ticks :: "v3tick list"

subsection \<open>\<^verbatim>\<open>PrepareTicks\<close> and the tick window\<close>

fun fillRatios :: "v3tick list \<Rightarrow> amm_error + v3tick list" where
  "fillRatios [] = Inr []"
| "fillRatios (t # ts) =
     (case SqrtRatioX96 t of
        Some _ \<Rightarrow> map_sum id ((#) t) (fillRatios ts)
      | None \<Rightarrow>
          (case GetSqrtRatioAtTick (Index t) of
             Inl e \<Rightarrow> Inl e
           | Inr ratio \<Rightarrow> map_sum id ((#) (t\<lparr>SqrtRatioX96 := Some ratio\<rparr>)) (fillRatios ts)))"

definition PrepareTicks :: "v3tick list \<Rightarrow> amm_error + v3tick list" where
  "PrepareTicks ticks = (if ticks = [] then Inr [] else fillRatios (sort_key Index ticks))"

fun isSorted :: "v3tick list \<Rightarrow> bool" where
  "isSorted [] = True"
| "isSorted [t] = True"
| "isSorted (s # t # ts) = (if Index t < Index s then False else isSorted (t # ts))"

definition sortedTicks :: "v3tick list \<Rightarrow> v3tick list" where
  "sortedTicks ticks = (if isSorted ticks then ticks else sort_key Index ticks)"

definition nextInitializedTick :: "v3tick list \<Rightarrow> int \<Rightarrow> bool \<Rightarrow> v3tick option" where
  "nextInitializedTick ticks current zeroForOne =
     (if zeroForOne then find (\<lambda>t. Index t \<le> current) (rev ticks)
      else find (\<lambda>t. Index t > current) ticks)"

definition feePips :: "v3pool \<Rightarrow> int" where
  "feePips p = int (v3FeeBps p) * 100"

definition pipDenominator :: int where "pipDenominator = 1000000"

subsection \<open>The swap step over the workspace\<close>

definition getAmount0DeltaInto :: "reg \<Rightarrow> bigref \<Rightarrow> bigref \<Rightarrow> bool \<Rightarrow> scratch \<Rightarrow> scratch" where
  "getAmount0DeltaInto dst sqrtA sqrtB roundUp sc =
     (let (sqrtA, sqrtB) = (if deref sc sqrtA > deref sc sqrtB then (sqrtB, sqrtA) else (sqrtA, sqrtB))
      in if deref sc sqrtA \<le> 0 then sc(dst := 0)
         else
           let sc = bLsh A0t0 (Reg Liquidity) 96 sc;
               sc = bSub A0t1 sqrtB sqrtA sc
           in if roundUp then
                let sc = mulDivRoundingUpInto dst (Reg A0t0) (Reg A0t1) sqrtB sc
                in divRoundingUpInto dst sqrtA sc
              else
                let sc = mulDivInto dst (Reg A0t0) (Reg A0t1) sqrtB sc
                in bDiv dst (Reg dst) sqrtA sc)"

definition getAmount1DeltaInto :: "reg \<Rightarrow> bigref \<Rightarrow> bigref \<Rightarrow> bool \<Rightarrow> scratch \<Rightarrow> scratch" where
  "getAmount1DeltaInto dst sqrtA sqrtB roundUp sc =
     (let (sqrtA, sqrtB) = (if deref sc sqrtA > deref sc sqrtB then (sqrtB, sqrtA) else (sqrtA, sqrtB));
          sc = bSub A1t0 sqrtB sqrtA sc
      in if roundUp then mulDivRoundingUpInto dst (Reg Liquidity) (Reg A1t0) (Ext q96) sc
         else mulDivInto dst (Reg Liquidity) (Reg A1t0) (Ext q96) sc)"

definition getNextSqrtPriceFromInputInto :: "reg \<Rightarrow> bigref \<Rightarrow> bool \<Rightarrow> scratch \<Rightarrow> scratch" where
  "getNextSqrtPriceFromInputInto dst amount zeroForOne sc =
     (if deref sc amount = 0 then bSet dst (Reg SqrtPrice) sc
      else if zeroForOne then
        let sc = bLsh Ns0 (Reg Liquidity) 96 sc;
            sc = bMul Ns1 amount (Reg SqrtPrice) sc;
            sc = bAdd Ns1 (Reg Ns0) (Reg Ns1) sc
        in mulDivRoundingUpInto dst (Reg Ns0) (Reg SqrtPrice) (Reg Ns1) sc
      else
        let sc = bLsh Ns0 amount 96 sc;
            sc = bDiv Ns0 (Reg Ns0) (Reg Liquidity) sc
        in bAdd dst (Reg SqrtPrice) (Reg Ns0) sc)"

definition computeSwapStep :: "bigref \<Rightarrow> int \<Rightarrow> bool \<Rightarrow> scratch \<Rightarrow> bool \<times> scratch" where
  "computeSwapStep sqrtTarget fee zeroForOne sc =
     (let sc = bMul LessFee (Reg Remaining) (Ext (pipDenominator - fee)) sc;
          sc = bDiv LessFee (Reg LessFee) (Ext pipDenominator) sc;
          sc = (if zeroForOne then getAmount0DeltaInto InToTarget sqrtTarget (Reg SqrtPrice) True sc
                else getAmount1DeltaInto InToTarget (Reg SqrtPrice) sqrtTarget True sc);
          reachedTarget = (sc LessFee \<ge> sc InToTarget);
          sc = (if reachedTarget then bSet StepNext sqrtTarget sc
                else getNextSqrtPriceFromInputInto StepNext (Reg LessFee) zeroForOne sc);
          sc = (if zeroForOne then
                  let sc = (if reachedTarget then bSet StepIn (Reg InToTarget) sc
                            else getAmount0DeltaInto StepIn (Reg StepNext) (Reg SqrtPrice) True sc)
                  in getAmount1DeltaInto StepOut (Reg StepNext) (Reg SqrtPrice) False sc
                else
                  let sc = (if reachedTarget then bSet StepIn (Reg InToTarget) sc
                            else getAmount1DeltaInto StepIn (Reg SqrtPrice) (Reg StepNext) True sc)
                  in getAmount0DeltaInto StepOut (Reg SqrtPrice) (Reg StepNext) False sc);
          sc = (if \<not> reachedTarget then
                  let sc = bSub FeeAmount (Reg Remaining) (Reg StepIn) sc
                  in if sc FeeAmount < 0 then sc(FeeAmount := 0) else sc
                else mulDivRoundingUpInto FeeAmount (Reg StepIn) (Ext fee)
                       (Ext (pipDenominator - fee)) sc);
          sc = bAdd StepIn (Reg StepIn) (Reg FeeAmount) sc
      in (reachedTarget, sc))"

subsection \<open>\<^verbatim>\<open>SwapV3Into\<close>\<close>

text \<open>The target price of a tick: the cached ratio, or the conversion when it was not prepared.\<close>

definition targetSqrt :: "v3tick \<Rightarrow> amm_error + int" where
  "targetSqrt next = (case SqrtRatioX96 next of Some r \<Rightarrow> Inr r | None \<Rightarrow> GetSqrtRatioAtTick (Index next))"

text \<open>The loop; its first argument counts the iterations that are left.\<close>

fun swapLoopInto :: "nat \<Rightarrow> v3tick list \<Rightarrow> int \<Rightarrow> bool \<Rightarrow> int \<Rightarrow> scratch
                       \<Rightarrow> scratch \<times> (amm_error, bigref) outcome" where
  "swapLoopInto 0 ticks fee zeroForOne currentTick sc =
     (if sc Remaining > 0 then (sc, Err ErrInsufficientLiquidity) else (sc, Ok (Reg Out)))"
| "swapLoopInto (Suc i) ticks fee zeroForOne currentTick sc =
     (if sc Remaining \<le> 0 then (sc, Ok (Reg Out))
      else if sc Liquidity \<le> 0 then (sc, Err ErrInsufficientLiquidity)
      else case nextInitializedTick ticks currentTick zeroForOne of
        None \<Rightarrow> (sc, Err ErrInsufficientLiquidity)
      | Some next \<Rightarrow>
        (case targetSqrt next of
           Inl e \<Rightarrow> (sc, Err e)
         | Inr target \<Rightarrow>
           let (reachedTarget, sc) = computeSwapStep (Ext target) fee zeroForOne sc;
               sc = bAdd Out (Reg Out) (Reg StepOut) sc;
               sc = bSub Remaining (Reg Remaining) (Reg StepIn) sc;
               sc = bSet SqrtPrice (Reg StepNext) sc
           in if sc Remaining \<le> 0 then (sc, Ok (Reg Out))
              else if \<not> reachedTarget then (sc, Err ErrInsufficientLiquidity)
              else case LiquidityNet next of
                None \<Rightarrow> (sc, Panic)
              | Some net \<Rightarrow>
                if zeroForOne
                then swapLoopInto i ticks fee zeroForOne (wrap32 (Index next - 1))
                       (bSub Liquidity (Reg Liquidity) (Ext net) sc)
                else swapLoopInto i ticks fee zeroForOne (Index next)
                       (bAdd Liquidity (Reg Liquidity) (Ext net) sc)))"

definition SwapV3Into :: "scratch \<Rightarrow> int option \<Rightarrow> v3pool \<Rightarrow> bool \<Rightarrow> scratch \<times> (amm_error, bigref) outcome" where
  "SwapV3Into sc amountIn p zeroForOne =
     (if \<not> isPositive amountIn then (sc, Err ErrZeroAmount)
      else if bpsDenominator \<le> int (v3FeeBps p) then (sc, Err ErrInvalidFee)
      else if \<not> isPositive (v3Liquidity p) \<or> \<not> isPositive (v3SqrtPriceX96 p)
        then (sc, Err ErrInsufficientLiquidity)
      else
        let ticks = sortedTicks (v3Ticks p);
            sc = bSet Remaining (Ext (the amountIn)) sc;
            sc = sc(Out := 0);
            sc = bSet SqrtPrice (Ext (the (v3SqrtPriceX96 p))) sc;
            sc = bSet Liquidity (Ext (the (v3Liquidity p))) sc
        in swapLoopInto (Suc (length ticks)) ticks (feePips p) zeroForOne (v3Tick p) sc)"

definition SwapV3 :: "int option \<Rightarrow> v3pool \<Rightarrow> bool \<Rightarrow> (amm_error, int) outcome" where
  "SwapV3 amountIn p zeroForOne =
     (case SwapV3Into NewScratch amountIn p zeroForOne of (sc, r) \<Rightarrow> map_outcome_ok (deref sc) r)"

subsection \<open>The walk over plain values\<close>

definition amount0Delta :: "int \<Rightarrow> int \<Rightarrow> int \<Rightarrow> bool \<Rightarrow> int" where
  "amount0Delta L sqrtA sqrtB roundUp =
     (let lo = min sqrtA sqrtB; hi = max sqrtA sqrtB
      in if lo \<le> 0 then 0
         else if roundUp then divRoundingUp (mulDivRoundingUp (push_bit 96 L) (hi - lo) hi) lo
         else go_div (mulDiv (push_bit 96 L) (hi - lo) hi) lo)"

definition amount1Delta :: "int \<Rightarrow> int \<Rightarrow> int \<Rightarrow> bool \<Rightarrow> int" where
  "amount1Delta L sqrtA sqrtB roundUp =
     (let lo = min sqrtA sqrtB; hi = max sqrtA sqrtB
      in if roundUp then mulDivRoundingUp L (hi - lo) q96 else mulDiv L (hi - lo) q96)"

definition nextSqrtPrice :: "int \<Rightarrow> int \<Rightarrow> int \<Rightarrow> bool \<Rightarrow> int" where
  "nextSqrtPrice L P amount zeroForOne =
     (if amount = 0 then P
      else if zeroForOne then mulDivRoundingUp (push_bit 96 L) P (push_bit 96 L + amount * P)
      else P + go_div (push_bit 96 amount) L)"

definition lessFee :: "int \<Rightarrow> int \<Rightarrow> int" where
  "lessFee remaining fee = go_div (remaining * (pipDenominator - fee)) pipDenominator"

definition inToTarget :: "int \<Rightarrow> int \<Rightarrow> int \<Rightarrow> bool \<Rightarrow> int" where
  "inToTarget L P target zeroForOne =
     (if zeroForOne then amount0Delta L target P True else amount1Delta L P target True)"

definition stepReached :: "int \<Rightarrow> int \<Rightarrow> int \<Rightarrow> int \<Rightarrow> int \<Rightarrow> bool \<Rightarrow> bool" where
  "stepReached remaining L P target fee zeroForOne \<longleftrightarrow>
     inToTarget L P target zeroForOne \<le> lessFee remaining fee"

definition stepNext :: "int \<Rightarrow> int \<Rightarrow> int \<Rightarrow> int \<Rightarrow> int \<Rightarrow> bool \<Rightarrow> int" where
  "stepNext remaining L P target fee zeroForOne =
     (if stepReached remaining L P target fee zeroForOne then target
      else nextSqrtPrice L P (lessFee remaining fee) zeroForOne)"

definition stepNet :: "int \<Rightarrow> int \<Rightarrow> int \<Rightarrow> int \<Rightarrow> int \<Rightarrow> bool \<Rightarrow> int" where
  "stepNet remaining L P target fee zeroForOne =
     inToTarget L P (stepNext remaining L P target fee zeroForOne) zeroForOne"

definition stepIn :: "int \<Rightarrow> int \<Rightarrow> int \<Rightarrow> int \<Rightarrow> int \<Rightarrow> bool \<Rightarrow> int" where
  "stepIn remaining L P target fee zeroForOne =
     (let net = stepNet remaining L P target fee zeroForOne
      in if stepReached remaining L P target fee zeroForOne
         then net + mulDivRoundingUp net fee (pipDenominator - fee)
         else net + max 0 (remaining - net))"

definition stepOut :: "int \<Rightarrow> int \<Rightarrow> int \<Rightarrow> int \<Rightarrow> int \<Rightarrow> bool \<Rightarrow> int" where
  "stepOut remaining L P target fee zeroForOne =
     (let next = stepNext remaining L P target fee zeroForOne
      in if zeroForOne then amount1Delta L next P False else amount0Delta L P next False)"

fun swapLoop :: "nat \<Rightarrow> v3tick list \<Rightarrow> int \<Rightarrow> bool \<Rightarrow> int \<Rightarrow> int \<Rightarrow> int \<Rightarrow> int \<Rightarrow> int
                   \<Rightarrow> (amm_error, int) outcome" where
  "swapLoop 0 ticks fee zeroForOne currentTick remaining out P L =
     (if remaining > 0 then Err ErrInsufficientLiquidity else Ok out)"
| "swapLoop (Suc i) ticks fee zeroForOne currentTick remaining out P L =
     (if remaining \<le> 0 then Ok out
      else if L \<le> 0 then Err ErrInsufficientLiquidity
      else case nextInitializedTick ticks currentTick zeroForOne of
        None \<Rightarrow> Err ErrInsufficientLiquidity
      | Some next \<Rightarrow>
        (case targetSqrt next of
           Inl e \<Rightarrow> Err e
         | Inr target \<Rightarrow>
           let out = out + stepOut remaining L P target fee zeroForOne;
               remaining' = remaining - stepIn remaining L P target fee zeroForOne
           in if remaining' \<le> 0 then Ok out
              else if \<not> stepReached remaining L P target fee zeroForOne then Err ErrInsufficientLiquidity
              else case LiquidityNet next of
                None \<Rightarrow> Panic
              | Some net \<Rightarrow>
                if zeroForOne
                then swapLoop i ticks fee zeroForOne (wrap32 (Index next - 1)) remaining' out target (L - net)
                else swapLoop i ticks fee zeroForOne (Index next) remaining' out target (L + net)))"

definition swapV3 :: "int option \<Rightarrow> v3pool \<Rightarrow> bool \<Rightarrow> (amm_error, int) outcome" where
  "swapV3 amountIn p zeroForOne =
     (if \<not> isPositive amountIn then Err ErrZeroAmount
      else if 10000 \<le> int (v3FeeBps p) then Err ErrInvalidFee
      else if \<not> isPositive (v3Liquidity p) \<or> \<not> isPositive (v3SqrtPriceX96 p)
        then Err ErrInsufficientLiquidity
      else
        let ticks = sortedTicks (v3Ticks p)
        in swapLoop (Suc (length ticks)) ticks (feePips p) zeroForOne (v3Tick p)
             (the amountIn) 0 (the (v3SqrtPriceX96 p)) (the (v3Liquidity p)))"

subsection \<open>The workspace routine computes the walk\<close>

definition same_off :: "reg set \<Rightarrow> scratch \<Rightarrow> scratch \<Rightarrow> bool" where
  "same_off W sc sc' \<longleftrightarrow> (\<forall>r. r \<notin> W \<longrightarrow> sc' r = sc r)"

lemma same_offD: "same_off W sc sc' \<Longrightarrow> r \<notin> W \<Longrightarrow> sc' r = sc r"
  by (simp add: same_off_def)

lemma getAmount0DeltaInto_spec:
  assumes "sc One = 1" "dst \<notin> {A0t0, A0t1, Rem, One, Liquidity}"
    and "a \<notin> Reg ` {dst, A0t0, A0t1, Rem}" "b \<notin> Reg ` {dst, A0t0, A0t1, Rem}"
  shows "getAmount0DeltaInto dst a b up sc dst = amount0Delta (sc Liquidity) (deref sc a) (deref sc b) up"
    and "same_off {dst, A0t0, A0t1, Rem} sc (getAmount0DeltaInto dst a b up sc)"
  using assms
  by (auto simp: getAmount0DeltaInto_def amount0Delta_def Let_def min_def max_def same_off_def
        into_eqs store_simps)

lemma getAmount1DeltaInto_spec:
  assumes "sc One = 1" "dst \<notin> {A1t0, Rem, One, Liquidity}"
    and "a \<notin> Reg ` {dst, A1t0, Rem}" "b \<notin> Reg ` {dst, A1t0, Rem}"
  shows "getAmount1DeltaInto dst a b up sc dst = amount1Delta (sc Liquidity) (deref sc a) (deref sc b) up"
    and "same_off {dst, A1t0, Rem} sc (getAmount1DeltaInto dst a b up sc)"
  using assms
  by (auto simp: getAmount1DeltaInto_def amount1Delta_def Let_def min_def max_def same_off_def
        into_eqs store_simps)

lemma getNextSqrtPriceFromInputInto_spec:
  assumes "sc One = 1" "dst \<notin> {Ns0, Ns1, Rem, One, Liquidity, SqrtPrice}"
    and "amt \<notin> Reg ` {dst, Ns0, Ns1, Rem}"
  shows "getNextSqrtPriceFromInputInto dst amt z sc dst
           = nextSqrtPrice (sc Liquidity) (sc SqrtPrice) (deref sc amt) z"
    and "same_off {dst, Ns0, Ns1, Rem} sc (getNextSqrtPriceFromInputInto dst amt z sc)"
  using assms
  by (auto simp: getNextSqrtPriceFromInputInto_def nextSqrtPrice_def Let_def same_off_def
        into_eqs store_simps)

text \<open>The five stages of a step, each with the fields it writes.\<close>

lemma stage_target:
  assumes "sc One = 1"
    and "sc' = (if z then getAmount0DeltaInto InToTarget (Ext target) (Reg SqrtPrice) True sc
                  else getAmount1DeltaInto InToTarget (Reg SqrtPrice) (Ext target) True sc)"
  shows "sc' InToTarget = inToTarget (sc Liquidity) (sc SqrtPrice) target z"
    and "same_off {InToTarget, A0t0, A0t1, A1t0, Rem} sc sc'"
  using getAmount0DeltaInto_spec[of sc InToTarget "Ext target" "Reg SqrtPrice" True]
    getAmount1DeltaInto_spec[of sc InToTarget "Reg SqrtPrice" "Ext target" True] assms
  by (auto simp: inToTarget_def same_off_def)

lemma stage_in:
  assumes "sc One = 1"
    and "sc' = (if z then getAmount0DeltaInto StepIn (Reg StepNext) (Reg SqrtPrice) True sc
                  else getAmount1DeltaInto StepIn (Reg SqrtPrice) (Reg StepNext) True sc)"
  shows "sc' StepIn = inToTarget (sc Liquidity) (sc SqrtPrice) (sc StepNext) z"
    and "same_off {StepIn, A0t0, A0t1, A1t0, Rem} sc sc'"
  using getAmount0DeltaInto_spec[of sc StepIn "Reg StepNext" "Reg SqrtPrice" True]
    getAmount1DeltaInto_spec[of sc StepIn "Reg SqrtPrice" "Reg StepNext" True] assms
  by (auto simp: inToTarget_def same_off_def)

lemma stage_out:
  assumes "sc One = 1"
    and "sc' = (if z then getAmount1DeltaInto StepOut (Reg StepNext) (Reg SqrtPrice) False sc
                  else getAmount0DeltaInto StepOut (Reg SqrtPrice) (Reg StepNext) False sc)"
  shows "sc' StepOut = (if z then amount1Delta (sc Liquidity) (sc StepNext) (sc SqrtPrice) False
                        else amount0Delta (sc Liquidity) (sc SqrtPrice) (sc StepNext) False)"
    and "same_off {StepOut, A0t0, A0t1, A1t0, Rem} sc sc'"
  using getAmount1DeltaInto_spec[of sc StepOut "Reg StepNext" "Reg SqrtPrice" False]
    getAmount0DeltaInto_spec[of sc StepOut "Reg SqrtPrice" "Reg StepNext" False] assms
  by (auto simp: same_off_def)

lemma stage_next:
  assumes "sc One = 1"
    and "sc' = (if reached then bSet StepNext (Ext target) sc
                  else getNextSqrtPriceFromInputInto StepNext (Reg LessFee) z sc)"
  shows "sc' StepNext = (if reached then target
                         else nextSqrtPrice (sc Liquidity) (sc SqrtPrice) (sc LessFee) z)"
    and "same_off {StepNext, Ns0, Ns1, Rem} sc sc'"
  using getNextSqrtPriceFromInputInto_spec[of sc StepNext "Reg LessFee" z] assms
  by (auto simp: same_off_def store_simps)

lemma stage_fee:
  assumes "sc One = 1"
    and "sc' = bAdd StepIn (Reg StepIn) (Reg FeeAmount)
     (if \<not> reached then
        let sc = bSub FeeAmount (Reg Remaining) (Reg StepIn) sc
        in if sc FeeAmount < 0 then sc(FeeAmount := 0) else sc
      else mulDivRoundingUpInto FeeAmount (Reg StepIn) (Ext fee) (Ext (pipDenominator - fee)) sc)"
  shows "sc' StepIn = (if reached then sc StepIn + mulDivRoundingUp (sc StepIn) fee (pipDenominator - fee)
                       else sc StepIn + max 0 (sc Remaining - sc StepIn))"
    and "same_off {StepIn, FeeAmount, Rem} sc sc'"
  using assms by (auto simp: same_off_def into_eqs store_simps Let_def)

text \<open>A step goes through the stages one after the other; each writes its own fields.\<close>

lemma computeSwapStep_stages:
  assumes "sc One = 1" and "computeSwapStep (Ext target) fee z sc = (reached, sc')"
  obtains s2 s3 s4 s5 where
    "s2 InToTarget = inToTarget (sc Liquidity) (sc SqrtPrice) target z" "s2 LessFee = lessFee (sc Remaining) fee"
    "same_off {LessFee, InToTarget, A0t0, A0t1, A1t0, Rem} sc s2"
    "reached \<longleftrightarrow> s2 InToTarget \<le> s2 LessFee"
    "s3 StepNext = (if reached then target else nextSqrtPrice (s2 Liquidity) (s2 SqrtPrice) (s2 LessFee) z)"
    "same_off {StepNext, Ns0, Ns1, Rem} s2 s3"
    "s4 StepIn = (if reached then s3 InToTarget else inToTarget (s3 Liquidity) (s3 SqrtPrice) (s3 StepNext) z)"
    "same_off {StepIn, A0t0, A0t1, A1t0, Rem} s3 s4"
    "s5 StepOut = (if z then amount1Delta (s4 Liquidity) (s4 StepNext) (s4 SqrtPrice) False
                   else amount0Delta (s4 Liquidity) (s4 SqrtPrice) (s4 StepNext) False)"
    "same_off {StepOut, A0t0, A0t1, A1t0, Rem} s4 s5"
    "sc' StepIn = (if reached then s5 StepIn + mulDivRoundingUp (s5 StepIn) fee (pipDenominator - fee)
                   else s5 StepIn + max 0 (s5 Remaining - s5 StepIn))"
    "same_off {StepIn, FeeAmount, Rem} s5 sc'"
proof -
  define s1 where "s1 = bDiv LessFee (Reg LessFee) (Ext pipDenominator)
                         (bMul LessFee (Reg Remaining) (Ext (pipDenominator - fee)) sc)"
  define s2 where "s2 = (if z then getAmount0DeltaInto InToTarget (Ext target) (Reg SqrtPrice) True s1
                         else getAmount1DeltaInto InToTarget (Reg SqrtPrice) (Ext target) True s1)"
  define reach where "reach \<longleftrightarrow> s2 InToTarget \<le> s2 LessFee"
  define s3 where "s3 = (if reach then bSet StepNext (Ext target) s2
                         else getNextSqrtPriceFromInputInto StepNext (Reg LessFee) z s2)"
  define s4 where "s4 = (if reach then bSet StepIn (Reg InToTarget) s3
                         else if z then getAmount0DeltaInto StepIn (Reg StepNext) (Reg SqrtPrice) True s3
                         else getAmount1DeltaInto StepIn (Reg SqrtPrice) (Reg StepNext) True s3)"
  define s5 where "s5 = (if z then getAmount1DeltaInto StepOut (Reg StepNext) (Reg SqrtPrice) False s4
                         else getAmount0DeltaInto StepOut (Reg SqrtPrice) (Reg StepNext) False s4)"
  define s6 where "s6 = bAdd StepIn (Reg StepIn) (Reg FeeAmount)
     (if \<not> reach then
        let sc = bSub FeeAmount (Reg Remaining) (Reg StepIn) s5
        in if sc FeeAmount < 0 then sc(FeeAmount := 0) else sc
      else mulDivRoundingUpInto FeeAmount (Reg StepIn) (Ext fee) (Ext (pipDenominator - fee)) s5)"
  have res: "reached = reach" "sc' = s6"
    using assms(2)
    by (auto simp: computeSwapStep_def Let_def s1_def s2_def reach_def s3_def s4_def s5_def s6_def
             split: if_splits)
  have e1: "s1 = sc(LessFee := lessFee (sc Remaining) fee)"
    by (simp add: s1_def lessFee_def store_simps)
  then have o1: "s1 One = 1" using assms(1) by simp
  note t2 = stage_target[OF o1 s2_def]
  have s2: "s2 InToTarget = inToTarget (sc Liquidity) (sc SqrtPrice) target z" "s2 LessFee = lessFee (sc Remaining) fee"
    "same_off {LessFee, InToTarget, A0t0, A0t1, A1t0, Rem} sc s2"
    using t2 by (auto simp: e1 same_off_def)
  have o2: "s2 One = 1" using same_offD[OF t2(2), of One] o1 by simp
  note t3 = stage_next[OF o2 s3_def]
  have o3: "s3 One = 1" using same_offD[OF t3(2), of One] o2 by simp
  have t4: "s4 StepIn = (if reach then s3 InToTarget
                         else inToTarget (s3 Liquidity) (s3 SqrtPrice) (s3 StepNext) z)"
    "same_off {StepIn, A0t0, A0t1, A1t0, Rem} s3 s4"
    using stage_in[of s3 _ z, OF o3 refl] by (auto simp: s4_def same_off_def store_simps)
  have o4: "s4 One = 1" using same_offD[OF t4(2), of One] o3 by simp
  note t5 = stage_out[OF o4 s5_def]
  have o5: "s5 One = 1" using same_offD[OF t5(2), of One] o4 by simp
  note t6 = stage_fee[OF o5 s6_def]
  show thesis
    by (rule that[of s2 s3 s4 s5]) (use s2 t3 t4 t5 t6 in \<open>simp_all add: res reach_def\<close>)
qed

lemma computeSwapStep_spec:
  assumes "sc One = 1" and "computeSwapStep (Ext target) fee z sc = (reached, sc')"
  shows "reached = stepReached (sc Remaining) (sc Liquidity) (sc SqrtPrice) target fee z"
    and "sc' StepNext = stepNext (sc Remaining) (sc Liquidity) (sc SqrtPrice) target fee z"
    and "sc' StepIn = stepIn (sc Remaining) (sc Liquidity) (sc SqrtPrice) target fee z"
    and "sc' StepOut = stepOut (sc Remaining) (sc Liquidity) (sc SqrtPrice) target fee z"
    and "r \<in> {Remaining, Out, SqrtPrice, Liquidity, One} \<Longrightarrow> sc' r = sc r"
proof -
  obtain s2 s3 s4 s5 where s2: "s2 InToTarget = inToTarget (sc Liquidity) (sc SqrtPrice) target z" "s2 LessFee = lessFee (sc Remaining) fee"
      "same_off {LessFee, InToTarget, A0t0, A0t1, A1t0, Rem} sc s2" and reached: "reached \<longleftrightarrow> s2 InToTarget \<le> s2 LessFee"
    and s3: "s3 StepNext = (if reached then target else nextSqrtPrice (s2 Liquidity) (s2 SqrtPrice) (s2 LessFee) z)"
      "same_off {StepNext, Ns0, Ns1, Rem} s2 s3"
    and s4: "s4 StepIn = (if reached then s3 InToTarget else inToTarget (s3 Liquidity) (s3 SqrtPrice) (s3 StepNext) z)"
      "same_off {StepIn, A0t0, A0t1, A1t0, Rem} s3 s4"
    and s5: "s5 StepOut = (if z then amount1Delta (s4 Liquidity) (s4 StepNext) (s4 SqrtPrice) False
               else amount0Delta (s4 Liquidity) (s4 SqrtPrice) (s4 StepNext) False)" "same_off {StepOut, A0t0, A0t1, A1t0, Rem} s4 s5"
    and out: "sc' StepIn = (if reached then s5 StepIn + mulDivRoundingUp (s5 StepIn) fee (pipDenominator - fee)
               else s5 StepIn + max 0 (s5 Remaining - s5 StepIn))" "same_off {StepIn, FeeAmount, Rem} s5 sc'"
    by (rule computeSwapStep_stages[OF assms])
  note frame = same_offD[OF s2(3)] same_offD[OF s3(2)] same_offD[OF s4(2)] same_offD[OF s5(2)] same_offD[OF out(2)]
  show reach: "reached = stepReached (sc Remaining) (sc Liquidity) (sc SqrtPrice) target fee z"
    by (simp add: reached stepReached_def s2)
  have nxt: "s3 StepNext = stepNext (sc Remaining) (sc Liquidity) (sc SqrtPrice) target fee z"
    by (simp add: s3(1) stepNext_def reach[symmetric] s2 frame)
  then show "sc' StepNext = stepNext (sc Remaining) (sc Liquidity) (sc SqrtPrice) target fee z" by (simp add: frame)
  show "sc' StepOut = stepOut (sc Remaining) (sc Liquidity) (sc SqrtPrice) target fee z"
    by (simp add: frame s5(1) stepOut_def nxt Let_def)
  have "s4 StepIn = stepNet (sc Remaining) (sc Liquidity) (sc SqrtPrice) target fee z"
    by (simp add: s4(1) stepNet_def nxt[symmetric] frame s2 s3(1))
  then show "sc' StepIn = stepIn (sc Remaining) (sc Liquidity) (sc SqrtPrice) target fee z"
    by (simp add: out(1) stepIn_def reach[symmetric] frame Let_def)
  show "r \<in> {Remaining, Out, SqrtPrice, Liquidity, One} \<Longrightarrow> sc' r = sc r" by (auto simp: frame)
qed

text \<open>One iteration of the loop, as the state it leaves in the workspace, and what the loop does from there.\<close>

definition stepped :: "int \<Rightarrow> int \<Rightarrow> bool \<Rightarrow> scratch \<Rightarrow> scratch \<Rightarrow> bool" where
  "stepped target fee z sc s \<longleftrightarrow> s One = 1 \<and> s Liquidity = sc Liquidity
     \<and> s Out = sc Out + stepOut (sc Remaining) (sc Liquidity) (sc SqrtPrice) target fee z
     \<and> s Remaining = sc Remaining - stepIn (sc Remaining) (sc Liquidity) (sc SqrtPrice) target fee z
     \<and> s SqrtPrice = stepNext (sc Remaining) (sc Liquidity) (sc SqrtPrice) target fee z"

abbreviation crossed :: "bool \<Rightarrow> v3tick \<Rightarrow> int" where
  "crossed z t \<equiv> (if z then wrap32 (Index t - 1) else Index t)"

definition crossInto :: "nat \<Rightarrow> v3tick list \<Rightarrow> int \<Rightarrow> bool \<Rightarrow> v3tick \<Rightarrow> bool \<Rightarrow> scratch \<Rightarrow> scratch \<times> (amm_error, bigref) outcome" where
  "crossInto i ticks fee z nxt reached s =
     (if s Remaining \<le> 0 then (s, Ok (Reg Out))
      else if \<not> reached then (s, Err ErrInsufficientLiquidity)
      else case LiquidityNet nxt of None \<Rightarrow> (s, Panic)
        | Some net \<Rightarrow> swapLoopInto i ticks fee z (crossed z nxt) (s(Liquidity := if z then s Liquidity - net else s Liquidity + net)))"

lemma swapLoopInto_iteration:
  assumes One: "sc One = 1" and pos: "0 < sc Remaining" "0 < sc Liquidity"
    and nxt: "nextInitializedTick ticks cur z = Some nxt" and target: "targetSqrt nxt = Inr target"
  obtains s where "stepped target fee z sc s"
    "swapLoopInto (Suc i) ticks fee z cur sc
       = crossInto i ticks fee z nxt (stepReached (sc Remaining) (sc Liquidity) (sc SqrtPrice) target fee z) s"
proof -
  obtain reached s' where step: "computeSwapStep (Ext target) fee z sc = (reached, s')"
    by (cases "computeSwapStep (Ext target) fee z sc")
  note spec = computeSwapStep_spec[OF One step]
  define s where "s = bSet SqrtPrice (Reg StepNext) (bSub Remaining (Reg Remaining) (Reg StepIn)
                        (bAdd Out (Reg Out) (Reg StepOut) s'))"
  have "swapLoopInto (Suc i) ticks fee z cur sc
       = crossInto i ticks fee z nxt (stepReached (sc Remaining) (sc Liquidity) (sc SqrtPrice) target fee z) s"
    using pos by (simp add: crossInto_def nxt target step Let_def s_def[symmetric] spec(1)[symmetric]
        bSub_def[of Liquidity] bAdd_def[of Liquidity] split: option.split)
  moreover have "stepped target fee z sc s" using spec One by (simp add: stepped_def s_def store_simps)
  ultimately show thesis by (rule that[rotated])
qed

lemma no_step:
  assumes "\<not> (0 < sc Remaining \<and> 0 < sc Liquidity
      \<and> (\<exists>nxt target. nextInitializedTick ticks cur z = Some nxt \<and> targetSqrt nxt = Inr target))"
  shows "\<not> 0 < sc Remaining \<or> \<not> 0 < sc Liquidity \<or> nextInitializedTick ticks cur z = None
    \<or> (\<exists>nxt e. nextInitializedTick ticks cur z = Some nxt \<and> targetSqrt nxt = Inl e)"
proof (cases "nextInitializedTick ticks cur z")
  case (Some nxt)
  then show ?thesis using assms by (cases "targetSqrt nxt") auto
qed simp

lemma swapLoopInto_stop:
  assumes "\<not> 0 < sc Remaining \<or> \<not> 0 < sc Liquidity \<or> nextInitializedTick ticks cur z = None
    \<or> (\<exists>nxt e. nextInitializedTick ticks cur z = Some nxt \<and> targetSqrt nxt = Inl e)"
  shows "fst (swapLoopInto (Suc i) ticks fee z cur sc) = sc"
    and "map_outcome_ok (deref sc) (snd (swapLoopInto (Suc i) ticks fee z cur sc))
           = swapLoop (Suc i) ticks fee z cur (sc Remaining) (sc Out) (sc SqrtPrice) (sc Liquidity)"
    and "snd (swapLoopInto (Suc i) ticks fee z cur sc) = Ok r \<Longrightarrow> sc Remaining \<le> 0 \<and> r = Reg Out"
  using assms by (auto split: if_splits)

lemma swapLoopInto_spec:
  assumes "sc One = 1"
  shows "map_outcome_ok (deref (fst (swapLoopInto i ticks fee z cur sc))) (snd (swapLoopInto i ticks fee z cur sc))
           = swapLoop i ticks fee z cur (sc Remaining) (sc Out) (sc SqrtPrice) (sc Liquidity)
         \<and> fst (swapLoopInto i ticks fee z cur sc) One = 1"
  using assms
proof (induction i arbitrary: cur sc)
  case 0
  then show ?case by simp
next
  case (Suc i)
  show ?case
  proof (cases "0 < sc Remaining \<and> 0 < sc Liquidity
      \<and> (\<exists>nxt target. nextInitializedTick ticks cur z = Some nxt \<and> targetSqrt nxt = Inr target)")
    case False
    then have stop: "\<not> 0 < sc Remaining \<or> \<not> 0 < sc Liquidity \<or> nextInitializedTick ticks cur z = None
        \<or> (\<exists>nxt e. nextInitializedTick ticks cur z = Some nxt \<and> targetSqrt nxt = Inl e)"
      by (rule no_step)
    show ?thesis using swapLoopInto_stop(1,2)[OF stop, where fee = fee and i = i] Suc.prems
      by (simp del: swapLoop.simps swapLoopInto.simps)
  next
    case True
    then obtain nxt target where pos: "0 < sc Remaining" "0 < sc Liquidity"
      and nt: "nextInitializedTick ticks cur z = Some nxt" "targetSqrt nxt = Inr target" by blast
    obtain s where s: "stepped target fee z sc s" and into: "swapLoopInto (Suc i) ticks fee z cur sc
        = crossInto i ticks fee z nxt (stepReached (sc Remaining) (sc Liquidity) (sc SqrtPrice) target fee z) s"
      by (rule swapLoopInto_iteration[of sc ticks cur z nxt target fee i, OF Suc.prems pos nt])
    have plain: "swapLoop (Suc i) ticks fee z cur (sc Remaining) (sc Out) (sc SqrtPrice) (sc Liquidity) =
      (if s Remaining \<le> 0 then Ok (s Out)
       else if \<not> stepReached (sc Remaining) (sc Liquidity) (sc SqrtPrice) target fee z
         then Err ErrInsufficientLiquidity
       else case LiquidityNet nxt of None \<Rightarrow> Panic
         | Some net \<Rightarrow> swapLoop i ticks fee z (crossed z nxt) (s Remaining) (s Out) (s SqrtPrice)
             (if z then s Liquidity - net else s Liquidity + net))"
      using pos s by (simp add: nt Let_def stepped_def stepNext_def split: option.split)
    note IH = Suc.IH[of "s(Liquidity := v)" c for v c]
    show ?thesis
      unfolding into plain crossInto_def using IH s
      by (auto split: option.split simp del: fun_upd_apply swapLoop.simps swapLoopInto.simps
          simp: fun_upd_same fun_upd_other stepped_def)
  qed
qed

interpretation v3: workspace_routine "\<lambda>sc. SwapV3Into sc amountIn p zeroForOne" "swapV3 amountIn p zeroForOne"
  for amountIn p zeroForOne
proof unfold_locales
  fix sc :: scratch
  assume One: "sc One = 1"
  define sc0 where "sc0 = sc(Remaining := the amountIn, Out := 0, SqrtPrice := the (v3SqrtPriceX96 p),
                             Liquidity := the (v3Liquidity p))"
  have "sc0 One = 1" using One by (simp add: sc0_def)
  note loop = swapLoopInto_spec[of sc0 "Suc (length (sortedTicks (v3Ticks p)))" "sortedTicks (v3Ticks p)"
      "feePips p" zeroForOne "v3Tick p", OF this]
  show "map_outcome_ok (deref (fst (SwapV3Into sc amountIn p zeroForOne)))
          (snd (SwapV3Into sc amountIn p zeroForOne)) = swapV3 amountIn p zeroForOne"
    using loop by (auto simp: SwapV3Into_def swapV3_def bpsDenominator_def Let_def store_simps sc0_def
                        simp del: swapLoop.simps swapLoopInto.simps)
  show "fst (SwapV3Into sc amountIn p zeroForOne) One = 1"
    using loop One by (auto simp: SwapV3Into_def bpsDenominator_def Let_def store_simps sc0_def
                            simp del: swapLoop.simps swapLoopInto.simps)
qed

lemma SwapV3_eq: "SwapV3 amountIn p zeroForOne = swapV3 amountIn p zeroForOne"
  unfolding SwapV3_def by (rule v3.fresh_value)

subsection \<open>Closed forms of the amounts\<close>

lemma q96_eq: "q96 = 2 ^ 96"
  by (simp add: q96_def)

lemma amount0Delta_up:
  assumes "0 < L" "0 < a" "a \<le> b"
  shows "amount0Delta L a b True = ceil_div (L * 2 ^ 96 * (b - a)) (b * a)"
    and "amount0Delta L b a True = ceil_div (L * 2 ^ 96 * (b - a)) (b * a)"
  using assms ceil_div_nonneg[of b "push_bit 96 L * (b - a)"]
  by (auto simp: amount0Delta_def mulDivRoundingUp_eq divRoundingUp_eq ceil_div_ceil_div
      push_bit_eq_mult Let_def min_def max_def)

lemma amount0Delta_down:
  assumes "0 < L" "0 < a" "a \<le> b"
  shows "amount0Delta L a b False = (L * 2 ^ 96 * (b - a)) div (b * a)"
    and "amount0Delta L b a False = (L * 2 ^ 96 * (b - a)) div (b * a)"
  using assms
  by (simp_all add: amount0Delta_def mulDiv_eq go_arith push_bit_eq_mult zdiv_zmult2_eq
      Let_def min_def max_def)

lemma amount1Delta_up:
  assumes "0 < L" "a \<le> b"
  shows "amount1Delta L a b True = ceil_div (L * (b - a)) (2 ^ 96)"
    and "amount1Delta L b a True = ceil_div (L * (b - a)) (2 ^ 96)"
  using assms by (simp_all add: amount1Delta_def mulDivRoundingUp_eq q96_eq Let_def min_def max_def)

lemma amount1Delta_down:
  assumes "a \<le> b"
  shows "amount1Delta L a b False = (L * (b - a)) div (2 ^ 96)"
    and "amount1Delta L b a False = (L * (b - a)) div (2 ^ 96)"
  using assms by (simp_all add: amount1Delta_def mulDiv_eq q96_eq Let_def min_def max_def)

lemma nextSqrtPrice_down:
  assumes "0 < L" "0 < P" "0 \<le> amt"
  shows "nextSqrtPrice L P amt True = ceil_div (L * 2 ^ 96 * P) (L * 2 ^ 96 + amt * P)"
proof (cases "amt = 0")
  case True
  then show ?thesis using assms by (simp add: nextSqrtPrice_def ceil_div_def)
next
  case False
  have "0 < L * 2 ^ 96 + amt * P" using assms by (simp add: add_pos_nonneg)
  then show ?thesis using assms False by (simp add: nextSqrtPrice_def mulDivRoundingUp_eq push_bit_eq_mult)
qed

lemma nextSqrtPrice_up:
  assumes "0 < L"
  shows "nextSqrtPrice L P amt False = P + (amt * 2 ^ 96) div L"
  using assms by (simp add: nextSqrtPrice_def go_arith push_bit_eq_mult)

lemma lessFee_eq: "lessFee r fee = (r * (1000000 - fee)) div 1000000"
  by (simp add: lessFee_def pipDenominator_def go_arith)

lemma lessFee_range:
  assumes "0 \<le> r" "0 \<le> fee" "fee < 1000000"
  shows "0 \<le> lessFee r fee \<and> lessFee r fee \<le> r"
proof -
  have "r * (1000000 - fee) \<le> r * 1000000" using assms by (intro mult_left_mono) auto
  then have "lessFee r fee < r + 1" unfolding lessFee_eq using div_less_iff[of 1000000 "r * (1000000 - fee)" "r + 1"] by simp
  then show ?thesis using assms by (simp add: lessFee_eq pos_imp_zdiv_nonneg_iff)
qed

lemma lessFee_mono: "r \<le> s \<Longrightarrow> fee < 1000000 \<Longrightarrow> lessFee r fee \<le> lessFee s fee"
  unfolding lessFee_eq by (intro zdiv_mono1 mult_right_mono) auto

subsection \<open>One step\<close>

text \<open>The prices and liquidity at which the walk takes a step towards a tick: the target lies on the
  side of the current price the swap moves to.\<close>

definition step_ok :: "int \<Rightarrow> int \<Rightarrow> int \<Rightarrow> int \<Rightarrow> bool \<Rightarrow> bool" where
  "step_ok L P target fee zeroForOne \<longleftrightarrow>
     0 < L \<and> 0 < P \<and> 0 < target \<and> 0 \<le> fee \<and> fee < 1000000
     \<and> (if zeroForOne then target \<le> P else P \<le> target)"

text \<open>An amount too small for the target moves the price towards it, not past it, and the amount the
  new price accounts for is at most the amount paid.\<close>

lemma nextSqrtPrice_between_down:
  assumes "step_ok L P target fee True" "0 \<le> amt" "amt < inToTarget L P target True"
  shows "target \<le> nextSqrtPrice L P amt True \<and> nextSqrtPrice L P amt True \<le> P"
proof -
  let ?q = "L * 2 ^ 96"
  have s: "0 < L" "0 < P" "0 < target" "target \<le> P" using assms by (auto simp: step_ok_def)
  have d: "0 < ?q + amt * P" using s assms(2) by (simp add: add_pos_nonneg)
  have "amt < ceil_div (?q * (P - target)) (P * target)"
    using assms s by (simp add: inToTarget_def amount0Delta_up)
  then have "amt * (P * target) < ?q * (P - target)" using s by (subst (asm) less_ceil_div_iff) auto
  then have "target * (?q + amt * P) < ?q * P" by (simp add: algebra_simps)
  then have "target < ceil_div (?q * P) (?q + amt * P)" using less_ceil_div_iff[OF d] by simp
  moreover have "?q * P \<le> P * (?q + amt * P)" using s assms(2) by (simp add: algebra_simps)
  then have "ceil_div (?q * P) (?q + amt * P) \<le> P" using ceil_div_le_iff[OF d] by simp
  ultimately show ?thesis using nextSqrtPrice_down[of L P amt] s assms(2) by simp
qed

lemma nextSqrtPrice_between_up:
  assumes "step_ok L P target fee False" "0 \<le> amt" "amt < inToTarget L P target False"
  shows "P \<le> nextSqrtPrice L P amt False \<and> nextSqrtPrice L P amt False \<le> target"
proof -
  have s: "0 < L" "P \<le> target" using assms by (auto simp: step_ok_def)
  have "amt < ceil_div (L * (target - P)) (2 ^ 96)" using assms s by (simp add: inToTarget_def amount1Delta_up)
  then have "amt * 2 ^ 96 < (target - P) * L" by (subst (asm) less_ceil_div_iff) (auto simp: mult.commute)
  then have "(amt * 2 ^ 96) div L < target - P" using div_less_iff[OF s(1)] by simp
  moreover have "0 \<le> (amt * 2 ^ 96) div L" using s assms(2) by (simp add: pos_imp_zdiv_nonneg_iff)
  ultimately show ?thesis using nextSqrtPrice_up[OF s(1)] by simp
qed

lemma inToTarget_next_le:
  assumes "0 < L" "0 < P" "0 \<le> amt"
  shows "inToTarget L P (nextSqrtPrice L P amt z) z \<le> amt"
proof (cases z)
  case True
  let ?q = "L * 2 ^ 96"
  define n where "n = nextSqrtPrice L P amt True"
  have d: "0 < ?q + amt * P" using assms by (simp add: add_pos_nonneg)
  have n: "n = ceil_div (?q * P) (?q + amt * P)" using nextSqrtPrice_down assms by (simp add: n_def)
  have "0 < n" unfolding n using d assms by (intro ceil_div_pos) auto
  have "?q * P \<le> P * (?q + amt * P)" using assms by (simp add: algebra_simps)
  then have "n \<le> P" unfolding n using ceil_div_le_iff[OF d] by simp
  have "?q * P \<le> n * (?q + amt * P)" unfolding n by (rule ceil_div_upper[OF d])
  then have "?q * (P - n) \<le> amt * (P * n)" by (simp add: algebra_simps)
  then have "ceil_div (?q * (P - n)) (P * n) \<le> amt" using \<open>0 < n\<close> assms by (subst ceil_div_le_iff) auto
  then show ?thesis
    using amount0Delta_up(1)[OF assms(1) \<open>0 < n\<close> \<open>n \<le> P\<close>] True by (simp add: inToTarget_def n_def[symmetric])
next
  case False
  define d where "d = (amt * 2 ^ 96) div L"
  have "0 \<le> d" using assms by (simp add: d_def pos_imp_zdiv_nonneg_iff)
  have "d * L \<le> amt * 2 ^ 96" using le_div_iff[OF assms(1), of d "amt * 2 ^ 96"] by (simp add: d_def)
  then have "ceil_div (L * d) (2 ^ 96) \<le> amt" by (subst ceil_div_le_iff) (auto simp: mult.commute)
  then show ?thesis
    using False \<open>0 \<le> d\<close> assms(1) nextSqrtPrice_up[OF assms(1), of P amt]
    by (simp add: inToTarget_def amount1Delta_up d_def)
qed

lemma inToTarget_nonneg: "step_ok L P target fee z \<Longrightarrow> 0 \<le> inToTarget L P target z"
  by (cases z) (auto simp: step_ok_def inToTarget_def amount0Delta_up amount1Delta_up intro!: ceil_div_nonneg)

text \<open>A step never charges more than what remains; a step that stops short charges all of it.\<close>

lemma stepIn_not_reached:
  assumes "step_ok L P target fee z" "0 \<le> r" "\<not> stepReached r L P target fee z"
  shows "stepIn r L P target fee z = r"
proof -
  have s: "0 < L" "0 < P" "0 \<le> fee" "fee < 1000000" using assms(1) by (auto simp: step_ok_def)
  have lf: "0 \<le> lessFee r fee" "lessFee r fee \<le> r" using lessFee_range[OF assms(2) s(3,4)] by auto
  have "stepNet r L P target fee z \<le> lessFee r fee"
    unfolding stepNet_def stepNext_def using assms(3) inToTarget_next_le[OF s(1,2) lf(1)] by simp
  then show ?thesis using lf assms(3) by (simp add: stepIn_def Let_def)
qed

lemma fee_on_top_le:
  assumes "0 \<le> net" "net \<le> lessFee r fee" "0 \<le> fee" "fee < 1000000"
  shows "net + mulDivRoundingUp net fee (pipDenominator - fee) \<le> r"
proof -
  have "net * 1000000 \<le> r * (1000000 - fee)"
    using assms(2) le_div_iff[of 1000000 net "r * (1000000 - fee)"] by (simp add: lessFee_eq)
  then have "net * fee \<le> (r - net) * (1000000 - fee)" by (simp add: algebra_simps)
  then have "ceil_div (net * fee) (1000000 - fee) \<le> r - net" using assms(4) by (subst ceil_div_le_iff) auto
  then show ?thesis using assms by (simp add: mulDivRoundingUp_eq pipDenominator_def)
qed

lemma stepIn_le:
  assumes "step_ok L P target fee z" "0 \<le> r"
  shows "stepIn r L P target fee z \<le> r"
proof (cases "stepReached r L P target fee z")
  case True
  have "0 \<le> fee" "fee < 1000000" using assms(1) by (auto simp: step_ok_def)
  moreover have "stepNet r L P target fee z = inToTarget L P target z"
    using True by (simp add: stepNet_def stepNext_def)
  ultimately show ?thesis
    using True fee_on_top_le[of "inToTarget L P target z" r fee] inToTarget_nonneg[OF assms(1)]
    by (simp add: stepIn_def Let_def stepReached_def)
next
  case False
  then show ?thesis using stepIn_not_reached assms by simp
qed

lemma stepNext_between:
  assumes "step_ok L P target fee z" "0 \<le> r"
  shows "if z then target \<le> stepNext r L P target fee z \<and> stepNext r L P target fee z \<le> P
         else P \<le> stepNext r L P target fee z \<and> stepNext r L P target fee z \<le> target"
proof -
  have "0 \<le> lessFee r fee" using lessFee_range[OF assms(2)] assms(1) by (simp add: step_ok_def)
  then show ?thesis
    using assms nextSqrtPrice_between_down[of L P target fee "lessFee r fee"]
      nextSqrtPrice_between_up[of L P target fee "lessFee r fee"]
    by (cases z) (auto simp: stepNext_def stepReached_def step_ok_def)
qed

lemma amount0_down_mono:
  fixes L P n m :: int
  assumes "0 < L" "0 < P" "P \<le> n" "n \<le> m"
  shows "(L * 2 ^ 96 * (n - P)) div (n * P) \<le> (L * 2 ^ 96 * (m - P)) div (m * P)"
proof -
  let ?q = "L * 2 ^ 96"
  define x where "x = (?q * (n - P)) div (n * P)"
  have "0 < n" "0 < m" using assms by linarith+
  then have pos: "0 < n * P" "0 < m * P" using assms(2) by simp_all
  have "x * (n * P) \<le> ?q * (n - P)" using le_div_iff[OF pos(1), of x "?q * (n - P)"] by (simp add: x_def)
  then have n: "?q * P \<le> n * (?q - x * P)" by (simp add: algebra_simps)
  have "0 < ?q * P" using assms by simp
  then have "0 < n * (?q - x * P)" using n by linarith
  then have "0 \<le> ?q - x * P" using assms by (simp add: zero_less_mult_iff)
  then have "n * (?q - x * P) \<le> m * (?q - x * P)" using assms by (intro mult_right_mono) auto
  then have "x * (m * P) \<le> ?q * (m - P)" using n by (simp add: algebra_simps)
  then show ?thesis using le_div_iff[OF pos(2), of x "?q * (m - P)"] by (simp add: x_def)
qed

text \<open>Output as a function of how far the price moved.\<close>

lemma stepOut_closed:
  assumes "step_ok L P target fee z" "0 \<le> r"
  shows "stepOut r L P target fee z =
           (let n = stepNext r L P target fee z
            in if z then (L * (P - n)) div 2 ^ 96 else (L * 2 ^ 96 * (n - P)) div (n * P))"
  using stepNext_between[OF assms] assms(1)
  by (cases z) (auto simp: stepOut_def Let_def amount1Delta_down amount0Delta_down step_ok_def)

lemma stepOut_nonneg:
  assumes "step_ok L P target fee z" "0 \<le> r"
  shows "0 \<le> stepOut r L P target fee z"
proof (cases z)
  case True
  then show ?thesis using stepOut_closed[OF assms] stepNext_between[OF assms] assms(1)
    by (simp add: Let_def step_ok_def pos_imp_zdiv_nonneg_iff)
next
  case False
  then have "0 < stepNext r L P target fee z * P"
    using stepNext_between[OF assms] assms(1) by (simp add: step_ok_def)
  then show ?thesis using False stepOut_closed[OF assms] stepNext_between[OF assms] assms(1)
    by (simp add: Let_def step_ok_def pos_imp_zdiv_nonneg_iff)
qed

lemma nextSqrtPrice_mono:
  assumes "0 < L" "0 < P" "0 \<le> a" "a \<le> b"
  shows "if z then nextSqrtPrice L P b z \<le> nextSqrtPrice L P a z
         else nextSqrtPrice L P a z \<le> nextSqrtPrice L P b z"
proof (cases z)
  case True
  let ?q = "L * 2 ^ 96"
  define n where "n = ceil_div (?q * P) (?q + a * P)"
  have d: "0 < ?q + a * P" "0 < ?q + b * P" using assms by (simp_all add: add_pos_nonneg)
  have "0 \<le> n" unfolding n_def using assms d by (intro ceil_div_nonneg) auto
  have "?q * P \<le> n * (?q + a * P)" unfolding n_def by (rule ceil_div_upper[OF d(1)])
  also have "\<dots> \<le> n * (?q + b * P)" using assms \<open>0 \<le> n\<close> by (intro mult_left_mono add_left_mono mult_right_mono) auto
  finally have "ceil_div (?q * P) (?q + b * P) \<le> n" using ceil_div_le_iff[OF d(2)] by simp
  then show ?thesis using True assms nextSqrtPrice_down by (simp add: n_def)
next
  case False
  then show ?thesis using assms nextSqrtPrice_up by (simp add: zdiv_mono1 mult_right_mono)
qed

lemma stepReached_mono:
  assumes "step_ok L P target fee z" "r \<le> s" "stepReached r L P target fee z"
  shows "stepReached s L P target fee z"
  using assms lessFee_mono[of r s fee] by (auto simp: stepReached_def step_ok_def)

lemma stepNext_mono:
  assumes "step_ok L P target fee z" "0 \<le> r" "r \<le> s"
  shows "if z then stepNext s L P target fee z \<le> stepNext r L P target fee z
         else stepNext r L P target fee z \<le> stepNext s L P target fee z"
proof (cases "stepReached s L P target fee z")
  case True
  then have "stepNext s L P target fee z = target" by (simp add: stepNext_def)
  then show ?thesis using stepNext_between[OF assms(1,2)] by auto
next
  case False
  then have "\<not> stepReached r L P target fee z" using stepReached_mono[OF assms(1,3)] by blast
  then have eq: "stepNext r L P target fee z = nextSqrtPrice L P (lessFee r fee) z"
    "stepNext s L P target fee z = nextSqrtPrice L P (lessFee s fee) z"
    using False by (simp_all add: stepNext_def)
  show ?thesis unfolding eq
    using nextSqrtPrice_mono lessFee_mono[OF assms(3)] lessFee_range[OF assms(2)] assms(1)
    by (auto simp: step_ok_def)
qed

lemma stepOut_mono:
  assumes "step_ok L P target fee z" "0 \<le> r" "r \<le> s"
  shows "stepOut r L P target fee z \<le> stepOut s L P target fee z"
proof -
  have s: "0 \<le> s" using assms by simp
  have L: "0 < L" "0 < P" using assms(1) by (auto simp: step_ok_def)
  show ?thesis
  proof (cases z)
    case True
    then show ?thesis
      using stepOut_closed[OF assms(1,2)] stepOut_closed[OF assms(1) s] stepNext_mono[OF assms] L
      by (simp add: Let_def zdiv_mono1 mult_left_mono)
  next
    case False
    then show ?thesis
      using stepOut_closed[OF assms(1,2)] stepOut_closed[OF assms(1) s] stepNext_mono[OF assms] L
        stepNext_between[OF assms(1,2)]
        amount0_down_mono[OF L, of "stepNext r L P target fee z" "stepNext s L P target fee z"]
      by (simp add: Let_def)
  qed
qed

lemma stepIn_reached_eq:
  assumes "stepReached r L P target fee z" "stepReached s L P target fee z"
  shows "stepIn r L P target fee z = stepIn s L P target fee z"
    and "stepOut r L P target fee z = stepOut s L P target fee z"
  using assms by (simp_all add: stepIn_def stepOut_def stepNet_def stepNext_def Let_def)

subsection \<open>Pools the walk is correct for\<close>

text \<open>A tick is well formed when it lies in the protocol's range and its cached ratio, if any, is the
  ratio of its index. A pool is well formed when its ticks are and its price lies between the prices
  of its current tick and of the next one: the state a V3 contract is always in.\<close>

definition tick_ok :: "v3tick \<Rightarrow> bool" where
  "tick_ok t = (case GetSqrtRatioAtTick (Index t) of
                  Inl _ \<Rightarrow> False
                | Inr r \<Rightarrow> SqrtRatioX96 t = None \<or> SqrtRatioX96 t = Some r)"

definition price_at_tick :: "int \<Rightarrow> int \<Rightarrow> bool" where
  "price_at_tick P tick =
     ((case GetSqrtRatioAtTick tick of Inl _ \<Rightarrow> False | Inr r \<Rightarrow> r \<le> P)
      \<and> (case GetSqrtRatioAtTick (tick + 1) of Inl _ \<Rightarrow> True | Inr r \<Rightarrow> P < r))"

definition v3_wf :: "v3pool \<Rightarrow> bool" where
  "v3_wf p = (list_all tick_ok (v3Ticks p)
              \<and> (case v3SqrtPriceX96 p of None \<Rightarrow> False | Some P \<Rightarrow> price_at_tick P (v3Tick p)))"

lemma tick_ok_target:
  assumes "tick_ok t"
  obtains r where "targetSqrt t = Inr r" "GetSqrtRatioAtTick (Index t) = Inr r" "0 < r"
    "MinTick \<le> Index t" "Index t \<le> MaxTick"
proof -
  obtain r where r: "GetSqrtRatioAtTick (Index t) = Inr r" "SqrtRatioX96 t = None \<or> SqrtRatioX96 t = Some r"
    using assms by (auto simp: tick_ok_def split: sum.splits)
  then have "targetSqrt t = Inr r" by (auto simp: targetSqrt_def)
  then show thesis using that r(1) GetSqrtRatioAtTick_pos GetSqrtRatioAtTick_Inr_range by blast
qed

lemma tick_ok_ratio: "tick_ok t \<Longrightarrow> targetSqrt t = Inr r \<Longrightarrow> GetSqrtRatioAtTick (Index t) = Inr r"
  by (auto simp: tick_ok_def targetSqrt_def split: sum.splits option.splits)

text \<open>Every tick the walk may still reach has its price on the side the swap moves to.\<close>

definition ahead :: "v3tick list \<Rightarrow> bool \<Rightarrow> int \<Rightarrow> int \<Rightarrow> bool" where
  "ahead ticks z cur P \<longleftrightarrow>
     (\<forall>t \<in> set ticks. \<forall>r. targetSqrt t = Inr r \<longrightarrow>
        (if z then Index t \<le> cur \<longrightarrow> r \<le> P else cur < Index t \<longrightarrow> P \<le> r))"

definition walk_ok :: "v3tick list \<Rightarrow> int \<Rightarrow> bool \<Rightarrow> int \<Rightarrow> int \<Rightarrow> bool" where
  "walk_ok ticks fee z cur P \<longleftrightarrow>
     list_all tick_ok ticks \<and> 0 \<le> fee \<and> fee < 1000000 \<and> 0 < P \<and> ahead ticks z cur P"

lemma nextInitializedTick_Some:
  assumes "nextInitializedTick ticks cur z = Some t"
  shows "t \<in> set ticks" and "if z then Index t \<le> cur else cur < Index t"
proof -
  let ?xs = "if z then rev ticks else ticks"
  let ?P = "\<lambda>t. if z then Index t \<le> cur else cur < Index t"
  have "find ?P ?xs = Some t" using assms by (simp add: nextInitializedTick_def split: if_splits)
  then obtain i where "i < length ?xs" "?P (?xs ! i)" "t = ?xs ! i" unfolding find_Some_iff by blast
  then have "t \<in> set ?xs \<and> ?P t" using nth_mem by blast
  then show "t \<in> set ticks" and "if z then Index t \<le> cur else cur < Index t" by (auto split: if_splits)
qed

lemma walk_step_ok:
  assumes "walk_ok ticks fee z cur P" "0 < L" "nextInitializedTick ticks cur z = Some t"
    and "targetSqrt t = Inr r"
  shows "step_ok L P r fee z"
    and "walk_ok ticks fee z (if z then wrap32 (Index t - 1) else Index t) r"
    and "wrap32 (Index t - 1) = Index t - 1"
proof -
  note nxt = nextInitializedTick_Some[OF assms(3)]
  have "tick_ok t" using assms(1) nxt(1) by (auto simp: walk_ok_def list_all_iff)
  then have r: "GetSqrtRatioAtTick (Index t) = Inr r" using assms(4) by (rule tick_ok_ratio)
  then have pos: "0 < r" by (rule GetSqrtRatioAtTick_pos)
  show wrap: "wrap32 (Index t - 1) = Index t - 1"
    using GetSqrtRatioAtTick_Inr_range[OF r] by (simp add: wrap32_id MinTick_def MaxTick_def)
  show "step_ok L P r fee z"
    using assms nxt pos by (auto simp: walk_ok_def step_ok_def ahead_def split: if_splits)
  have "ahead ticks z (if z then Index t - 1 else Index t) r"
    unfolding ahead_def
  proof (intro ballI allI impI)
    fix u s assume "u \<in> set ticks" and s: "targetSqrt u = Inr s"
    then have "tick_ok u" using assms(1) by (auto simp: walk_ok_def list_all_iff)
    then have g: "GetSqrtRatioAtTick (Index u) = Inr s" using s by (rule tick_ok_ratio)
    show "if z then Index u \<le> (if z then Index t - 1 else Index t) \<longrightarrow> s \<le> r
          else (if z then Index t - 1 else Index t) < Index u \<longrightarrow> r \<le> s"
      using GetSqrtRatioAtTick_le[OF g r] GetSqrtRatioAtTick_le[OF r g] by auto
  qed
  then show "walk_ok ticks fee z (if z then wrap32 (Index t - 1) else Index t) r"
    using pos assms(1) wrap by (cases z) (simp_all add: walk_ok_def)
qed

lemma v3_wf_walk_ok:
  assumes "v3_wf p" "v3SqrtPriceX96 p = Some P" "v3FeeBps p < 10000"
    and "set ticks = set (v3Ticks p)"
  shows "walk_ok ticks (feePips p) z (v3Tick p) P"
proof -
  have ok: "list_all tick_ok ticks" and at: "price_at_tick P (v3Tick p)"
    using assms by (auto simp: v3_wf_def list_all_iff)
  then obtain lo where lo: "GetSqrtRatioAtTick (v3Tick p) = Inr lo" "lo \<le> P"
    by (auto simp: price_at_tick_def split: sum.splits)
  have "ahead ticks z (v3Tick p) P"
    unfolding ahead_def
  proof (intro ballI allI impI)
    fix u s assume "u \<in> set ticks" and s: "targetSqrt u = Inr s"
    then have "tick_ok u" using ok by (auto simp: list_all_iff)
    then have g: "GetSqrtRatioAtTick (Index u) = Inr s" using s by (rule tick_ok_ratio)
    have "P \<le> s" if "v3Tick p < Index u"
    proof -
      have "MinTick \<le> v3Tick p + 1" "v3Tick p + 1 \<le> MaxTick"
        using GetSqrtRatioAtTick_Inr_range[OF lo(1)] GetSqrtRatioAtTick_Inr_range[OF g] that by auto
      then obtain hi where hi: "GetSqrtRatioAtTick (v3Tick p + 1) = Inr hi"
        using GetSqrtRatioAtTick_eq by blast
      then have "P < hi" using at by (simp add: price_at_tick_def)
      then show ?thesis using GetSqrtRatioAtTick_le[OF hi g] that by simp
    qed
    then show "if z then Index u \<le> v3Tick p \<longrightarrow> s \<le> P else v3Tick p < Index u \<longrightarrow> P \<le> s"
      using GetSqrtRatioAtTick_le[OF g lo(1)] lo(2) by auto
  qed
  then show ?thesis
    using ok assms(3) lo GetSqrtRatioAtTick_pos[OF lo(1)] by (simp add: walk_ok_def feePips_def)
qed

subsection \<open>The walk\<close>

text \<open>What one iteration did, given that the walk succeeded.\<close>

lemma swapLoop_step:
  assumes "0 < r" "0 < L" "nextInitializedTick ticks cur z = Some t" "targetSqrt t = Inr target"
  shows "swapLoop (Suc i) ticks fee z cur r out P L =
    (if r \<le> stepIn r L P target fee z then Ok (out + stepOut r L P target fee z)
     else if \<not> stepReached r L P target fee z then Err ErrInsufficientLiquidity
     else case LiquidityNet t of
       None \<Rightarrow> Panic
     | Some net \<Rightarrow>
         swapLoop i ticks fee z (if z then wrap32 (Index t - 1) else Index t)
           (r - stepIn r L P target fee z) (out + stepOut r L P target fee z) target
           (if z then L - net else L + net))"
  using assms by (simp add: Let_def split: option.split)

lemma swapLoop_Ok_inputs:
  assumes "swapLoop (Suc i) ticks fee z cur r out P L = Ok v" "0 < r"
  obtains t target where "0 < L" "nextInitializedTick ticks cur z = Some t" "targetSqrt t = Inr target"
  using assms by (simp split: if_splits option.splits sum.splits)

declare swapLoop.simps(2) [simp del]

lemma swapLoop_done: "r \<le> 0 \<Longrightarrow> swapLoop i ticks fee z cur r out P L = Ok out"
  by (cases i) (simp_all add: swapLoop.simps(2))

lemma swapLoop_step_Ok:
  assumes "0 < r" "0 < L" "nextInitializedTick ticks cur z = Some t" "targetSqrt t = Inr target"
    and "swapLoop (Suc i) ticks fee z cur r out P L = Ok v"
  obtains (stop) "r \<le> stepIn r L P target fee z" "v = out + stepOut r L P target fee z"
  | (cross) net where "stepIn r L P target fee z < r" "stepReached r L P target fee z"
      "LiquidityNet t = Some net"
      "swapLoop i ticks fee z (if z then wrap32 (Index t - 1) else Index t)
           (r - stepIn r L P target fee z) (out + stepOut r L P target fee z) target
           (if z then L - net else L + net) = Ok v"
proof (cases "r \<le> stepIn r L P target fee z")
  case True
  then show thesis using stop assms(5) unfolding swapLoop_step[OF assms(1-4)] by simp
next
  case False
  then show thesis using cross assms(5) unfolding swapLoop_step[OF assms(1-4)]
    by (simp split: if_split_asm option.split_asm)
qed

lemma swapLoop_out_le:
  assumes "walk_ok ticks fee z cur P" "swapLoop i ticks fee z cur r out P L = Ok v"
  shows "out \<le> v"
  using assms
proof (induction i arbitrary: cur r out P L)
  case 0
  then show ?case by (simp split: if_splits)
next
  case (Suc i)
  show ?case
  proof (cases "0 < r")
    case False
    then show ?thesis using Suc.prems by (simp add: swapLoop_done)
  next
    case True
    obtain t target where st: "0 < L" "nextInitializedTick ticks cur z = Some t" "targetSqrt t = Inr target"
      using swapLoop_Ok_inputs[OF Suc.prems(2) True] .
    note ok = walk_step_ok[OF Suc.prems(1) st]
    have so: "0 \<le> stepOut r L P target fee z" using stepOut_nonneg[OF ok(1)] True by simp
    show ?thesis using True st Suc.prems(2)
    proof (cases rule: swapLoop_step_Ok)
      case stop
      then show ?thesis using so by simp
    next
      case (cross net)
      then show ?thesis using Suc.IH[OF ok(2) cross(4)] so by simp
    qed
  qed
qed

text \<open>A larger input never yields less.\<close>

lemma swapLoop_mono:
  assumes "walk_ok ticks fee z cur P" "r \<le> s" "o1 \<le> o2"
    and "swapLoop i ticks fee z cur r o1 P L = Ok v" "swapLoop i ticks fee z cur s o2 P L = Ok w"
  shows "v \<le> w"
  using assms
proof (induction i arbitrary: cur r s o1 o2 P L)
  case 0
  then show ?case by (simp split: if_splits)
next
  case (Suc i)
  show ?case
  proof (cases "0 < r")
    case False
    then show ?thesis using Suc.prems swapLoop_out_le[OF Suc.prems(1,5)] by (simp add: swapLoop_done)
  next
    case True
    then have s: "0 < s" using Suc.prems(2) by simp
    obtain t target where st: "0 < L" "nextInitializedTick ticks cur z = Some t" "targetSqrt t = Inr target"
      using swapLoop_Ok_inputs[OF Suc.prems(4) True] .
    note ok = walk_step_ok[OF Suc.prems(1) st]
    have so: "stepOut r L P target fee z \<le> stepOut s L P target fee z"
      using stepOut_mono[OF ok(1)] True Suc.prems(2) by simp
    have w: "o2 + stepOut s L P target fee z \<le> w"
      by (rule swapLoop_step_Ok[OF s st Suc.prems(5)]) (use swapLoop_out_le[OF ok(2)] in auto)
    show ?thesis using True st Suc.prems(4)
    proof (cases rule: swapLoop_step_Ok)
      case stop
      then show ?thesis using Suc.prems(3) so w by simp
    next
      case (cross net)
      then have rs: "stepReached s L P target fee z" using stepReached_mono[OF ok(1)] Suc.prems(2) by blast
      have eq: "stepIn s L P target fee z = stepIn r L P target fee z"
        "stepOut s L P target fee z = stepOut r L P target fee z"
        using stepIn_reached_eq[OF rs cross(2)] by auto
      show ?thesis using s st Suc.prems(5)
      proof (cases rule: swapLoop_step_Ok)
        case stop
        then show ?thesis using cross(1) eq Suc.prems(2) by simp
      next
        case cross2: (cross net')
        have net: "net' = net" using cross(3) cross2(3) by simp
        show ?thesis
          using cross2(4)[unfolded net eq] Suc.IH[OF ok(2) _ _ cross(4), of "s - stepIn r L P target fee z" "o2 + stepOut r L P target fee z"]
            Suc.prems(2,3) by simp
      qed
    qed
  qed
qed

text \<open>A walk that succeeds has spent the whole input, no more and no less.\<close>

lemma swapLoopInto_exact:
  assumes "sc One = 1" "walk_ok ticks fee z cur (sc SqrtPrice)" "0 \<le> sc Remaining"
    and "swapLoopInto i ticks fee z cur sc = (sc', Ok r)"
  shows "r = Reg Out \<and> sc' Remaining = 0"
  using assms
proof (induction i arbitrary: cur sc)
  case 0
  then show ?case by (auto split: if_splits)
next
  case (Suc i)
  show ?case
  proof (cases "0 < sc Remaining \<and> 0 < sc Liquidity
      \<and> (\<exists>nxt target. nextInitializedTick ticks cur z = Some nxt \<and> targetSqrt nxt = Inr target)")
    case False
    then have stop: "\<not> 0 < sc Remaining \<or> \<not> 0 < sc Liquidity \<or> nextInitializedTick ticks cur z = None
        \<or> (\<exists>nxt e. nextInitializedTick ticks cur z = Some nxt \<and> targetSqrt nxt = Inl e)"
      by (rule no_step)
    show ?thesis
      using swapLoopInto_stop(1,3)[OF stop, where fee = fee and i = i] Suc.prems(3,4)
      by (simp del: swapLoopInto.simps)
  next
    case True
    then obtain nxt target where pos: "0 < sc Remaining" "0 < sc Liquidity"
      and nt: "nextInitializedTick ticks cur z = Some nxt" "targetSqrt nxt = Inr target" by blast
    note ok = walk_step_ok[OF Suc.prems(2) pos(2) nt]
    have le: "stepIn (sc Remaining) (sc Liquidity) (sc SqrtPrice) target fee z \<le> sc Remaining"
      using stepIn_le[OF ok(1)] pos by simp
    show ?thesis
    proof (rule swapLoopInto_iteration[of sc ticks cur z nxt target fee i, OF Suc.prems(1) pos nt])
      fix s assume s: "stepped target fee z sc s" and into: "swapLoopInto (Suc i) ticks fee z cur sc
          = crossInto i ticks fee z nxt (stepReached (sc Remaining) (sc Liquidity) (sc SqrtPrice) target fee z) s"
      note run = Suc.prems(4)[unfolded into crossInto_def]
      show ?thesis
      proof (cases "s Remaining \<le> 0")
        case True
        then show ?thesis using run s le by (auto simp: stepped_def)
      next
        case False
        then obtain v where reached: "stepReached (sc Remaining) (sc Liquidity) (sc SqrtPrice) target fee z"
          and rest: "swapLoopInto i ticks fee z (crossed z nxt) (s(Liquidity := v)) = (sc', Ok r)"
          using run by (auto split: if_splits option.splits simp del: swapLoopInto.simps)
        then have "walk_ok ticks fee z (crossed z nxt) (s SqrtPrice)" using s ok(2) by (simp add: stepNext_def stepped_def)
        then show ?thesis
          using Suc.IH[of "s(Liquidity := v)" "crossed z nxt"] s False rest
          by (simp del: fun_upd_apply add: fun_upd_other stepped_def)
      qed
    qed
  qed
qed

text \<open>The iteration bound \<^verbatim>\<open>len(ticks)+1\<close> is enough: a crossed tick is never selected again, so
  the number of ticks ahead bounds the iterations that are left.\<close>

definition ticksAhead :: "v3tick list \<Rightarrow> bool \<Rightarrow> int \<Rightarrow> nat" where
  "ticksAhead ticks z cur = length (filter (\<lambda>t. if z then Index t \<le> cur else cur < Index t) ticks)"

lemma ticksAhead_le: "ticksAhead ticks z cur \<le> length ticks"
  by (simp add: ticksAhead_def)

lemma length_filter_less:
  assumes "\<And>x. x \<in> set xs \<Longrightarrow> Q x \<Longrightarrow> P x" "a \<in> set xs" "P a" "\<not> Q a"
  shows "length (filter Q xs) < length (filter P xs)"
proof -
  have "filter Q xs = filter Q (filter P xs)" using assms(1) by (auto intro: filter_cong)
  moreover have "length (filter Q (filter P xs)) < length (filter P xs)"
    using assms(2-4) by (intro length_filter_less[of a]) auto
  ultimately show ?thesis by simp
qed

lemma ticksAhead_cross:
  assumes "nextInitializedTick ticks cur z = Some t"
  shows "ticksAhead ticks z (if z then Index t - 1 else Index t) < ticksAhead ticks z cur"
  unfolding ticksAhead_def
  by (rule length_filter_less[of _ _ _ t])
    (use nextInitializedTick_Some[OF assms] in \<open>auto split: if_splits\<close>)

lemma swapLoopInto_bound:
  assumes "list_all tick_ok ticks" "ticksAhead ticks z cur < i"
  shows "swapLoopInto (i + k) ticks fee z cur sc = swapLoopInto i ticks fee z cur sc"
  using assms(2)
proof (induction i arbitrary: cur sc)
  case (Suc i)
  show ?case
  proof (cases "nextInitializedTick ticks cur z")
    case (Some t)
    then have "tick_ok t" using assms(1) nextInitializedTick_Some(1)[OF Some] by (auto simp: list_all_iff)
    then have "wrap32 (Index t - 1) = Index t - 1"
      by (rule tick_ok_target) (simp add: wrap32_id MinTick_def MaxTick_def)
    then have IH: "swapLoopInto (i + k) ticks fee z (if z then wrap32 (Index t - 1) else Index t) s
                 = swapLoopInto i ticks fee z (if z then wrap32 (Index t - 1) else Index t) s" for s
      using Suc.IH[of "if z then Index t - 1 else Index t" s] ticksAhead_cross[OF Some] Suc.prems
      by (cases z) auto
    show ?thesis using IH Some by (cases z) (simp_all add: Let_def split: sum.split prod.split option.split)
  qed simp
qed simp

subsection \<open>Preparing the ticks\<close>

definition prepareTick :: "v3tick \<Rightarrow> v3tick" where
  "prepareTick t = (case targetSqrt t of Inl _ \<Rightarrow> t | Inr r \<Rightarrow> t\<lparr>SqrtRatioX96 := Some r\<rparr>)"

lemma prepareTick_simps [simp]:
  "Index (prepareTick t) = Index t" "LiquidityNet (prepareTick t) = LiquidityNet t"
  "targetSqrt (prepareTick t) = targetSqrt t"
  by (auto simp: prepareTick_def targetSqrt_def split: sum.split option.split)

lemma fillRatios_Cons:
  "fillRatios (t # ts) = (case targetSqrt t of Inl e \<Rightarrow> Inl e | Inr _ \<Rightarrow> map_sum id ((#) (prepareTick t)) (fillRatios ts))"
proof (cases "SqrtRatioX96 t")
  case None
  then show ?thesis by (simp add: targetSqrt_def prepareTick_def split: sum.split)
next
  case (Some r)
  then have "prepareTick t = t" by (cases t) (simp add: prepareTick_def targetSqrt_def)
  then show ?thesis using Some by (simp add: targetSqrt_def)
qed

lemma map_sum_Inr: "map_sum f g s = Inr y \<longleftrightarrow> (\<exists>x. s = Inr x \<and> y = g x)"
  by (cases s) auto

lemma map_sum_Inl: "map_sum id g s = Inl y \<Longrightarrow> (s = Inl y \<Longrightarrow> thesis) \<Longrightarrow> thesis"
  by (cases s) auto

lemma fillRatios_Inr:
  "fillRatios ts = Inr ts' \<longleftrightarrow> ts' = map prepareTick ts \<and> (\<forall>t \<in> set ts. \<exists>r. targetSqrt t = Inr r)"
  by (induction ts arbitrary: ts')
    (auto simp: fillRatios_Cons map_sum_Inr simp del: fillRatios.simps(2) split: sum.splits)

lemma fillRatios_Inl: "fillRatios ts = Inl e \<Longrightarrow> \<exists>t \<in> set ts. targetSqrt t = Inl e"
  by (induction ts) (auto simp: fillRatios_Cons simp del: fillRatios.simps(2) split: sum.splits
      elim: map_sum_Inl)

lemma isSorted_iff: "isSorted ticks \<longleftrightarrow> sorted (map Index ticks)"
  by (induction ticks rule: isSorted.induct) auto

lemma sort_key_sorted: "sorted (map f xs) \<Longrightarrow> sort_key f xs = xs"
  by (induction xs) (auto simp: insort_is_Cons)

lemma sortedTicks_eq: "sortedTicks ticks = sort_key Index ticks"
  by (simp add: sortedTicks_def isSorted_iff sort_key_sorted)

lemma nextInitializedTick_map:
  assumes "\<And>t. Index (f t) = Index t"
  shows "nextInitializedTick (map f ticks) cur z = map_option f (nextInitializedTick ticks cur z)"
proof -
  have "find P (map f xs) = map_option f (find (P \<circ> f) xs)" for P and xs :: "v3tick list"
    by (induction xs) auto
  then show ?thesis by (simp add: nextInitializedTick_def rev_map assms comp_def)
qed

lemma swapLoop_map:
  assumes "\<And>t. Index (f t) = Index t" "\<And>t. LiquidityNet (f t) = LiquidityNet t"
    and "\<And>t. targetSqrt (f t) = targetSqrt t"
  shows "swapLoop i (map f ticks) fee z cur r out P L = swapLoop i ticks fee z cur r out P L"
proof (induction i arbitrary: cur r out P L)
  case (Suc i)
  show ?case
    using Suc.IH by (cases z)
      (simp_all add: swapLoop.simps(2) nextInitializedTick_map[OF assms(1)] assms Let_def
        split: option.split sum.split)
qed simp

subsection \<open>Properties\<close>

text \<open>A pool used in the instances below: one position around the current tick, a second further out.\<close>

definition exampleV3 :: v3pool where
  "exampleV3 = \<lparr>v3SqrtPriceX96 = Some (2 ^ 96), v3Liquidity = Some 1000000, v3Tick = 0, v3FeeBps = 30,
     v3TickSpacing = 60,
     v3Ticks = [\<lparr>Index = 120, LiquidityNet = Some (- 400000), SqrtRatioX96 = None\<rparr>,
                \<lparr>Index = - 60, LiquidityNet = Some 600000, SqrtRatioX96 = None\<rparr>,
                \<lparr>Index = - 120, LiquidityNet = Some 400000, SqrtRatioX96 = None\<rparr>,
                \<lparr>Index = 60, LiquidityNet = Some (- 600000), SqrtRatioX96 = None\<rparr>]\<rparr>"

lemma exampleV3_facts:
  "v3_wf exampleV3"
  "SwapV3 (Some 1000) exampleV3 True = Ok 996"
  "SwapV3 (Some 4000) exampleV3 True = Ok 3968"
  unfolding SwapV3_eq by code_simp+

text \<open>C4. A concentrated-liquidity swap that succeeds consumes the exact input: \<^verbatim>\<open>SwapV3Into\<close>, run on
  any workspace against a pool whose price and tick agree, leaves nothing in \<^verbatim>\<open>remaining\<close> and never
  spends more than it was given, so the output it returns is the output for the whole amount.\<close>

theorem SwapV3Into_exact_input:
  assumes "v3_wf p" "sc One = 1" "SwapV3Into sc amountIn p zeroForOne = (sc', Ok r)"
  shows "r = Reg Out \<and> sc' Remaining = 0"
proof -
  let ?ticks = "sortedTicks (v3Ticks p)"
  obtain a P L where a: "amountIn = Some a" "0 < a" and P: "v3SqrtPriceX96 p = Some P" and L: "v3Liquidity p = Some L"
    and fee: "v3FeeBps p < 10000"
    using assms(3)
    by (cases amountIn; cases "v3SqrtPriceX96 p"; cases "v3Liquidity p")
      (auto simp: SwapV3Into_def isPositive_def bpsDenominator_def Let_def split: if_splits)
  let ?sc = "sc(Remaining := a, Out := 0, SqrtPrice := P, Liquidity := L)"
  have loop: "swapLoopInto (Suc (length ?ticks)) ?ticks (feePips p) zeroForOne (v3Tick p) ?sc = (sc', Ok r)"
    using assms(3) a P L
    by (auto simp: SwapV3Into_def Let_def store_simps simp del: swapLoopInto.simps split: if_splits)
  have "walk_ok ?ticks (feePips p) zeroForOne (v3Tick p) P"
    using v3_wf_walk_ok[OF assms(1) P fee] by (simp add: sortedTicks_eq)
  then show ?thesis using swapLoopInto_exact[of ?sc, OF _ _ _ loop] assms(2) a by simp
qed

theorem SwapV3Into_exact_input_witness:
  "\<exists>sc'. SwapV3Into NewScratch (Some 4000) exampleV3 True = (sc', Ok (Reg Out)) \<and> sc' Remaining = 0 \<and> sc' Out = 3968"
proof -
  have "\<exists>sc' r. SwapV3Into NewScratch (Some 4000) exampleV3 True = (sc', Ok r) \<and> deref sc' r = 3968"
    using exampleV3_facts(3) by (auto simp: SwapV3_def split: prod.splits)
  then show ?thesis using SwapV3Into_exact_input[OF exampleV3_facts(1), of NewScratch] by fastforce
qed

lemma swapV3_mono:
  assumes "v3_wf p" "a \<le> b" "SwapV3 (Some a) p zeroForOne = Ok v" "SwapV3 (Some b) p zeroForOne = Ok w"
  shows "v \<le> w"
proof -
  let ?ticks = "sortedTicks (v3Ticks p)"
  obtain P L where P: "v3SqrtPriceX96 p = Some P" and L: "v3Liquidity p = Some L" and fee: "v3FeeBps p < 10000"
    using assms(3) by (cases "v3SqrtPriceX96 p"; cases "v3Liquidity p")
      (auto simp: SwapV3_eq swapV3_def isPositive_def split: if_splits)
  have run: "swapLoop (Suc (length ?ticks)) ?ticks (feePips p) zeroForOne (v3Tick p) a 0 P L = Ok v"
    "swapLoop (Suc (length ?ticks)) ?ticks (feePips p) zeroForOne (v3Tick p) b 0 P L = Ok w"
    using assms(3,4) P L by (auto simp: SwapV3_eq swapV3_def Let_def split: if_splits)
  have "walk_ok ?ticks (feePips p) zeroForOne (v3Tick p) P"
    using v3_wf_walk_ok[OF assms(1) P fee] by (simp add: sortedTicks_eq)
  then show ?thesis using swapLoop_mono[OF _ assms(2) order_refl run] by simp
qed

text \<open>C13. The output of \<^verbatim>\<open>SwapV3\<close> is monotone in the input: on a pool whose price and tick agree,
  sending more of the input token never returns less of the other one, however many ticks either
  swap crosses.\<close>

theorem SwapV3_mono:
  assumes "v3_wf p" "a \<le> b" "SwapV3 (Some a) p zeroForOne = Ok v" "SwapV3 (Some b) p zeroForOne = Ok w"
  shows "v \<le> w"
  by (rule swapV3_mono[OF assms])

theorem SwapV3_mono_witness: "v3_wf exampleV3 \<and> (996 :: int) \<le> 3968"
  using exampleV3_facts(1) SwapV3_mono[OF exampleV3_facts(1) _ exampleV3_facts(2,3)] by simp



text \<open>C32. The loop bound is no limit: with every tick in the protocol's range, running the walk of
  \<^verbatim>\<open>SwapV3Into\<close> for more than \<^verbatim>\<open>len(ticks)+1\<close> iterations never changes its result, so an
  unfilled swap really has run out of initialized ticks.\<close>

theorem swapLoopInto_bound_enough:
  assumes "list_all tick_ok ticks"
  shows "swapLoopInto (Suc (length ticks) + k) ticks fee zeroForOne currentTick sc
           = swapLoopInto (Suc (length ticks)) ticks fee zeroForOne currentTick sc"
  using ticksAhead_le[of ticks zeroForOne currentTick] by (intro swapLoopInto_bound[OF assms]) simp

theorem swapLoopInto_bound_enough_witness:
  "swapLoopInto 100 (v3Ticks exampleV3) 3000 True 0 NewScratch
     = swapLoopInto 5 (v3Ticks exampleV3) 3000 True 0 NewScratch"
proof -
  have "list_all tick_ok (v3Ticks exampleV3)" using exampleV3_facts(1) by (simp add: v3_wf_def)
  from swapLoopInto_bound_enough[OF this, of 95 3000 True 0 NewScratch]
  show ?thesis by (simp add: exampleV3_def numeral_eq_Suc del: swapLoopInto.simps)
qed

lemma PrepareTicks_Inr:
  assumes "PrepareTicks ticks = Inr ts"
  shows "ts = map prepareTick (sort_key Index ticks)" "\<forall>t \<in> set ticks. \<exists>r. targetSqrt t = Inr r"
  using assms fillRatios_Inr[of "sort_key Index ticks" ts] by (auto simp: PrepareTicks_def split: if_splits)

lemma PrepareTicks_swapV3:
  assumes "PrepareTicks ticks = Inr ts"
  shows "swapV3 amountIn (p\<lparr>v3Ticks := ts\<rparr>) zeroForOne = swapV3 amountIn (p\<lparr>v3Ticks := ticks\<rparr>) zeroForOne"
proof -
  note ts = PrepareTicks_Inr[OF assms]
  have "sorted (map Index ts)" by (simp add: ts(1) comp_def)
  then show ?thesis using swapLoop_map[of prepareTick]
    by (simp add: swapV3_def feePips_def sortedTicks_eq Let_def sort_key_sorted ts(1))
qed

text \<open>\<^verbatim>\<open>PrepareTicks\<close> only caches: when it succeeds the ticks are sorted by index, each carries
  its square-root ratio, indices and net liquidities are those of the input, and every quote of the
  pool is unchanged; it fails exactly when a tick without a cached ratio is out of range.\<close>

theorem PrepareTicks_transparent:
  "(case PrepareTicks ticks of
      Inl e \<Rightarrow> e = ErrTickOutOfRange
        \<and> (\<exists>t \<in> set ticks. SqrtRatioX96 t = None \<and> (Index t < MinTick \<or> MaxTick < Index t))
    | Inr ts \<Rightarrow> sorted (map Index ts)
        \<and> mset (map (\<lambda>t. (Index t, LiquidityNet t)) ts) = mset (map (\<lambda>t. (Index t, LiquidityNet t)) ticks)
        \<and> list_all (\<lambda>t. SqrtRatioX96 t \<noteq> None) ts
        \<and> SwapV3 amountIn (p\<lparr>v3Ticks := ts\<rparr>) zeroForOne = SwapV3 amountIn (p\<lparr>v3Ticks := ticks\<rparr>) zeroForOne)"
proof (cases "PrepareTicks ticks")
  case (Inl e)
  then have "fillRatios (sort_key Index ticks) = Inl e" by (simp add: PrepareTicks_def split: if_splits)
  then have "\<exists>t \<in> set ticks. targetSqrt t = Inl e"
    using fillRatios_Inl[of "sort_key Index ticks" e] by simp
  then show ?thesis using Inl GetSqrtRatioAtTick_Inl_iff
    by (fastforce simp: targetSqrt_def split: option.splits)
next
  case (Inr ts)
  note ts = PrepareTicks_Inr[OF Inr]
  have "sorted (map Index ts)" by (simp add: ts(1) comp_def)
  moreover have "mset (map (\<lambda>t. (Index t, LiquidityNet t)) ts) = mset (map (\<lambda>t. (Index t, LiquidityNet t)) ticks)"
    by (simp add: ts(1) multiset.map_comp comp_def)
  moreover have "\<forall>t \<in> set ts. SqrtRatioX96 t \<noteq> None"
    using ts by (auto simp: prepareTick_def split: sum.splits)
  moreover have "SwapV3 amountIn (p\<lparr>v3Ticks := ts\<rparr>) zeroForOne = SwapV3 amountIn (p\<lparr>v3Ticks := ticks\<rparr>) zeroForOne"
    using PrepareTicks_swapV3[OF Inr] by (simp add: SwapV3_eq)
  ultimately show ?thesis using Inr by (simp add: list_all_iff)
qed

end
