(* ===== verification/Dex_Pool.thy ===== *)
theory Dex_Pool
  imports Amm_V2 Amm_V3
begin

section \<open>Pools and tokens (\<^verbatim>\<open>internal/dex/pool.go\<close>, \<^verbatim>\<open>internal/dex/tokens.go\<close>)\<close>

text \<open>
  A \<open>pool\<close> holds the state of either protocol; \<open>AmountOutInto\<close> resolves the direction of a
  swap from the input address and calls the routine of the protocol. Errors wrap a sentinel with
  context text; the sentinel is what callers test for, so the model keeps the sentinel. \<open>quote\<close>
  is the value of a quote without a workspace, and the interpretation of \<open>workspace_routine\<close> shows
  that \<open>AmountOutInto\<close> computes it on every workspace.
\<close>

type_synonym protocol = string

definition UniswapV3 :: protocol where "UniswapV3 = ''uniswap-v3''"

definition SushiswapV2 :: protocol where "SushiswapV2 = ''sushiswap-v2''"

lemma protocols_distinct [simp]: "UniswapV3 \<noteq> SushiswapV2" "SushiswapV2 \<noteq> UniswapV3"
  by (simp_all add: UniswapV3_def SushiswapV2_def)

datatype dex_error = ErrTokenNotInPool | ErrPoolStateMissing | ErrUnknownProtocol | AmmError amm_error

record token =
  tokAddress :: string
  tokSymbol :: string
  tokDecimals :: nat

record pool =
  poolAddress :: string
  poolProtocol :: protocol
  poolToken0 :: token
  poolToken1 :: token
  poolFeeBps :: nat
  poolSimulated :: bool
  poolReserve0 :: "int option"
  poolReserve1 :: "int option"
  poolSqrtPriceX96 :: "int option"
  poolLiquidity :: "int option"
  poolTick :: int
  poolTickSpacing :: int
  poolTicks :: "v3tick list"

definition addrEqual :: "string \<Rightarrow> string \<Rightarrow> bool" where
  "addrEqual a b = equalFold (trimSpace a) (trimSpace b)"

definition Has :: "pool \<Rightarrow> string \<Rightarrow> bool" where
  "Has p address = (addrEqual address (tokAddress (poolToken0 p)) \<or> addrEqual address (tokAddress (poolToken1 p)))"

definition OtherToken :: "pool \<Rightarrow> string \<Rightarrow> token option" where
  "OtherToken p address =
     (if addrEqual address (tokAddress (poolToken0 p)) then Some (poolToken1 p)
      else if addrEqual address (tokAddress (poolToken1 p)) then Some (poolToken0 p)
      else None)"

definition direction :: "pool \<Rightarrow> string \<Rightarrow> dex_error + bool" where
  "direction p tokenIn =
     (if addrEqual tokenIn (tokAddress (poolToken0 p)) then Inr True
      else if addrEqual tokenIn (tokAddress (poolToken1 p)) then Inr False
      else Inl ErrTokenNotInPool)"

subsection \<open>Quoting\<close>

definition orientV2 :: "pool \<Rightarrow> bool \<Rightarrow> v2pool" where
  "orientV2 p zeroForOne =
     (if zeroForOne
      then \<lparr>v2ReserveIn = poolReserve0 p, v2ReserveOut = poolReserve1 p, v2FeeBps = poolFeeBps p\<rparr>
      else \<lparr>v2ReserveIn = poolReserve1 p, v2ReserveOut = poolReserve0 p, v2FeeBps = poolFeeBps p\<rparr>)"

definition amountOutV2 :: "scratch \<Rightarrow> pool \<Rightarrow> int option \<Rightarrow> bool \<Rightarrow> scratch \<times> (dex_error, bigref) outcome" where
  "amountOutV2 sc p amountIn zeroForOne =
     (if poolReserve0 p = None \<or> poolReserve1 p = None then (sc, Err ErrPoolStateMissing)
      else map_prod id (map_outcome_err AmmError) (SwapV2Into sc amountIn (orientV2 p zeroForOne)))"

definition v3State :: "pool \<Rightarrow> v3pool" where
  "v3State p = \<lparr>v3SqrtPriceX96 = poolSqrtPriceX96 p, v3Liquidity = poolLiquidity p, v3Tick = poolTick p,
     v3FeeBps = poolFeeBps p, v3TickSpacing = poolTickSpacing p, v3Ticks = poolTicks p\<rparr>"

definition amountOutV3 :: "scratch \<Rightarrow> pool \<Rightarrow> int option \<Rightarrow> bool \<Rightarrow> scratch \<times> (dex_error, bigref) outcome" where
  "amountOutV3 sc p amountIn zeroForOne =
     (if poolSqrtPriceX96 p = None \<or> poolLiquidity p = None then (sc, Err ErrPoolStateMissing)
      else map_prod id (map_outcome_err AmmError) (SwapV3Into sc amountIn (v3State p) zeroForOne))"

definition AmountOutInto :: "scratch \<Rightarrow> pool \<Rightarrow> int option \<Rightarrow> string \<Rightarrow> scratch \<times> (dex_error, bigref) outcome" where
  "AmountOutInto sc p amountIn tokenIn =
     (case direction p tokenIn of
        Inl e \<Rightarrow> (sc, Err e)
      | Inr zeroForOne \<Rightarrow>
          if poolProtocol p = SushiswapV2 then amountOutV2 sc p amountIn zeroForOne
          else if poolProtocol p = UniswapV3 then amountOutV3 sc p amountIn zeroForOne
          else (sc, Err ErrUnknownProtocol))"

definition AmountOut :: "pool \<Rightarrow> int option \<Rightarrow> string \<Rightarrow> (dex_error, int) outcome" where
  "AmountOut p amountIn tokenIn =
     (case AmountOutInto NewScratch p amountIn tokenIn of (sc, r) \<Rightarrow> map_outcome_ok (deref sc) r)"

subsection \<open>The token registry\<close>

definition registry :: "token list" where
  "registry =
     [\<lparr>tokAddress = ''0xC02aaA39b223FE8D0A0e5C4F27eAD9083C756Cc2'', tokSymbol = ''WETH'', tokDecimals = 18\<rparr>,
      \<lparr>tokAddress = ''0xA0b86991c6218b36c1d19D4a2e9Eb0cE3606eB48'', tokSymbol = ''USDC'', tokDecimals = 6\<rparr>,
      \<lparr>tokAddress = ''0xdAC17F958D2ee523a2206206994597C13D831ec7'', tokSymbol = ''USDT'', tokDecimals = 6\<rparr>,
      \<lparr>tokAddress = ''0x6B175474E89094C44Da98b954EedeAC495271d0F'', tokSymbol = ''DAI'', tokDecimals = 18\<rparr>,
      \<lparr>tokAddress = ''0x2260FAC5E5542a773Aa44fBCfeDf7C193bc2C599'', tokSymbol = ''WBTC'', tokDecimals = 8\<rparr>,
      \<lparr>tokAddress = ''0x514910771AF9Ca656af840dff83E8264EcF986CA'', tokSymbol = ''LINK'', tokDecimals = 18\<rparr>,
      \<lparr>tokAddress = ''0x1f9840a85d5aF5bf1D1762F925BDADdC4201F984'', tokSymbol = ''UNI'', tokDecimals = 18\<rparr>,
      \<lparr>tokAddress = ''0x7Fc66500c84A76Ad7e9c93437bFc5Ac33E2DDaE9'', tokSymbol = ''AAVE'', tokDecimals = 18\<rparr>]"

definition Tokens :: "token list" where "Tokens = registry"

definition TokenBySymbol :: "string \<Rightarrow> token option" where
  "TokenBySymbol symbol = (let want = trimSpace symbol in find (\<lambda>tok. equalFold (tokSymbol tok) want) registry)"

definition TokenByAddress :: "string \<Rightarrow> token option" where
  "TokenByAddress address = find (\<lambda>tok. addrEqual (tokAddress tok) address) registry"

definition Resolve :: "string \<Rightarrow> token option" where
  "Resolve ref = (case TokenBySymbol ref of Some tok \<Rightarrow> Some tok | None \<Rightarrow> TokenByAddress ref)"

subsection \<open>Addresses\<close>

lemma equalFold_equiv: "equalFold a a" "equalFold a b \<Longrightarrow> equalFold b a"
  "equalFold a b \<Longrightarrow> equalFold b c \<Longrightarrow> equalFold a c"
  by (simp_all add: equalFold_def)

lemma addrEqual_iff: "addrEqual a b \<longleftrightarrow> toLower (trimSpace a) = toLower (trimSpace b)"
  by (simp add: addrEqual_def equalFold_def)

lemma OtherToken_None_iff: "OtherToken p a = None \<longleftrightarrow> \<not> Has p a"
  by (simp add: OtherToken_def Has_def)

lemma direction_Inl_iff: "direction p a = Inl e \<longleftrightarrow> \<not> Has p a \<and> e = ErrTokenNotInPool"
  by (auto simp: direction_def Has_def)

subsection \<open>The value of a quote\<close>

definition quote :: "pool \<Rightarrow> int option \<Rightarrow> string \<Rightarrow> (dex_error, int) outcome" where
  "quote p amountIn tokenIn =
     (case direction p tokenIn of
        Inl e \<Rightarrow> Err e
      | Inr zeroForOne \<Rightarrow>
          if poolProtocol p = SushiswapV2 then
            (if poolReserve0 p = None \<or> poolReserve1 p = None then Err ErrPoolStateMissing
             else map_outcome_err AmmError (swapV2 amountIn (orientV2 p zeroForOne)))
          else if poolProtocol p = UniswapV3 then
            (if poolSqrtPriceX96 p = None \<or> poolLiquidity p = None then Err ErrPoolStateMissing
             else map_outcome_err AmmError (swapV3 amountIn (v3State p) zeroForOne))
          else Err ErrUnknownProtocol)"

lemma map_outcome_ok_err: "map_outcome_ok f (map_outcome_err g r) = map_outcome_err g (map_outcome_ok f r)"
  by (cases r) simp_all

interpretation dexp: workspace_routine "\<lambda>sc. AmountOutInto sc p amountIn tokenIn" "quote p amountIn tokenIn"
  for p amountIn tokenIn
proof unfold_locales
  fix sc :: scratch
  assume One: "sc One = 1"
  show "map_outcome_ok (deref (fst (AmountOutInto sc p amountIn tokenIn)))
          (snd (AmountOutInto sc p amountIn tokenIn)) = quote p amountIn tokenIn"
    using v2.into_value[of sc] v3.into_value[of sc] One
    by (auto simp: AmountOutInto_def quote_def amountOutV2_def amountOutV3_def map_outcome_ok_err
             split: sum.split)
  show "fst (AmountOutInto sc p amountIn tokenIn) One = 1"
    using v2.into_One[of sc] v3.into_One[of sc] One
    by (auto simp: AmountOutInto_def amountOutV2_def amountOutV3_def split: sum.split)
qed

lemma AmountOut_eq: "AmountOut p amountIn tokenIn = quote p amountIn tokenIn"
  unfolding AmountOut_def by (rule dexp.fresh_value)

lemma AmountOut_code [code]: "AmountOut = quote"
  by (intro ext) (rule AmountOut_eq)

lemma quote_v2:
  assumes "poolProtocol p = SushiswapV2" "AmountOut p amountIn tokenIn = Ok v"
  obtains z where "direction p tokenIn = Inr z" "SwapV2 amountIn (orientV2 p z) = Ok v"
  using assms by (auto simp: AmountOut_eq SwapV2_eq quote_def split: sum.splits if_splits)

lemma quote_v3:
  assumes "poolProtocol p = UniswapV3" "AmountOut p amountIn tokenIn = Ok v"
  obtains z where "direction p tokenIn = Inr z" "SwapV3 amountIn (v3State p) z = Ok v"
  using assms by (auto simp: AmountOut_eq SwapV3_eq quote_def split: sum.splits if_splits)

lemma AmountOut_Ok_protocol:
  "AmountOut p amountIn tokenIn = Ok v \<Longrightarrow> poolProtocol p = SushiswapV2 \<or> poolProtocol p = UniswapV3"
  by (auto simp: AmountOut_eq quote_def split: sum.splits if_splits)

lemma AmountOut_Ok_input: "AmountOut p amountIn tokenIn = Ok v \<Longrightarrow> isPositive amountIn \<and> Has p tokenIn"
  by (auto simp: AmountOut_eq quote_def swapV2_def swapV3_def isPositive_def direction_def Has_def
      split: sum.splits if_splits option.splits)

text \<open>The only panic of a quote is the missing net liquidity of a crossed tick.\<close>

definition ticks_complete :: "pool \<Rightarrow> bool" where
  "ticks_complete p = (poolProtocol p = UniswapV3 \<longrightarrow> list_all (\<lambda>t. LiquidityNet t \<noteq> None) (poolTicks p))"

lemma swapLoop_no_panic:
  assumes "\<forall>t \<in> set ticks. LiquidityNet t \<noteq> None"
  shows "swapLoop i ticks fee z cur r out P L \<noteq> Panic"
proof (induction i arbitrary: cur r out P L)
  case (Suc i)
  show ?case
  proof (cases "nextInitializedTick ticks cur z")
    case (Some t)
    then obtain net where "LiquidityNet t = Some net" using nextInitializedTick_Some(1)[OF Some] assms by auto
    then show ?thesis using Some Suc.IH by (cases z) (simp_all add: swapLoop.simps(2) Let_def split: sum.split)
  qed (simp add: swapLoop.simps(2))
qed simp

lemma AmountOut_no_panic:
  assumes "ticks_complete p"
  shows "AmountOut p amountIn tokenIn \<noteq> Panic"
  using assms swapLoop_no_panic[of "sortedTicks (poolTicks p)"]
  by (auto simp: AmountOut_eq quote_def swapV2_no_panic swapV3_def v3State_def ticks_complete_def sortedTicks_eq
      list_all_iff Let_def split: sum.split)

subsection \<open>Looking up the registry\<close>

lemma find_key_Some_iff:
  assumes "distinct (map f xs)"
  shows "find (\<lambda>x. f x = k) xs = Some x \<longleftrightarrow> x \<in> set xs \<and> f x = k"
  using assms
proof (induction xs)
  case (Cons y ys)
  then show ?case by (cases "f y = k") (auto simp: image_iff)
qed simp

lemma find_key_None_iff: "find (\<lambda>x. f x = k) xs = None \<longleftrightarrow> k \<notin> f ` set xs"
  by (auto simp: find_None_iff)

definition symbolKey :: "token \<Rightarrow> string" where "symbolKey tok = toLower (tokSymbol tok)"

definition addressKey :: "token \<Rightarrow> string" where "addressKey tok = toLower (trimSpace (tokAddress tok))"

lemma registry_keys_distinct: "distinct (map symbolKey registry @ map addressKey registry)"
  by code_simp

lemma TokenBySymbol_eq: "TokenBySymbol ref = find (\<lambda>tok. symbolKey tok = toLower (trimSpace ref)) registry"
  by (simp add: TokenBySymbol_def equalFold_def symbolKey_def)

lemma TokenByAddress_eq: "TokenByAddress ref = find (\<lambda>tok. addressKey tok = toLower (trimSpace ref)) registry"
  by (simp add: TokenByAddress_def addrEqual_iff addressKey_def)

subsection \<open>Properties\<close>

definition exampleToken :: "string \<Rightarrow> token" where
  "exampleToken a = \<lparr>tokAddress = a, tokSymbol = a, tokDecimals = 18\<rparr>"

definition v2Pool :: "string \<Rightarrow> string \<Rightarrow> string \<Rightarrow> int \<Rightarrow> int \<Rightarrow> pool" where
  "v2Pool addr t0 t1 r0 r1 = \<lparr>poolAddress = addr, poolProtocol = SushiswapV2, poolToken0 = exampleToken t0,
     poolToken1 = exampleToken t1, poolFeeBps = 30, poolSimulated = True, poolReserve0 = Some r0,
     poolReserve1 = Some r1, poolSqrtPriceX96 = None, poolLiquidity = None, poolTick = 0,
     poolTickSpacing = 0, poolTicks = []\<rparr>"

text \<open>C14. One workspace serves any number of quotes: on every workspace whose constant is in place,
  whatever earlier quotes left in the other fields, \<^verbatim>\<open>AmountOutInto\<close> yields exactly the result of the
  allocating \<^verbatim>\<open>AmountOut\<close>, for both protocols and on every error, and keeps the constant for the next
  call.\<close>

theorem AmountOutInto_reuse:
  assumes "sc One = 1" "AmountOutInto sc p amountIn tokenIn = (sc', r)"
  shows "map_outcome_ok (deref sc') r = AmountOut p amountIn tokenIn \<and> sc' One = 1"
  using dexp.into_value[of sc p amountIn tokenIn] dexp.into_One[of sc p amountIn tokenIn] assms
  by (simp add: AmountOut_eq)

theorem AmountOutInto_reuse_witness:
  "let p = v2Pool ''0xp'' ''0xa'' ''0xb'' 1000000 2000000; sc = NewScratch(Out := 77, V2b := - 5) in
   map_outcome_ok (deref (fst (AmountOutInto sc p (Some 1000) ''0xA''))) (snd (AmountOutInto sc p (Some 1000) ''0xA''))
     = AmountOut p (Some 1000) ''0xA''"
  using AmountOutInto_reuse[of "NewScratch(Out := 77, V2b := - 5)" _ _ _ "fst x" "snd x" for x]
  by (simp add: Let_def)

text \<open>A pool quotes monotonically: for a constant-product pool, and for a concentrated-liquidity
  pool whose price and tick agree, two successful quotes of the same token are ordered as their
  inputs are.\<close>

theorem AmountOut_mono:
  assumes "poolProtocol p = UniswapV3 \<longrightarrow> v3_wf (v3State p)" "a \<le> b"
    and "AmountOut p (Some a) tokenIn = Ok v" "AmountOut p (Some b) tokenIn = Ok w"
  shows "v \<le> w"
proof (cases "poolProtocol p = SushiswapV2")
  case True
  obtain z where z: "direction p tokenIn = Inr z" "SwapV2 (Some a) (orientV2 p z) = Ok v"
    by (rule quote_v2[OF True assms(3)])
  moreover obtain z' where "direction p tokenIn = Inr z'" "SwapV2 (Some b) (orientV2 p z') = Ok w"
    by (rule quote_v2[OF True assms(4)])
  ultimately have "SwapV2 (Some b) (orientV2 p z) = Ok w" by simp
  then show ?thesis using z(2) v2Out_mono[of a b] assms(2) by (auto simp: SwapV2_eq swapV2_Ok_iff)
next
  case False
  then have u: "poolProtocol p = UniswapV3" using AmountOut_Ok_protocol[OF assms(3)] by blast
  obtain z where z: "direction p tokenIn = Inr z" "SwapV3 (Some a) (v3State p) z = Ok v"
    by (rule quote_v3[OF u assms(3)])
  moreover obtain z' where "direction p tokenIn = Inr z'" "SwapV3 (Some b) (v3State p) z' = Ok w"
    by (rule quote_v3[OF u assms(4)])
  ultimately have "SwapV3 (Some b) (v3State p) z = Ok w" by simp
  then show ?thesis using swapV3_mono[OF _ assms(2) z(2)] assms(1) u by blast
qed

lemma v2Pool_quotes:
  "AmountOut (v2Pool ''0xp'' ''0xa'' ''0xb'' 1000000 2000000) (Some 1000) '' 0xA'' = Ok 1992"
  "AmountOut (v2Pool ''0xp'' ''0xa'' ''0xb'' 1000000 2000000) (Some 2000) '' 0xA'' = Ok 3980"
  unfolding AmountOut_eq by code_simp+

theorem AmountOut_mono_witness:
  "poolProtocol (v2Pool ''0xp'' ''0xa'' ''0xb'' 1000000 2000000) = SushiswapV2 \<and> (1992 :: int) \<le> 3980"
  using AmountOut_mono[OF _ _ v2Pool_quotes] by (simp add: v2Pool_def)

text \<open>A quote fails for the reason the code documents: the token error exactly when the token is
  neither of the pool's two (then \<^verbatim>\<open>OtherToken\<close> has no answer either), the missing-state error only
  for a listed token of a pool whose state is not loaded, the protocol error only for a pool of
  neither protocol; a constant-product pool never panics.\<close>

theorem AmountOut_errors:
  "(AmountOut p amountIn tokenIn = Err ErrTokenNotInPool \<longleftrightarrow> OtherToken p tokenIn = None)
   \<and> (AmountOut p amountIn tokenIn = Err ErrPoolStateMissing \<longleftrightarrow>
        Has p tokenIn \<and>
        (poolProtocol p = SushiswapV2 \<and> (poolReserve0 p = None \<or> poolReserve1 p = None)
         \<or> poolProtocol p = UniswapV3 \<and> (poolSqrtPriceX96 p = None \<or> poolLiquidity p = None)))
   \<and> (AmountOut p amountIn tokenIn = Err ErrUnknownProtocol \<longleftrightarrow>
        Has p tokenIn \<and> poolProtocol p \<notin> {SushiswapV2, UniswapV3})
   \<and> \<not> (poolProtocol p = SushiswapV2 \<and> AmountOut p amountIn tokenIn = Panic)"
proof -
  have wrapped: "map_outcome_err AmmError r \<noteq> Err ErrTokenNotInPool"
    "map_outcome_err AmmError r \<noteq> Err ErrPoolStateMissing"
    "map_outcome_err AmmError r \<noteq> Err ErrUnknownProtocol" for r :: "(amm_error, int) outcome"
    by (cases r; simp)+
  have dir: "(\<exists>z. direction p tokenIn = Inr z) \<longleftrightarrow> Has p tokenIn"
    "direction p tokenIn = Inl e \<Longrightarrow> e = ErrTokenNotInPool \<and> \<not> Has p tokenIn" for e
    by (auto simp: direction_def Has_def split: if_splits)
  show ?thesis
    using dir by (cases "direction p tokenIn")
      (auto simp: AmountOut_eq quote_def wrapped OtherToken_None_iff swapV2_no_panic)
qed

text \<open>\<^verbatim>\<open>Resolve\<close> is unambiguous: it returns a registered token exactly when the reference is, up to
  case and surrounding blanks, that token's symbol or its address; no two registered tokens share a
  symbol or an address and no symbol is an address.\<close>

theorem Resolve_iff:
  "Resolve ref = Some tok \<longleftrightarrow>
     tok \<in> set Tokens \<and> (equalFold (tokSymbol tok) (trimSpace ref) \<or> addrEqual (tokAddress tok) ref)"
proof -
  let ?k = "toLower (trimSpace ref)"
  have d: "distinct (map symbolKey registry)" "distinct (map addressKey registry)"
    "symbolKey ` set registry \<inter> addressKey ` set registry = {}"
    using registry_keys_distinct by auto
  have "equalFold (tokSymbol tok) (trimSpace ref) \<longleftrightarrow> symbolKey tok = ?k"
    "addrEqual (tokAddress tok) ref \<longleftrightarrow> addressKey tok = ?k"
    by (simp_all add: equalFold_def addrEqual_iff symbolKey_def addressKey_def)
  moreover have "addressKey tok \<noteq> ?k" if "find (\<lambda>tok. symbolKey tok = ?k) registry = Some s" "tok \<in> set registry" for s
    using that d(3) unfolding find_key_Some_iff[OF d(1)] by (metis disjoint_iff image_eqI)
  moreover have "symbolKey tok \<noteq> ?k" if "find (\<lambda>tok. symbolKey tok = ?k) registry = None" "tok \<in> set registry"
    using that unfolding find_key_None_iff by (metis image_eqI)
  ultimately show ?thesis
    using find_key_Some_iff[OF d(1), of ?k tok] find_key_Some_iff[OF d(2), of ?k tok]
    by (auto simp: Resolve_def Tokens_def TokenBySymbol_eq TokenByAddress_eq split: option.split)
qed

end
