(* ===== verification/Go_Float.thy ===== *)
theory Go_Float
  imports Prelude "HOL-Library.Log_Nat"
begin

section \<open>Floating-point numbers\<close>

text \<open>
  Go's two kinds of floating-point numbers. A \<^verbatim>\<open>big.Float\<close> of precision \<open>p\<close> is \<open>(m, e)\<close>, which stands for
  \<open>m * 2\<^sup>e\<close>; an operation rounds to the nearest number with a \<open>p\<close>-bit mantissa, ties to even. A \<^verbatim>\<open>float64\<close>
  is a finite number, an infinity or not a number; its operations round the exact result in the same way at
  53 bits, down to the fixed exponent of the subnormal numbers and up to overflow. Zero has no sign here: the
  program divides by positive numbers only.
\<close>

subsection \<open>Rounding\<close>

type_synonym bigfloat = "int \<times> int"

definition roundQuot :: "int \<Rightarrow> int \<Rightarrow> int" where
  "roundQuot n d =
     (let q = n div d; r = n mod d
      in if 2 * r > d \<or> (2 * r = d \<and> odd q) then q + 1 else q)"

definition scaled :: "int \<Rightarrow> int \<Rightarrow> int \<Rightarrow> int \<times> int" where
  "scaled n d s = (if 0 \<le> s then (n * 2 ^ nat s, d) else (n, d * 2 ^ nat (- s)))"

text \<open>The quotient \<open>n / d\<close> of positive integers at \<open>p\<close> bits.\<close>

definition toPrec :: "nat \<Rightarrow> int \<Rightarrow> int \<Rightarrow> bigfloat" where
  "toPrec p n d =
     (let s = int p - (bitlen n - bitlen d);
          (n', d') = scaled n d s;
          s = (if 2 ^ p * d' \<le> n' then s - 1 else s);
          (n', d') = scaled n d s
      in (roundQuot n' d', - s))"

definition mulPrec :: "nat \<Rightarrow> bigfloat \<Rightarrow> int \<Rightarrow> bigfloat" where
  "mulPrec p f k = (case f of (m, e) \<Rightarrow> case toPrec p (m * k) 1 of (m', e') \<Rightarrow> (m', e' + e))"

definition truncFloat :: "bigfloat \<Rightarrow> int" where
  "truncFloat f = (case f of (m, e) \<Rightarrow> if 0 \<le> e then m * 2 ^ nat e else m div 2 ^ nat (- e))"

subsection \<open>The rounding error\<close>

definition fval :: "bigfloat \<Rightarrow> rat" where
  "fval f = of_int (fst f) * 2 powi snd f"

lemma roundQuot_error:
  assumes "0 < d"
  shows "\<bar>rat_of_int (roundQuot n d) - of_int n / of_int d\<bar> \<le> 1 / 2"
proof -
  have eq: "n = d * (n div d) + n mod d" by simp
  have r: "0 \<le> n mod d" "n mod d < d" using assms by simp_all
  have "2 * \<bar>d * roundQuot n d - n\<bar> \<le> d"
  proof (cases "2 * (n mod d) > d \<or> (2 * (n mod d) = d \<and> odd (n div d))")
    case True
    then have "roundQuot n d = n div d + 1" by (auto simp: roundQuot_def Let_def)
    then have "d * roundQuot n d - n = d - n mod d" using eq by (simp add: algebra_simps)
    then show ?thesis using True r by auto
  next
    case False
    then have "roundQuot n d = n div d" by (auto simp: roundQuot_def Let_def)
    then have "d * roundQuot n d - n = - (n mod d)" by (simp add: minus_mult_div_eq_mod[symmetric])
    then show ?thesis using False r by auto
  qed
  then have "rat_of_int (2 * \<bar>d * roundQuot n d - n\<bar>) \<le> of_int d" by (rule of_int_le_iff[THEN iffD2])
  then have "2 * \<bar>rat_of_int d * of_int (roundQuot n d) - of_int n\<bar> \<le> of_int d"
    by simp
  moreover have "rat_of_int (roundQuot n d) - of_int n / of_int d = (of_int d * of_int (roundQuot n d) - of_int n) / of_int d" using assms by (simp add: field_simps)
  ultimately show ?thesis using assms by (simp add: abs_divide field_simps)
qed

lemma scaled_quot:
  assumes "0 < n" "0 < d" "scaled n d s = (n', d')"
  shows "0 < n'" "0 < d'" "rat_of_int n' / of_int d' = of_int n / of_int d * 2 powi s"
proof -
  show "0 < n'" "0 < d'" using assms by (auto simp: scaled_def split: if_splits)
  show "rat_of_int n' / of_int d' = of_int n / of_int d * 2 powi s"
    using assms by (auto simp: scaled_def power_int_def field_simps split: if_splits)
qed

lemma bitlen_rat:
  assumes "0 < n"
  shows "2 powi (bitlen n - 1) \<le> rat_of_int n" "rat_of_int n < 2 powi bitlen n"
proof -
  have "1 \<le> bitlen n" using assms bitlen_eq_zero_iff[of n] bitlen_nonneg[of n] by linarith
  moreover have "rat_of_int (2 ^ nat (bitlen n - 1)) \<le> of_int n" "rat_of_int n < of_int (2 ^ nat (bitlen n))"
    using bitlen_bounds[OF assms] by (simp_all only: of_int_le_iff of_int_less_iff)
  ultimately show "2 powi (bitlen n - 1) \<le> rat_of_int n" "rat_of_int n < 2 powi bitlen n"
    by (simp_all add: power_int_def)
qed

lemma bitlen_quot:
  assumes "0 < n" "0 < d"
  shows "2 powi (bitlen n - bitlen d - 1) < rat_of_int n / of_int d" "rat_of_int n / of_int d < 2 powi (bitlen n - bitlen d + 1)"
proof -
  have "2 powi (bitlen n - 1) / 2 powi bitlen d < rat_of_int n / of_int d"
    using bitlen_rat[OF assms(1)] bitlen_rat[OF assms(2)] assms by (intro frac_less2) simp_all
  moreover have "2 powi (bitlen n - bitlen d - 1) = 2 powi (bitlen n - 1) / (2 :: rat) powi bitlen d"
    by (subst power_int_diff[symmetric]) (simp_all add: algebra_simps)
  ultimately show "2 powi (bitlen n - bitlen d - 1) < rat_of_int n / of_int d" by simp
  have "rat_of_int n / of_int d < 2 powi bitlen n / 2 powi (bitlen d - 1)"
    using bitlen_rat[OF assms(1)] bitlen_rat[OF assms(2)] assms by (intro frac_less) simp_all
  moreover have "2 powi (bitlen n - bitlen d + 1) = 2 powi bitlen n / (2 :: rat) powi (bitlen d - 1)"
    by (subst power_int_diff[symmetric]) (simp_all add: algebra_simps)
  ultimately show "rat_of_int n / of_int d < 2 powi (bitlen n - bitlen d + 1)" by simp
qed

text \<open>The scaled quotient that \<open>toPrec\<close> rounds has at least \<open>p\<close> bits before the point.\<close>

lemma toPrec_scaled:
  assumes "0 < n" "0 < d" and p: "1 \<le> p"
  obtains n1 d1 s where "toPrec p n d = (roundQuot n1 d1, - s)" "0 < d1"
    "rat_of_int n1 / of_int d1 = of_int n / of_int d * 2 powi s" "2 ^ (p - 1) \<le> rat_of_int n / of_int d * 2 powi s"
proof -
  define x where "x = rat_of_int n / of_int d"
  define s0 where "s0 = int p - (bitlen n - bitlen d)"
  obtain n0 d0 where sc0: "scaled n d s0 = (n0, d0)" by fastforce
  define s where "s = (if 2 ^ p * d0 \<le> n0 then s0 - 1 else s0)"
  obtain n1 d1 where sc1: "scaled n d s = (n1, d1)" by fastforce
  have res: "toPrec p n d = (roundQuot n1 d1, - s)"
    using sc0 sc1 by (simp add: toPrec_def Let_def s_def flip: s0_def)
  have q0: "0 < d0" "rat_of_int n0 / of_int d0 = x * 2 powi s0" and q1: "0 < d1" "rat_of_int n1 / of_int d1 = x * 2 powi s"
    using scaled_quot[OF assms(1,2) sc0] scaled_quot[OF assms(1,2) sc1] by (simp_all add: x_def)
  have "2 ^ (p - 1) \<le> x * 2 powi s"
  proof (cases "2 ^ p * d0 \<le> n0")
    case True
    then have "rat_of_int (2 ^ p * d0) \<le> of_int n0" by (simp only: of_int_le_iff)
    then have "2 ^ p \<le> rat_of_int n0 / of_int d0" using q0(1) by (simp add: field_simps)
    then have "2 ^ p \<le> x * 2 powi s0" using q0(2) by simp
    moreover have "x * 2 powi s = (x * 2 powi s0) / 2" using True by (simp add: s_def power_int_diff)
    moreover have "(2 :: rat) ^ p = 2 * 2 ^ (p - 1)" using p by (simp flip: power_Suc)
    ultimately show ?thesis by linarith
  next
    case False
    have "2 powi (bitlen n - bitlen d - 1) * 2 powi s0 \<le> x * 2 powi s0"
      using bitlen_quot(1)[OF assms(1,2)] by (intro mult_right_mono) (simp_all add: x_def)
    moreover have "2 powi (bitlen n - bitlen d - 1) * 2 powi s0 = (2 :: rat) powi (int p - 1)"
      by (simp add: s0_def flip: power_int_add)
    moreover have "(2 :: rat) powi (int p - 1) = 2 ^ (p - 1)" using p by (simp add: power_int_def nat_diff_distrib)
    ultimately show ?thesis using False by (simp add: s_def)
  qed
  then show thesis using that[OF res q1(1)] q1(2) by (simp add: x_def)
qed

lemma toPrec_error:
  assumes "0 < n" "0 < d" and p: "1 \<le> p"
  shows "\<bar>fval (toPrec p n d) - of_int n / of_int d\<bar> \<le> of_int n / of_int d / 2 ^ p" "0 < fst (toPrec p n d)"
proof -
  define x where "x = rat_of_int n / of_int d"
  obtain n1 d1 s where res: "toPrec p n d = (roundQuot n1 d1, - s)"
    and q1: "0 < d1" "rat_of_int n1 / of_int d1 = x * 2 powi s" and ge: "2 ^ (p - 1) \<le> x * 2 powi s"
    unfolding x_def by (rule toPrec_scaled[OF assms])
  have "(2 :: rat) ^ p = 2 * 2 ^ (p - 1)" using p by (simp flip: power_Suc)
  then have half: "1 / 2 \<le> x * 2 powi s / 2 ^ p" using ge by (simp add: field_simps)
  have err: "\<bar>rat_of_int (roundQuot n1 d1) - x * 2 powi s\<bar> \<le> 1 / 2" using roundQuot_error[OF q1(1), of n1] q1(2) by simp
  have "fval (toPrec p n d) - x = (of_int (roundQuot n1 d1) - x * 2 powi s) * 2 powi (- s)"
    by (simp add: res fval_def algebra_simps flip: power_int_add)
  then have "\<bar>fval (toPrec p n d) - x\<bar> = \<bar>rat_of_int (roundQuot n1 d1) - x * 2 powi s\<bar> * 2 powi (- s)"
    by (simp add: abs_mult)
  also have "\<dots> \<le> 1 / 2 * 2 powi (- s)" using err by (intro mult_right_mono) simp_all
  also have "\<dots> \<le> x * 2 powi s / 2 ^ p * 2 powi (- s)" using half by (intro mult_right_mono) simp_all
  also have "\<dots> = x / 2 ^ p" by (simp add: power_int_minus)
  finally show "\<bar>fval (toPrec p n d) - of_int n / of_int d\<bar> \<le> of_int n / of_int d / 2 ^ p" by (simp add: x_def)
  have "x * 2 powi s - rat_of_int (roundQuot n1 d1) \<le> 1 / 2" using abs_le_D2[OF err] by linarith
  moreover have "(1 :: rat) \<le> 2 ^ (p - 1)" by simp
  ultimately have "0 < rat_of_int (roundQuot n1 d1)" using ge by linarith
  then show "0 < fst (toPrec p n d)" by (simp add: res)
qed

lemma mulPrec_error:
  assumes "0 < fst f" "0 < k" and p: "1 \<le> p"
  shows "\<bar>fval (mulPrec p f k) - fval f * of_int k\<bar> \<le> fval f * of_int k / 2 ^ p" "0 < fst (mulPrec p f k)"
proof -
  obtain m e where f: "f = (m, e)" by fastforce
  have mk: "0 < m * k" using assms f by simp
  obtain m' e' where t: "toPrec p (m * k) 1 = (m', e')" by fastforce
  have eq: "fval (mulPrec p f k) = fval (m', e') * 2 powi e"
    by (simp add: mulPrec_def f t fval_def power_int_add)
  have "\<bar>fval (m', e') - of_int (m * k)\<bar> * 2 powi e \<le> of_int (m * k) / 2 ^ p * 2 powi e"
    using toPrec_error(1)[OF mk _ p, of 1] t by (intro mult_right_mono) simp_all
  moreover have "fval (m', e') * 2 powi e - fval f * of_int k = (fval (m', e') - of_int (m * k)) * 2 powi e"
    by (simp add: f fval_def[of "(m, e)"] algebra_simps)
  ultimately show "\<bar>fval (mulPrec p f k) - fval f * of_int k\<bar> \<le> fval f * of_int k / 2 ^ p"
    unfolding eq by (simp add: f fval_def[of "(m, e)"] abs_mult mult.assoc mult.left_commute mult.commute)
  show "0 < fst (mulPrec p f k)" using toPrec_error(2)[OF mk _ p, of 1] by (simp add: mulPrec_def f t)
qed

lemma truncFloat_floor: "truncFloat f = \<lfloor>fval f\<rfloor>"
proof -
  obtain m e where f: "f = (m, e)" by fastforce
  have "rat_of_int m * 2 powi e = of_int m / of_int (2 ^ nat (- e))" if "e < 0"
    using that by (simp add: power_int_def field_simps)
  moreover have "rat_of_int m * 2 powi e = of_int (m * 2 ^ nat e)" if "0 \<le> e"
    using that by (simp add: power_int_def)
  ultimately show ?thesis
    by (cases "0 \<le> e") (simp_all only: truncFloat_def f fval_def fst_conv snd_conv prod.case if_P if_not_P not_le
        floor_of_int floor_divide_of_int_eq not_less)
qed

subsection \<open>\<^verbatim>\<open>float64\<close>\<close>

datatype gofloat = Fin rat | PosInf | NegInf | NaN

text \<open>\<open>x <= 0\<close>; every comparison with a NaN is false.\<close>

fun nonPositive :: "gofloat \<Rightarrow> bool" where
  "nonPositive (Fin r) = (r \<le> 0)"
| "nonPositive PosInf = False"
| "nonPositive NegInf = True"
| "nonPositive NaN = False"

text \<open>Comparisons.\<close>

fun fless :: "gofloat \<Rightarrow> gofloat \<Rightarrow> bool" where
  "fless (Fin a) (Fin b) = (a < b)"
| "fless (Fin _) PosInf = True"
| "fless NegInf (Fin _) = True"
| "fless NegInf PosInf = True"
| "fless _ _ = False"

fun fleq :: "gofloat \<Rightarrow> gofloat \<Rightarrow> bool" where
  "fleq (Fin a) (Fin b) = (a \<le> b)"
| "fleq NaN _ = False"
| "fleq _ NaN = False"
| "fleq x y = (x = NegInf \<or> y = PosInf)"

text \<open>The nearest \<^verbatim>\<open>float64\<close>: 53 bits from \<open>2\<^sup>-\<^sup>1\<^sup>0\<^sup>2\<^sup>2\<close> on, multiples of \<open>2\<^sup>-\<^sup>1\<^sup>0\<^sup>7\<^sup>4\<close> below, overflow at
  \<open>2\<^sup>1\<^sup>0\<^sup>2\<^sup>4\<close>.\<close>

definition minNormal :: rat where "minNormal = 1 / 2 ^ 1022"

definition maxFloat :: rat where "maxFloat = 2 ^ 1024"

definition roundMag :: "rat \<Rightarrow> rat" where
  "roundMag x =
     (case quotient_of x of (n, d) \<Rightarrow>
      if x < minNormal then of_int (roundQuot (n * 2 ^ 1074) d) / 2 ^ 1074
      else fval (toPrec 53 n d))"

definition roundFloat :: "rat \<Rightarrow> gofloat" where
  "roundFloat x =
     (if x = 0 then Fin 0
      else let v = roundMag \<bar>x\<bar>
           in if maxFloat \<le> v then (if x < 0 then NegInf else PosInf) else Fin (sgn x * v))"

fun fsgn :: "gofloat \<Rightarrow> rat" where
  "fsgn (Fin a) = sgn a"
| "fsgn PosInf = 1"
| "fsgn NegInf = -1"
| "fsgn NaN = 0"

definition infBy :: "rat \<Rightarrow> gofloat" where
  "infBy s = (if 0 < s then PosInf else if s < 0 then NegInf else NaN)"

fun fneg :: "gofloat \<Rightarrow> gofloat" where
  "fneg (Fin a) = Fin (- a)"
| "fneg PosInf = NegInf"
| "fneg NegInf = PosInf"
| "fneg NaN = NaN"

fun fadd :: "gofloat \<Rightarrow> gofloat \<Rightarrow> gofloat" where
  "fadd (Fin a) (Fin b) = roundFloat (a + b)"
| "fadd NaN _ = NaN"
| "fadd _ NaN = NaN"
| "fadd (Fin _) y = y"
| "fadd x (Fin _) = x"
| "fadd x y = (if x = y then x else NaN)"

definition fsub :: "gofloat \<Rightarrow> gofloat \<Rightarrow> gofloat" where "fsub x y = fadd x (fneg y)"

fun fmul :: "gofloat \<Rightarrow> gofloat \<Rightarrow> gofloat" where
  "fmul (Fin a) (Fin b) = roundFloat (a * b)"
| "fmul NaN _ = NaN"
| "fmul _ NaN = NaN"
| "fmul x y = infBy (fsgn x * fsgn y)"

fun fdiv :: "gofloat \<Rightarrow> gofloat \<Rightarrow> gofloat" where
  "fdiv (Fin a) (Fin b) = (if b = 0 then infBy a else roundFloat (a / b))"
| "fdiv NaN _ = NaN"
| "fdiv _ NaN = NaN"
| "fdiv (Fin _) _ = Fin 0"
| "fdiv x (Fin b) = (if b = 0 then x else infBy (fsgn x * sgn b))"
| "fdiv _ _ = NaN"

text \<open>So that the code reads as it is written, the operators are the library's, with no law claimed of them: comparing with NaN
  is no order, and rounding is not associative.\<close>

instantiation gofloat :: "{ord, zero, one, plus, minus, uminus, times, inverse}"
begin

definition less_gofloat :: "gofloat \<Rightarrow> gofloat \<Rightarrow> bool" where [simp]: "less_gofloat = fless"

definition less_eq_gofloat :: "gofloat \<Rightarrow> gofloat \<Rightarrow> bool" where [simp]: "less_eq_gofloat = fleq"

definition zero_gofloat :: gofloat where [simp]: "zero_gofloat = Fin 0"

definition one_gofloat :: gofloat where [simp]: "one_gofloat = Fin 1"

definition plus_gofloat :: "gofloat \<Rightarrow> gofloat \<Rightarrow> gofloat" where [simp]: "plus_gofloat = fadd"

definition minus_gofloat :: "gofloat \<Rightarrow> gofloat \<Rightarrow> gofloat" where [simp]: "minus_gofloat = fsub"

definition uminus_gofloat :: "gofloat \<Rightarrow> gofloat" where [simp]: "uminus_gofloat = fneg"

definition times_gofloat :: "gofloat \<Rightarrow> gofloat \<Rightarrow> gofloat" where [simp]: "times_gofloat = fmul"

definition divide_gofloat :: "gofloat \<Rightarrow> gofloat \<Rightarrow> gofloat" where [simp]: "divide_gofloat = fdiv"

definition inverse_gofloat :: "gofloat \<Rightarrow> gofloat" where [simp]: "inverse_gofloat = fdiv (Fin 1)"

instance ..

end

lemmas float_ops = less_gofloat_def less_eq_gofloat_def zero_gofloat_def one_gofloat_def plus_gofloat_def minus_gofloat_def
  uminus_gofloat_def times_gofloat_def divide_gofloat_def

definition floatOfInt :: "int \<Rightarrow> gofloat" where "floatOfInt n = roundFloat (of_int n)"

text \<open>\<^verbatim>\<open>Duration.Seconds\<close>.\<close>

definition durationSeconds :: "int \<Rightarrow> gofloat" where
  "durationSeconds d = floatOfInt (d sdiv 1000000000) + floatOfInt (d smod 1000000000) / Fin 1000000000"

text \<open>A conversion to an integer truncates. What it gives outside the range of the integer type depends on the
  machine: the argument \<open>conv\<close>.\<close>

definition truncRat :: "rat \<Rightarrow> int" where
  "truncRat r = (if r < 0 then \<lceil>r\<rceil> else \<lfloor>r\<rfloor>)"

definition floatToInt :: "(int \<Rightarrow> bool) \<Rightarrow> (gofloat \<Rightarrow> int) \<Rightarrow> gofloat \<Rightarrow> int" where
  "floatToInt inRange conv f = (case f of Fin r \<Rightarrow> if inRange (truncRat r) then truncRat r else conv f | _ \<Rightarrow> conv f)"

subsection \<open>How far an operation is off\<close>

lemma roundMag_normal:
  assumes "minNormal \<le> x"
  shows "\<bar>roundMag x - x\<bar> \<le> x / 2 ^ 53" "0 < roundMag x"
proof -
  obtain n d where q: "quotient_of x = (n, d)" by fastforce
  have x: "x = of_int n / of_int d" "0 < d" using quotient_of_div[OF q] quotient_of_denom_pos[OF q] by simp_all
  have "0 < x" using assms by (simp add: minNormal_def less_le_trans[of 0 "1 / 2 ^ 1022"])
  then have n: "0 < n" using x by (simp add: zero_less_divide_iff)
  have eq: "roundMag x = fval (toPrec 53 n d)" using assms by (simp add: roundMag_def q)
  show "\<bar>roundMag x - x\<bar> \<le> x / 2 ^ 53" using toPrec_error(1)[OF n x(2), of 53] by (simp add: eq flip: x(1))
  show "0 < roundMag x" using toPrec_error(2)[OF n x(2), of 53] by (simp add: eq fval_def)
qed

lemma roundMag_subnormal:
  assumes "0 \<le> x" "x < minNormal"
  shows "\<bar>roundMag x - x\<bar> \<le> 1 / 2 ^ 1075" "0 \<le> roundMag x"
proof -
  obtain n d where q: "quotient_of x = (n, d)" by fastforce
  have x: "x = of_int n / of_int d" "0 < d" using quotient_of_div[OF q] quotient_of_denom_pos[OF q] by simp_all
  have n: "0 \<le> n" using x assms(1) by (simp add: zero_le_divide_iff)
  define c :: rat where "c = 2 ^ 1074"
  have c: "0 < c" "rat_of_int (2 ^ 1074) = c" "(2 :: rat) ^ 1075 = 2 * c" unfolding c_def by (simp_all only: power_Suc of_int_power of_int_numeral flip: power_Suc) simp_all
  define m where "m = roundQuot (n * 2 ^ 1074) d"
  have eq: "roundMag x = of_int m / c" using assms by (simp only: roundMag_def q c_def m_def prod.case if_True)
  have "\<bar>of_int m - x * c\<bar> \<le> 1 / 2"
    using roundQuot_error[OF x(2), of "n * 2 ^ 1074"] unfolding x(1) of_int_mult c(2) m_def[symmetric] by (simp add: mult.commute)
  then have "\<bar>of_int m - x * c\<bar> / c \<le> 1 / 2 / c" using c(1) by (intro divide_right_mono) simp_all
  moreover have "roundMag x - x = (of_int m - x * c) / c" using c(1) by (simp add: eq field_simps)
  ultimately have "\<bar>roundMag x - x\<bar> \<le> 1 / 2 / c" using c(1) by (simp add: abs_divide)
  then show "\<bar>roundMag x - x\<bar> \<le> 1 / 2 ^ 1075" by (simp only: c(3) divide_divide_eq_left mult.commute)
  have "0 \<le> n * 2 ^ 1074" using n by (rule mult_nonneg_nonneg) simp
  then have "0 \<le> m" unfolding m_def using x(2) by (auto simp: roundQuot_def Let_def pos_imp_zdiv_nonneg_iff simp del: power_numeral)
  then show "0 \<le> roundMag x" using c(1) by (simp add: eq)
qed

text \<open>A result that does not overflow is finite, at least zero when the exact one is, and off by a relative
  \<open>2\<^sup>-\<^sup>5\<^sup>3\<close>, plus half the smallest subnormal number below the normal range.\<close>

definition ulp :: rat where "ulp = 1 / 2 ^ 53"

definition tiny :: rat where "tiny = 1 / 2 ^ 1075"

lemma roundMag_error:
  assumes "0 \<le> x"
  shows "\<bar>roundMag x - x\<bar> \<le> x * ulp + tiny" "0 \<le> roundMag x"
proof -
  have scale: "x / 2 ^ 53 = x * ulp" by (simp add: ulp_def)
  have "0 \<le> tiny" "0 \<le> x * ulp" using assms by (simp_all add: tiny_def ulp_def)
  then show "\<bar>roundMag x - x\<bar> \<le> x * ulp + tiny" "0 \<le> roundMag x"
    using roundMag_normal[of x] roundMag_subnormal[OF assms] unfolding ulp_def[symmetric] tiny_def[symmetric] scale
    by (cases "minNormal \<le> x"; linarith)+
qed

lemma ulp_small: "0 < ulp" "ulp \<le> 1 / 8" "0 < tiny" "tiny \<le> ulp"
proof -
  show "0 < ulp" "ulp \<le> 1 / 8" "0 < tiny" by (simp_all add: ulp_def tiny_def)
  show "tiny \<le> ulp" unfolding ulp_def tiny_def by (intro divide_left_mono power_increasing mult_pos_pos) simp_all
qed

lemma half_maxFloat: "2 * 2 ^ 1023 = maxFloat" "(1 :: rat) \<le> 2 ^ 1023"
  unfolding maxFloat_def by (simp_all only: power_Suc[symmetric] one_le_power numeral_eq_Suc(1) flip: power_Suc) simp_all

lemma roundFloat_error:
  assumes "0 \<le> x" "x \<le> 2 ^ 1023"
  obtains y where "roundFloat x = Fin y" "0 \<le> y" "\<bar>y - x\<bar> \<le> x * ulp + tiny"
proof (cases "x = 0")
  case True
  then show thesis using that[of 0] ulp_small(3) by (simp add: roundFloat_def)
next
  case False
  define c :: rat where "c = 2 ^ 1023"
  have c: "x \<le> c" "1 \<le> c" "2 * c = maxFloat" using assms(2) half_maxFloat by (simp_all only: c_def)
  have "x * ulp \<le> x * (1 / 8)" using assms(1) ulp_small(2) by (rule mult_left_mono[rotated])
  then have "roundMag x < maxFloat"
    using abs_le_D1[OF roundMag_error(1)[OF assms(1)]] ulp_small c by linarith
  then show thesis
    using that[of "roundMag x"] False assms(1) roundMag_error[OF assms(1)] by (simp add: roundFloat_def Let_def)
qed

lemma roundFloat_normal:
  assumes "minNormal \<le> x" "x \<le> 2 ^ 1023"
  obtains y where "roundFloat x = Fin y" "0 < y" "\<bar>y - x\<bar> \<le> x * ulp"
proof -
  have x: "0 < x" using assms(1) by (rule less_le_trans[rotated]) (simp add: minNormal_def)
  obtain y where y: "roundFloat x = Fin y" using roundFloat_error[OF less_imp_le[OF x] assms(2)] by blast
  then have "y = roundMag x" using x by (auto simp: roundFloat_def Let_def split: if_splits)
  then show thesis using that[OF y] roundMag_normal[OF assms(1)] by (simp add: ulp_def)
qed

text \<open>Integers of up to 53 bits are exact.\<close>

lemma floatOfInt_exact:
  assumes "0 \<le> n" "n < 2 ^ 53"
  shows "floatOfInt n = Fin (of_int n)"
proof (cases "n = 0")
  case False
  then have n: "0 < n" using assms(1) by simp
  define b where "b = bitlen n"
  have b: "1 \<le> b" "b \<le> 53"
    using bitlen_le_iff_power[of n 53] n assms(2) bitlen_eq_zero_iff[of n] bitlen_nonneg[of n] by (simp_all add: b_def)
  have ge: "2 ^ nat (b - 1) \<le> n" using bitlen_bounds[OF n] by (simp add: b_def)
  have "2 ^ nat (b - 1) * 2 ^ nat (54 - b) = (2 :: int) ^ 53"
    using b by (simp add: nat_diff_distrib flip: power_add)
  then have big: "2 ^ 53 \<le> n * 2 ^ nat (54 - b)" using mult_right_mono[OF ge, of "2 ^ nat (54 - b)"] by simp
  have one: "bitlen 1 = 1" by (simp add: bitlen_def floorlog_def)
  have "toPrec 53 n 1 = (n * 2 ^ nat (53 - b), b - 53)"
    using b big one by (simp add: toPrec_def scaled_def Let_def roundQuot_def flip: b_def)
  then have "fval (toPrec 53 n 1) = of_int n" using b by (simp add: fval_def power_int_def field_simps)
  moreover have "minNormal \<le> rat_of_int n"
  proof -
    have "minNormal \<le> 1" by (simp add: minNormal_def)
    then show ?thesis using n by (meson dual_order.trans int_one_le_iff_zero_less of_int_1_le_iff)
  qed
  moreover have "rat_of_int n < maxFloat"
  proof -
    have "rat_of_int n < of_int (2 ^ 53)" using assms(2) by (simp only: of_int_less_iff)
    also have "rat_of_int (2 ^ 53) \<le> maxFloat" unfolding maxFloat_def of_int_power of_int_numeral by (intro power_increasing) simp_all
    finally show ?thesis .
  qed
  ultimately show ?thesis using n by (simp add: floatOfInt_def roundFloat_def roundMag_def Let_def)
qed (simp add: floatOfInt_def roundFloat_def)

end
