(* ===== verification/Api_Amount.thy ===== *)
theory Api_Amount
  imports Dex_Pool Go_Decimal Go_Float
begin

section \<open>Amounts in requests (\<^verbatim>\<open>internal/api/quote.go\<close>)\<close>

text \<open>
  An amount is written in base units, or with a decimal point in whole tokens. The second form goes
  through \<^verbatim>\<open>big.Float\<close> at its default precision of 64 bits: \<open>(m, e)\<close> stands for \<open>m * 2\<^sup>e\<close>, and every
  operation rounds to the nearest such number with a 64-bit mantissa, ties to even. The plain notation
  (sign, digits, point, digits) is modelled; the other notations of \<^verbatim>\<open>SetString\<close> (exponents, other bases,
  underscores) are the parameter \<open>other\<close>. Up to 55 digits after the point \<^verbatim>\<open>SetString\<close> rounds once, as here.
\<close>

text \<open>A plain decimal as sign, numerator and denominator.\<close>

definition plainDecimal :: "string \<Rightarrow> (bool \<times> int \<times> int) option" where
  "plainDecimal s =
     (let neg = (s \<noteq> [] \<and> hd s = CHR ''-'');
          s = (if s \<noteq> [] \<and> (hd s = CHR ''-'' \<or> hd s = CHR ''+'') then tl s else s);
          whole = takeWhile (\<lambda>c. c \<noteq> CHR ''.'') s;
          frac = drop (Suc (length whole)) s
      in if whole @ frac = [] then None
         else case digitsFrom 0 (whole @ frac) of
                None \<Rightarrow> None
              | Some n \<Rightarrow> Some (neg, int n, 10 ^ length frac))"

text \<open>\<^verbatim>\<open>new(big.Float).SetString\<close>, as sign and magnitude.\<close>

definition floatSetString :: "(string \<Rightarrow> (bool \<times> bigfloat) option) \<Rightarrow> string \<Rightarrow> (bool \<times> bigfloat) option" where
  "floatSetString other s =
     (case plainDecimal s of
        Some (neg, n, d) \<Rightarrow> Some (neg, if n = 0 then (0, 0) else toPrec 64 n d)
      | None \<Rightarrow> other s)"

definition pow10 :: "nat \<Rightarrow> int" where "pow10 n = 10 ^ n"

datatype amount_error = AmountRequired | NotPositiveNumber | RoundsToZero | AmountNotInteger | AmountNotPositive

definition parseAmount :: "(string \<Rightarrow> (bool \<times> bigfloat) option) \<Rightarrow> string \<Rightarrow> token \<Rightarrow> amount_error + int" where
  "parseAmount other raw tok =
     (let raw = trimSpace raw
      in if raw = [] then Inl AmountRequired
         else if CHR ''.'' \<in> set raw then
           (case floatSetString other raw of
              None \<Rightarrow> Inl NotPositiveNumber
            | Some (neg, f) \<Rightarrow>
                if neg \<or> fst f = 0 then Inl NotPositiveNumber
                else
                  let f = mulPrec 64 f (pow10 (tokDecimals tok));
                      out = truncFloat f
                  in if out \<le> 0 then Inl RoundsToZero else Inr out)
         else case setString raw of
                None \<Rightarrow> Inl AmountNotInteger
              | Some n \<Rightarrow> if n \<le> 0 then Inl AmountNotPositive else Inr n)"

text \<open>The texts of the errors.\<close>

definition amountErrorText :: "string \<Rightarrow> token \<Rightarrow> amount_error \<Rightarrow> string" where
  "amountErrorText raw tok e =
     (let raw = trimSpace raw
      in case e of
           AmountRequired \<Rightarrow> ''amountIn is required, in the token's base units''
         | NotPositiveNumber \<Rightarrow> goQuote raw @ '' is not a positive number''
         | RoundsToZero \<Rightarrow> raw @ '' '' @ tokSymbol tok @ '' rounds to zero at '' @ natString (tokDecimals tok) @ '' decimals''
         | AmountNotInteger \<Rightarrow> goQuote raw @ '' is not an integer amount in base units''
         | AmountNotPositive \<Rightarrow> ''amountIn must be positive'')"

lemma amountErrorText_nonempty: "amountErrorText raw tok e \<noteq> []"
  by (cases e) (simp_all add: amountErrorText_def goQuote_def Let_def)

lemma plainDecimal_pos: "plainDecimal s = Some (neg, n, d) \<Longrightarrow> 0 \<le> n \<and> 0 < d"
  by (auto simp: plainDecimal_def Let_def split: if_splits option.splits)

text \<open>Two roundings and a truncation.\<close>

lemma amount_error:
  assumes "0 < n" "0 < d" "0 < k"
  shows "\<bar>rat_of_int (truncFloat (mulPrec 64 (toPrec 64 n d) k)) - of_int n / of_int d * of_int k\<bar>
    < 1 + of_int n / of_int d * of_int k / 2 ^ 62"
proof -
  define x y z :: rat where "x = of_int n / of_int d * of_int k" and "y = fval (toPrec 64 n d) * of_int k" and "z = fval (mulPrec 64 (toPrec 64 n d) k)"
  have x: "0 < x" using assms by (simp add: x_def)
  have "\<bar>fval (toPrec 64 n d) - of_int n / of_int d\<bar> * of_int k \<le> of_int n / of_int d / 2 ^ 64 * of_int k"
    using toPrec_error(1)[OF assms(1,2), of 64] assms(3) by (intro mult_right_mono) simp_all
  moreover have "y - x = (fval (toPrec 64 n d) - of_int n / of_int d) * of_int k" by (simp add: x_def y_def algebra_simps)
  ultimately have yx: "\<bar>y - x\<bar> \<le> x / 2 ^ 64" using assms(3) by (simp add: abs_mult x_def)
  have zy: "\<bar>z - y\<bar> \<le> y / 2 ^ 64"
    using mulPrec_error(1)[OF toPrec_error(2)[OF assms(1,2), of 64] assms(3), of 64] by (simp add: y_def z_def)
  have "x / 2 ^ 64 \<le> x" using x by simp
  then have "y \<le> 2 * x" using abs_le_D1[OF yx] by linarith
  then have "y / 2 ^ 64 \<le> 2 * (x / 2 ^ 64)" by simp
  moreover have "x / 2 ^ 62 = 4 * (x / 2 ^ 64)" "0 < x / 2 ^ 64" using x by simp_all
  moreover have "\<bar>z - x\<bar> \<le> \<bar>z - y\<bar> + \<bar>y - x\<bar>" by linarith
  ultimately have "\<bar>z - x\<bar> \<le> x / 2 ^ 62" using yx zy by linarith
  moreover have "rat_of_int \<lfloor>z\<rfloor> \<le> z" "z < rat_of_int \<lfloor>z\<rfloor> + 1" by linarith+
  ultimately show ?thesis unfolding truncFloat_floor z_def[symmetric] x_def[symmetric] by linarith
qed

subsection \<open>Properties\<close>

text \<open>C31. The amount of a request is never misread by more than rounding: an amount in base units is taken
  exactly and is positive; a decimal amount is the number written times the token's unit, up to one base unit
  and a relative error of \<open>2\<^sup>-\<^sup>6\<^sup>2\<close>, for every length and every number of decimals.\<close>

theorem parseAmount_accuracy:
  assumes "parseAmount other raw tok = Inr out"
  shows "0 < out \<and>
    (if CHR ''.'' \<in> set (trimSpace raw)
     then \<forall>neg n d. plainDecimal (trimSpace raw) = Some (neg, n, d) \<longrightarrow>
            \<not> neg \<and> \<bar>rat_of_int out - of_int n / of_int d * 10 ^ tokDecimals tok\<bar> < 1 + of_int n / of_int d * 10 ^ tokDecimals tok / 2 ^ 62
     else setString (trimSpace raw) = Some out)"
proof (cases "CHR ''.'' \<in> set (trimSpace raw)")
  case True
  have "\<not> neg \<and> \<bar>rat_of_int out - of_int n / of_int d * 10 ^ tokDecimals tok\<bar> < 1 + of_int n / of_int d * 10 ^ tokDecimals tok / 2 ^ 62"
    if p: "plainDecimal (trimSpace raw) = Some (neg, n, d)" for neg n d
  proof -
    have "\<not> neg" "n \<noteq> 0" "out = truncFloat (mulPrec 64 (toPrec 64 n d) (pow10 (tokDecimals tok)))"
      using assms True p by (auto simp: parseAmount_def floatSetString_def Let_def split: if_splits)
    then show ?thesis
      using amount_error[of n d "pow10 (tokDecimals tok)"] plainDecimal_pos[OF p] by (simp add: pow10_def)
  qed
  moreover have "0 < out" using assms True by (auto simp: parseAmount_def Let_def split: if_splits option.splits prod.splits)
  ultimately show ?thesis using True by auto
next
  case False
  then show ?thesis using assms by (auto simp: parseAmount_def Let_def split: if_splits option.splits)
qed

theorem parseAmount_accuracy_witness:
  "parseAmount (\<lambda>_. None) '' 2.5'' (registry ! 1) = Inr 2500000 \<and> \<bar>rat_of_int 2500000 - 25 / 10 * 10 ^ 6\<bar> < 1 + 25 / 10 * 10 ^ 6 / 2 ^ 62"
proof -
  have r: "parseAmount (\<lambda>_. None) '' 2.5'' (registry ! 1) = Inr 2500000" by code_simp
  have p: "CHR ''.'' \<in> set (trimSpace '' 2.5'')" "plainDecimal (trimSpace '' 2.5'') = Some (False, 25, 10)"
    "tokDecimals (registry ! 1) = 6" by code_simp+
  show ?thesis using parseAmount_accuracy[OF r] p r by simp
qed

text \<open>A flaw: decimal amounts the token can represent exactly are not always taken exactly. 64 bits do not
  hold most decimal fractions, and truncating the product then loses a unit: 1.3 WBTC is read as 129999999
  base units, 2.1 WETH as 2099999999999999999, 16.3 USDC as 16299999.\<close>

theorem parseAmount_loses_unit:
  "map_option (parseAmount other ''1.3'') (TokenBySymbol ''WBTC'') = Some (Inr 129999999)
   \<and> map_option (parseAmount other ''2.1'') (TokenBySymbol ''WETH'') = Some (Inr 2099999999999999999)
   \<and> map_option (parseAmount other ''16.3'') (TokenBySymbol ''USDC'') = Some (Inr 16299999)"
  by code_simp

end
