(* ===== verification/Graph_Snapshot.thy ===== *)
theory Graph_Snapshot
  imports Dex_Pool
begin

section \<open>The routable graph (\<^verbatim>\<open>internal/graph/snapshot.go\<close>)\<close>

text \<open>
  A snapshot numbers the tokens of the usable pools and keeps, for every token, the edges that leave
  it. \<open>BuildSnapshot\<close> processes the pools in order; a pool that cannot be quoted is skipped. The
  slices a snapshot is made of are only ever indexed with numbers it handed out itself; the
  invariant \<open>snapshot_wf\<close>, which every built snapshot satisfies, is what makes those accesses in
  range, so they are written \<open>!\<close>. A time is its nanosecond count.
\<close>

record edgeRef =
  ePool :: nat
  eFrom :: nat
  eTo :: nat

record edge =
  edgePool :: pool
  edgeFrom :: string
  edgeTo :: string

record snapshot =
  snTokens :: "token list"
  snIndex :: "string \<Rightarrow> nat option"
  snPools :: "pool list"
  snAdj :: "edgeRef list list"
  snEdges :: nat
  snBuiltAt :: int

definition normalize :: "string \<Rightarrow> string" where
  "normalize address = toLower (trimSpace address)"

definition usable :: "pool \<Rightarrow> bool" where
  "usable p =
     (if tokAddress (poolToken0 p) = [] \<or> tokAddress (poolToken1 p) = [] then False
      else if equalFold (tokAddress (poolToken0 p)) (tokAddress (poolToken1 p)) then False
      else if poolProtocol p = SushiswapV2 then isPositive (poolReserve0 p) \<and> isPositive (poolReserve1 p)
      else if poolProtocol p = UniswapV3 then isPositive (poolSqrtPriceX96 p) \<and> isPositive (poolLiquidity p)
      else False)"

text \<open>\<open>None\<close> is the answer \<^verbatim>\<open>false\<close>; otherwise the pool as \<^verbatim>\<open>prepare\<close> leaves it.\<close>

definition prepare :: "pool \<Rightarrow> pool option" where
  "prepare p =
     (if poolProtocol p \<noteq> UniswapV3 then Some p
      else case PrepareTicks (poolTicks p) of
             Inl _ \<Rightarrow> None
           | Inr ticks \<Rightarrow> Some (p\<lparr>poolTicks := ticks\<rparr>))"

definition intern :: "snapshot \<Rightarrow> token \<Rightarrow> nat \<times> snapshot" where
  "intern s t =
     (let key = normalize (tokAddress t)
      in case snIndex s key of
           Some i \<Rightarrow> (i, s)
         | None \<Rightarrow>
             let s = s\<lparr>snTokens := snTokens s @ [t]\<rparr>;
                 i = length (snTokens s) - 1;
                 s = s\<lparr>snIndex := (snIndex s)(key \<mapsto> i)\<rparr>;
                 s = s\<lparr>snAdj := snAdj s @ [[]]\<rparr>
             in (i, s))"

definition addEdge :: "snapshot \<Rightarrow> edgeRef \<Rightarrow> snapshot" where
  "addEdge s e = s\<lparr>snAdj := (snAdj s)[eFrom e := snAdj s ! eFrom e @ [e]], snEdges := snEdges s + 1\<rparr>"

text \<open>The body of the loop over the pools.\<close>

definition addPool :: "snapshot \<Rightarrow> pool \<Rightarrow> snapshot" where
  "addPool s p =
     (if \<not> usable p then s
      else case prepare p of
        None \<Rightarrow> s
      | Some p \<Rightarrow>
          let s = s\<lparr>snPools := snPools s @ [p]\<rparr>;
              poolIdx = length (snPools s) - 1;
              (a, s) = intern s (poolToken0 p);
              (b, s) = intern s (poolToken1 p);
              s = addEdge s \<lparr>ePool = poolIdx, eFrom = a, eTo = b\<rparr>
          in addEdge s \<lparr>ePool = poolIdx, eFrom = b, eTo = a\<rparr>)"

definition emptySnapshot :: "int \<Rightarrow> snapshot" where
  "emptySnapshot builtAt = \<lparr>snTokens = [], snIndex = Map.empty, snPools = [], snAdj = [], snEdges = 0, snBuiltAt = builtAt\<rparr>"

definition BuildSnapshot :: "pool list \<Rightarrow> int \<Rightarrow> snapshot" where
  "BuildSnapshot pools builtAt = foldl addPool (emptySnapshot builtAt) pools"

definition TokenCount :: "snapshot \<Rightarrow> nat" where "TokenCount s = length (snTokens s)"

definition EdgeCount :: "snapshot \<Rightarrow> nat" where "EdgeCount s = snEdges s"

definition BuiltAt :: "snapshot \<Rightarrow> int" where "BuiltAt s = snBuiltAt s"

definition Age :: "int \<Rightarrow> snapshot \<Rightarrow> int" where "Age now s = now - snBuiltAt s"

definition snapshotPools :: "snapshot \<Rightarrow> pool list" where "snapshotPools s = snPools s"

definition snapshotTokens :: "snapshot \<Rightarrow> token list" where "snapshotTokens s = snTokens s"

definition Token :: "snapshot \<Rightarrow> string \<Rightarrow> token option" where
  "Token s address = (case snIndex s (normalize address) of None \<Rightarrow> None | Some i \<Rightarrow> Some (snTokens s ! i))"

definition EdgesFrom :: "snapshot \<Rightarrow> string \<Rightarrow> edge list" where
  "EdgesFrom s address =
     (case snIndex s (normalize address) of
        None \<Rightarrow> []
      | Some i \<Rightarrow>
          map (\<lambda>r. \<lparr>edgePool = snPools s ! ePool r,
                    edgeFrom = tokAddress (snTokens s ! eFrom r),
                    edgeTo = tokAddress (snTokens s ! eTo r)\<rparr>) (snAdj s ! i))"

definition tokenIndex :: "snapshot \<Rightarrow> string \<Rightarrow> nat option" where
  "tokenIndex s address = snIndex s (normalize address)"

subsection \<open>The invariant\<close>

abbreviation tokKey :: "token \<Rightarrow> string" where
  "tokKey t \<equiv> normalize (tokAddress t)"

definition index_ok :: "snapshot \<Rightarrow> bool" where
  "index_ok s \<longleftrightarrow> length (snAdj s) = length (snTokens s) \<and>
     (\<forall>k i. snIndex s k = Some i \<longleftrightarrow> i < length (snTokens s) \<and> tokKey (snTokens s ! i) = k)"

definition edge_ok :: "snapshot \<Rightarrow> nat \<Rightarrow> edgeRef \<Rightarrow> bool" where
  "edge_ok s i e \<longleftrightarrow> eFrom e = i \<and> eTo e < length (snTokens s) \<and> ePool e < length (snPools s) \<and>
     (let p = snPools s ! ePool e; f = tokKey (snTokens s ! i); t = tokKey (snTokens s ! eTo e)
      in f = tokKey (poolToken0 p) \<and> t = tokKey (poolToken1 p)
         \<or> f = tokKey (poolToken1 p) \<and> t = tokKey (poolToken0 p))"

definition edges_ok :: "snapshot \<Rightarrow> bool" where
  "edges_ok s \<longleftrightarrow> (\<forall>i < length (snTokens s). \<forall>e \<in> set (snAdj s ! i). edge_ok s i e)"

definition pool_linked :: "snapshot \<Rightarrow> nat \<Rightarrow> bool" where
  "pool_linked s j \<longleftrightarrow>
     (\<exists>a b. snIndex s (tokKey (poolToken0 (snPools s ! j))) = Some a
        \<and> snIndex s (tokKey (poolToken1 (snPools s ! j))) = Some b
        \<and> \<lparr>ePool = j, eFrom = a, eTo = b\<rparr> \<in> set (snAdj s ! a)
        \<and> \<lparr>ePool = j, eFrom = b, eTo = a\<rparr> \<in> set (snAdj s ! b))"

definition count_ok :: "snapshot \<Rightarrow> bool" where
  "count_ok s \<longleftrightarrow> snEdges s = sum_list (map length (snAdj s)) \<and> snEdges s = 2 * length (snPools s)"

definition snapshot_wf :: "snapshot \<Rightarrow> bool" where
  "snapshot_wf s \<longleftrightarrow> index_ok s \<and> edges_ok s \<and> count_ok s
     \<and> (\<forall>j < length (snPools s). pool_linked s j)"

lemma index_okD:
  assumes "index_ok s"
  shows "length (snAdj s) = length (snTokens s)"
    and "snIndex s k = Some i \<longleftrightarrow> i < length (snTokens s) \<and> tokKey (snTokens s ! i) = k"
  using assms by (auto simp: index_ok_def)

text \<open>\<open>s'\<close> extends \<open>s\<close>: tokens keep their number and their edges.\<close>

definition extends :: "snapshot \<Rightarrow> snapshot \<Rightarrow> bool" where
  "extends s s' \<longleftrightarrow> (\<exists>ts. snTokens s' = snTokens s @ ts) \<and> (\<exists>ps. snPools s' = snPools s @ ps)
     \<and> (\<forall>k i. snIndex s k = Some i \<longrightarrow> snIndex s' k = Some i)
     \<and> (\<forall>i < length (snTokens s). set (snAdj s ! i) \<subseteq> set (snAdj s' ! i))"

lemma extends_refl [simp]: "extends s s"
  by (simp add: extends_def)

lemma extends_trans:
  assumes "extends s s'" "extends s' s''"
  shows "extends s s''"
proof -
  obtain ts ps ts' ps' where 1: "snTokens s' = snTokens s @ ts" "snPools s' = snPools s @ ps"
    "snTokens s'' = snTokens s' @ ts'" "snPools s'' = snPools s' @ ps'"
    using assms by (auto simp: extends_def)
  then have "snTokens s'' = snTokens s @ (ts @ ts')" "snPools s'' = snPools s @ (ps @ ps')" by simp_all
  moreover have "i < length (snTokens s) \<Longrightarrow> i < length (snTokens s')" for i using 1 by simp
  ultimately show ?thesis using assms unfolding extends_def by blast
qed

lemma extends_edge_ok:
  assumes "extends s s'" "i < length (snTokens s)" "edge_ok s i e"
  shows "edge_ok s' i e"
proof -
  obtain ts ps where "snTokens s' = snTokens s @ ts" "snPools s' = snPools s @ ps"
    using assms(1) by (auto simp: extends_def)
  then show ?thesis using assms(2,3) by (simp add: edge_ok_def nth_append Let_def)
qed

lemma extends_pool_linked:
  assumes "extends s s'" "index_ok s" "j < length (snPools s)" "pool_linked s j"
  shows "pool_linked s' j"
proof -
  have "snPools s' ! j = snPools s ! j" using assms(1,3) by (auto simp: extends_def nth_append)
  moreover obtain a b where ab: "snIndex s (tokKey (poolToken0 (snPools s ! j))) = Some a"
    "snIndex s (tokKey (poolToken1 (snPools s ! j))) = Some b"
    "\<lparr>ePool = j, eFrom = a, eTo = b\<rparr> \<in> set (snAdj s ! a)" "\<lparr>ePool = j, eFrom = b, eTo = a\<rparr> \<in> set (snAdj s ! b)"
    using assms(4) by (auto simp: pool_linked_def)
  moreover have "a < length (snTokens s)" "b < length (snTokens s)"
    using ab(1,2) index_okD(2)[OF assms(2)] by auto
  ultimately show ?thesis using assms(1) unfolding pool_linked_def extends_def by (metis subsetD)
qed

subsection \<open>Every operation keeps it\<close>

lemma intern_spec:
  assumes "index_ok s" "edges_ok s" "intern s t = (i, s')"
  shows "index_ok s'" "edges_ok s'" "extends s s'" "i < length (snTokens s')" "tokKey (snTokens s' ! i) = tokKey t"
    "snPools s' = snPools s" "snEdges s' = snEdges s"
    "sum_list (map length (snAdj s')) = sum_list (map length (snAdj s))"
proof -
  have "index_ok s' \<and> edges_ok s' \<and> extends s s' \<and> i < length (snTokens s') \<and> tokKey (snTokens s' ! i) = tokKey t
    \<and> snPools s' = snPools s \<and> snEdges s' = snEdges s
    \<and> sum_list (map length (snAdj s')) = sum_list (map length (snAdj s))"
  proof (cases "snIndex s (tokKey t)")
    case (Some j)
    then show ?thesis using assms index_okD(2)[OF assms(1), of "tokKey t" j] by (simp add: intern_def)
  next
    case None
    then have s': "s' = s\<lparr>snTokens := snTokens s @ [t], snIndex := (snIndex s)(tokKey t \<mapsto> length (snTokens s)),
        snAdj := snAdj s @ [[]]\<rparr>" and i: "i = length (snTokens s)"
      using assms(3) by (auto simp: intern_def Let_def)
    have new: "\<not> (j < length (snTokens s) \<and> tokKey (snTokens s ! j) = tokKey t)" for j
      using None index_okD(2)[OF assms(1), of "tokKey t" j] by simp
    have ext: "extends s s'"
      using new index_okD[OF assms(1)] by (auto simp: extends_def s' nth_append)
    have idx: "index_ok s'"
      using index_okD[OF assms(1)] new by (auto simp: index_ok_def s' nth_append less_Suc_eq)
    have "edges_ok s'"
      unfolding edges_ok_def
    proof (intro allI impI ballI)
      fix j e assume j: "j < length (snTokens s')" and e: "e \<in> set (snAdj s' ! j)"
      then have "j < length (snTokens s)" "e \<in> set (snAdj s ! j)"
        using index_okD(1)[OF assms(1)] by (auto simp: s' nth_append less_Suc_eq split: if_splits)
      then show "edge_ok s' j e" using assms(2) extends_edge_ok[OF ext] by (auto simp: edges_ok_def)
    qed
    then show ?thesis using ext idx by (simp add: s' i)
  qed
  then show "index_ok s'" "edges_ok s'" "extends s s'" "i < length (snTokens s')" "tokKey (snTokens s' ! i) = tokKey t"
    "snPools s' = snPools s" "snEdges s' = snEdges s"
    "sum_list (map length (snAdj s')) = sum_list (map length (snAdj s))" by auto
qed

lemma addEdge_spec:
  assumes "index_ok s" "edges_ok s" "eFrom e < length (snTokens s)" "edge_ok s (eFrom e) e"
  shows "index_ok (addEdge s e)" "edges_ok (addEdge s e)" "extends s (addEdge s e)"
    "e \<in> set (snAdj (addEdge s e) ! eFrom e)"
    "sum_list (map length (snAdj (addEdge s e))) = Suc (sum_list (map length (snAdj s)))"
proof -
  have len: "eFrom e < length (snAdj s)" using assms index_okD(1) by simp
  show idx: "index_ok (addEdge s e)" using assms(1) by (simp add: index_ok_def addEdge_def)
  show ext: "extends s (addEdge s e)"
    using len by (auto simp: extends_def addEdge_def nth_list_update)
  show "e \<in> set (snAdj (addEdge s e) ! eFrom e)" using len by (simp add: addEdge_def)
  show "sum_list (map length (snAdj (addEdge s e))) = Suc (sum_list (map length (snAdj s)))"
    using len by (simp add: addEdge_def map_update sum_list_update)
  show "edges_ok (addEdge s e)"
    using assms(2-4) len by (auto simp: edges_ok_def addEdge_def nth_list_update edge_ok_def Let_def)
qed

lemma prepare_tokens:
  "prepare p = Some p' \<Longrightarrow> poolToken0 p' = poolToken0 p \<and> poolToken1 p' = poolToken1 p"
  by (auto simp: prepare_def split: if_splits sum.splits)

text \<open>Adding a usable pool in its four stages: the pool, its two tokens, its two edges.\<close>

lemma addPool_stages:
  assumes wf: "snapshot_wf s" and q: "usable p" "prepare p = Some q"
  obtains a b s2 where
    "index_ok s2" "edges_ok s2" "extends s s2" "snPools s2 = snPools s @ [q]" "snEdges s2 = snEdges s"
    "sum_list (map length (snAdj s2)) = sum_list (map length (snAdj s))"
    "a < length (snTokens s2)" "tokKey (snTokens s2 ! a) = tokKey (poolToken0 q)"
    "b < length (snTokens s2)" "tokKey (snTokens s2 ! b) = tokKey (poolToken1 q)"
    "addPool s p = addEdge (addEdge s2 \<lparr>ePool = length (snPools s), eFrom = a, eTo = b\<rparr>) \<lparr>ePool = length (snPools s), eFrom = b, eTo = a\<rparr>"
proof -
  define s0 where "s0 = s\<lparr>snPools := snPools s @ [q]\<rparr>"
  obtain a s1 where s1: "intern s0 (poolToken0 q) = (a, s1)" by (cases "intern s0 (poolToken0 q)")
  obtain b s2 where s2: "intern s1 (poolToken1 q) = (b, s2)" by (cases "intern s1 (poolToken1 q)")
  have w: "index_ok s" "edges_ok s" using wf by (auto simp: snapshot_wf_def)
  have x0: "extends s s0" by (simp add: extends_def s0_def)
  have i0: "index_ok s0" using w(1) by (simp add: index_ok_def s0_def)
  have o0: "edges_ok s0" using w(2) by (auto simp: edges_ok_def s0_def edge_ok_def nth_append Let_def less_Suc_eq)
  note A = intern_spec[OF i0 o0 s1]
  note B = intern_spec[OF A(1,2) s2]
  show thesis
  proof (rule that[of s2 a b])
    show "a < length (snTokens s2)" "tokKey (snTokens s2 ! a) = tokKey (poolToken0 q)"
      using A(4,5) B(3) by (auto simp: extends_def nth_append)
    show "extends s s2" using x0 A(3) B(3) by (meson extends_trans)
    show "addPool s p = addEdge (addEdge s2 \<lparr>ePool = length (snPools s), eFrom = a, eTo = b\<rparr>) \<lparr>ePool = length (snPools s), eFrom = b, eTo = a\<rparr>"
      using q by (simp add: addPool_def Let_def s0_def[symmetric] s1 s2) (simp add: s0_def)
  qed (use A(6-8) B in \<open>simp_all add: s0_def\<close>)
qed

lemma addPool_wf:
  assumes wf: "snapshot_wf s"
  shows "snapshot_wf (addPool s p)"
proof (cases "usable p \<and> prepare p \<noteq> None")
  case False
  then show ?thesis using wf by (auto simp: addPool_def)
next
  case True
  then obtain q where q: "usable p" "prepare p = Some q" by auto
  let ?j = "length (snPools s)"
  obtain a b s2 where s2: "index_ok s2" "edges_ok s2" "extends s s2" "snPools s2 = snPools s @ [q]" "snEdges s2 = snEdges s"
      "sum_list (map length (snAdj s2)) = sum_list (map length (snAdj s))"
    and ab: "a < length (snTokens s2)" "tokKey (snTokens s2 ! a) = tokKey (poolToken0 q)"
      "b < length (snTokens s2)" "tokKey (snTokens s2 ! b) = tokKey (poolToken1 q)"
    and add: "addPool s p = addEdge (addEdge s2 \<lparr>ePool = ?j, eFrom = a, eTo = b\<rparr>) \<lparr>ePool = ?j, eFrom = b, eTo = a\<rparr>"
    by (rule addPool_stages[OF wf q])
  define e where "e = \<lparr>ePool = ?j, eFrom = a, eTo = b\<rparr>"
  define f where "f = \<lparr>ePool = ?j, eFrom = b, eTo = a\<rparr>"
  define s3 where "s3 = addEdge s2 e"
  have res: "addPool s p = addEdge s3 f" by (simp add: add s3_def e_def f_def)
  have e: "edge_ok s2 (eFrom e) e" "eFrom e < length (snTokens s2)" using ab s2(4) by (auto simp: edge_ok_def e_def Let_def)
  note C = addEdge_spec[OF s2(1,2) e(2,1), folded s3_def]
  have s3: "snTokens s3 = snTokens s2" "snPools s3 = snPools s2" "snIndex s3 = snIndex s2" by (simp_all add: s3_def addEdge_def)
  have f: "edge_ok s3 (eFrom f) f" "eFrom f < length (snTokens s3)" using ab s2(4) by (auto simp: edge_ok_def f_def Let_def s3)
  note D = addEdge_spec[OF C(1,2) f(2,1), folded res]
  have ext: "extends s (addPool s p)" using s2(3) C(3) D(3) by (meson extends_trans)
  have idx: "snIndex (addPool s p) = snIndex s2" "snPools (addPool s p) = snPools s @ [q]" by (simp_all add: res addEdge_def s3 s2(4))
  have "e \<in> set (snAdj (addPool s p) ! a)" "f \<in> set (snAdj (addPool s p) ! b)"
    using C(4) D(3,4) ab by (auto simp: e_def f_def extends_def s3)
  moreover have "snIndex s2 (tokKey (poolToken0 q)) = Some a" "snIndex s2 (tokKey (poolToken1 q)) = Some b"
    using ab index_okD(2)[OF s2(1)] by auto
  ultimately have "pool_linked (addPool s p) ?j" by (auto simp: pool_linked_def idx e_def f_def)
  moreover have "pool_linked (addPool s p) i" if "i < length (snPools s)" for i
    using extends_pool_linked[OF ext _ that] wf that by (simp add: snapshot_wf_def)
  ultimately have "\<forall>i < length (snPools (addPool s p)). pool_linked (addPool s p) i" by (simp add: idx less_Suc_eq)
  moreover have "count_ok (addPool s p)"
    using C(5) D(5) s2(4-6) wf by (simp add: snapshot_wf_def count_ok_def res addEdge_def s3_def)
  ultimately show ?thesis using D(1,2) by (simp add: snapshot_wf_def)
qed

lemma emptySnapshot_wf: "snapshot_wf (emptySnapshot builtAt)"
  by (simp add: snapshot_wf_def emptySnapshot_def index_ok_def edges_ok_def count_ok_def)

lemma foldl_invariant:
  assumes "I s" "\<And>s x. x \<in> set xs \<Longrightarrow> I s \<Longrightarrow> I (f s x)"
  shows "I (foldl f s xs)"
  using assms by (induction xs arbitrary: s) auto

lemma BuildSnapshot_invariant: "snapshot_wf (BuildSnapshot pools builtAt)"
  unfolding BuildSnapshot_def by (rule foldl_invariant) (simp_all add: emptySnapshot_wf addPool_wf)

subsection \<open>What a snapshot contains\<close>

definition indexed :: "pool \<Rightarrow> pool option" where
  "indexed p = (if usable p then prepare p else None)"

lemma intern_pools: "snPools (snd (intern s t)) = snPools s"
  by (simp add: intern_def Let_def split: option.split)

lemma addPool_pools:
  "snPools (addPool s p) = snPools s @ (case indexed p of None \<Rightarrow> [] | Some q \<Rightarrow> [q])"
  by (auto simp: addPool_def indexed_def addEdge_def intern_pools Let_def case_prod_beta split: option.split)

lemma addPool_builtAt: "snBuiltAt (addPool s p) = snBuiltAt s"
  by (auto simp: addPool_def addEdge_def intern_def Let_def case_prod_beta split: option.split)

lemma foldl_addPool_pools: "snPools (foldl addPool s ps) = snPools s @ List.map_filter indexed ps"
  by (induction ps arbitrary: s) (auto simp: addPool_pools List.map_filter_def split: option.split)

lemma BuildSnapshot_pools: "snPools (BuildSnapshot pools builtAt) = List.map_filter indexed pools"
  by (simp add: BuildSnapshot_def foldl_addPool_pools emptySnapshot_def)

lemma BuildSnapshot_builtAt: "snBuiltAt (BuildSnapshot pools builtAt) = builtAt"
  unfolding BuildSnapshot_def
  by (rule foldl_invariant[where I = "\<lambda>s. snBuiltAt s = builtAt"]) (simp_all add: addPool_builtAt emptySnapshot_def)

lemma addPool_tokens:
  assumes "index_ok s"
  shows "tokKey ` set (snTokens (addPool s p)) =
    tokKey ` set (snTokens s) \<union> (case indexed p of None \<Rightarrow> {} | Some q \<Rightarrow> {tokKey (poolToken0 q), tokKey (poolToken1 q)})"
proof -
  have "tokKey ` set (snTokens (snd (intern s t))) = insert (tokKey t) (tokKey ` set (snTokens s)) \<and> index_ok (snd (intern s t))"
    if "index_ok s" for s t
  proof (cases "snIndex s (tokKey t)")
    case None
    then have "\<not> (j < length (snTokens s) \<and> tokKey (snTokens s ! j) = tokKey t)" for j
      using index_okD(2)[OF that, of "tokKey t" j] by simp
    then show ?thesis using None index_okD[OF that]
      by (auto simp: intern_def Let_def index_ok_def nth_append less_Suc_eq)
  next
    case (Some j)
    then have "tokKey t \<in> tokKey ` set (snTokens s)"
      using index_okD(2)[OF that, of "tokKey t" j] by (metis image_eqI nth_mem)
    then show ?thesis using Some that by (auto simp: intern_def)
  qed
  moreover have "index_ok (s\<lparr>snPools := ps\<rparr>)" for ps using assms by (simp add: index_ok_def)
  ultimately show ?thesis
    by (auto simp: addPool_def indexed_def addEdge_def Let_def case_prod_beta split: option.split)
qed

lemma BuildSnapshot_tokens:
  "tokKey ` set (snTokens (BuildSnapshot pools builtAt)) =
     (\<Union>q \<in> set (snPools (BuildSnapshot pools builtAt)). {tokKey (poolToken0 q), tokKey (poolToken1 q)})"
  unfolding BuildSnapshot_def
proof (rule foldl_invariant[where I = "\<lambda>s. snapshot_wf s \<and> tokKey ` set (snTokens s) =
     (\<Union>q \<in> set (snPools s). {tokKey (poolToken0 q), tokKey (poolToken1 q)})", THEN conjunct2])
  show "snapshot_wf (emptySnapshot builtAt) \<and> tokKey ` set (snTokens (emptySnapshot builtAt)) =
     (\<Union>q \<in> set (snPools (emptySnapshot builtAt)). {tokKey (poolToken0 q), tokKey (poolToken1 q)})"
    using emptySnapshot_wf[of builtAt] by (simp add: emptySnapshot_def)
next
  fix s p assume I: "snapshot_wf s \<and> tokKey ` set (snTokens s) =
     (\<Union>q \<in> set (snPools s). {tokKey (poolToken0 q), tokKey (poolToken1 q)})"
  then have "index_ok s" by (simp add: snapshot_wf_def)
  then show "snapshot_wf (addPool s p) \<and> tokKey ` set (snTokens (addPool s p)) =
     (\<Union>q \<in> set (snPools (addPool s p)). {tokKey (poolToken0 q), tokKey (poolToken1 q)})"
    using addPool_tokens[of s p] I addPool_wf[of s p] by (auto simp: addPool_pools split: option.split)
qed

lemma Has_key: "Has p a \<longleftrightarrow> normalize a = tokKey (poolToken0 p) \<or> normalize a = tokKey (poolToken1 p)"
  by (simp add: Has_def addrEqual_iff normalize_def)

lemma index_ok_None_iff: "index_ok s \<Longrightarrow> snIndex s k = None \<longleftrightarrow> k \<notin> tokKey ` set (snTokens s)"
  using index_okD(2)[of s k] by (force simp: in_set_conv_nth image_iff not_Some_eq[symmetric] simp del: not_Some_eq)

lemma prepare_quote:
  assumes "prepare p = Some q"
  shows "AmountOut q amountIn tokenIn = AmountOut p amountIn tokenIn"
proof (cases "poolProtocol p = UniswapV3")
  case False
  then show ?thesis using assms by (simp add: prepare_def)
next
  case True
  then obtain ts where ts: "PrepareTicks (poolTicks p) = Inr ts" "q = p\<lparr>poolTicks := ts\<rparr>"
    using assms by (auto simp: prepare_def split: sum.splits)
  then show ?thesis
    using PrepareTicks_swapV3[OF ts(1), of amountIn "v3State p"] True
    by (simp add: AmountOut_eq quote_def direction_def v3State_def)
qed

lemma unloaded_no_quote:
  assumes "tokAddress (poolToken0 p) \<noteq> []" "tokAddress (poolToken1 p) \<noteq> []"
    and "\<not> equalFold (tokAddress (poolToken0 p)) (tokAddress (poolToken1 p))" "\<not> usable p"
  shows "AmountOut p amountIn tokenIn \<noteq> Ok v"
  using assms
  by (auto simp: usable_def AmountOut_eq quote_def swapV2_def swapV3_def orientV2_def v3State_def isPositive_def
      split: if_splits sum.splits option.splits)

subsection \<open>Properties\<close>

text \<open>C11. Every snapshot is well formed: the token index is exactly the numbering of the tokens by
  their canonical address (so no two tokens differ only in case), each edge leaves the token it is
  filed under and joins the two tokens of an indexed pool, every indexed pool has an edge in each
  direction, and the edge counter is the number of edges, two per pool.\<close>

theorem BuildSnapshot_wf: "snapshot_wf (BuildSnapshot pools builtAt)"
  by (rule BuildSnapshot_invariant)

text \<open>C23. Indexing preserves quotes: a snapshot holds exactly the usable pools, in order, each prepared;
  the edge count is twice their number; and every indexed pool quotes every amount and token exactly
  as the pool it was prepared from.\<close>

theorem BuildSnapshot_contents:
  "snPools (BuildSnapshot pools builtAt) = List.map_filter (\<lambda>p. if usable p then prepare p else None) pools
   \<and> EdgeCount (BuildSnapshot pools builtAt) = 2 * length (snapshotPools (BuildSnapshot pools builtAt))
   \<and> BuiltAt (BuildSnapshot pools builtAt) = builtAt
   \<and> (prepare p = Some q \<longrightarrow> AmountOut q amountIn tokenIn = AmountOut p amountIn tokenIn)"
  using BuildSnapshot_pools[of pools builtAt] BuildSnapshot_invariant[of pools builtAt]
    BuildSnapshot_builtAt[of pools builtAt] prepare_quote[of p q]
  by (simp add: indexed_def[abs_def] EdgeCount_def snapshotPools_def BuiltAt_def snapshot_wf_def count_ok_def)

definition examplePoolV3 :: pool where
  "examplePoolV3 = (v2Pool ''0xp3'' ''0xa'' ''0xb'' 1 1)\<lparr>poolProtocol := UniswapV3,
     poolSqrtPriceX96 := v3SqrtPriceX96 exampleV3, poolLiquidity := v3Liquidity exampleV3,
     poolTicks := v3Ticks exampleV3\<rparr>"

theorem BuildSnapshot_contents_witness:
  "\<exists>q. prepare examplePoolV3 = Some q \<and> AmountOut q (Some 4000) ''0xa'' = AmountOut examplePoolV3 (Some 4000) ''0xa''"
proof -
  have "prepare examplePoolV3 \<noteq> None" by code_simp
  then obtain q where "prepare examplePoolV3 = Some q" by auto
  then show ?thesis using BuildSnapshot_contents[of "[]" 0 examplePoolV3 q "Some 4000" "''0xa''"] by simp
qed

text \<open>Dropping a pool loses nothing: a pool between two properly named, different tokens that
  \<^verbatim>\<open>usable\<close> rejects can quote no amount of either token.\<close>

theorem usable_complete:
  assumes "tokAddress (poolToken0 p) \<noteq> []" "tokAddress (poolToken1 p) \<noteq> []"
    and "\<not> equalFold (tokAddress (poolToken0 p)) (tokAddress (poolToken1 p))" "\<not> usable p"
  shows "\<nexists>v. AmountOut p amountIn tokenIn = Ok v"
  using unloaded_no_quote[OF assms] by blast

theorem usable_complete_witness: "\<nexists>v. AmountOut (v2Pool ''0xp'' ''0xa'' ''0xb'' 1000 0) (Some 5) ''0xa'' = Ok v"
  by (rule usable_complete) code_simp+

text \<open>A token is in the graph exactly when some indexed pool trades it, whatever the spelling of
  the address: \<^verbatim>\<open>Token\<close> and \<^verbatim>\<open>tokenIndex\<close> answer precisely for those addresses, and the token found
  has the requested address up to case and blanks.\<close>

theorem Token_iff:
  "(Token (BuildSnapshot pools builtAt) address = Some t \<longleftrightarrow>
     t \<in> set (snTokens (BuildSnapshot pools builtAt)) \<and> addrEqual (tokAddress t) address)
   \<and> (tokenIndex (BuildSnapshot pools builtAt) address \<noteq> None \<longleftrightarrow>
        (\<exists>q \<in> set (snPools (BuildSnapshot pools builtAt)). Has q address))"
proof -
  let ?s = "BuildSnapshot pools builtAt"
  have ix: "index_ok ?s" using BuildSnapshot_invariant by (simp add: snapshot_wf_def)
  have "Token ?s address = Some t \<longleftrightarrow> t \<in> set (snTokens ?s) \<and> tokKey t = normalize address"
  proof
    assume "Token ?s address = Some t"
    then show "t \<in> set (snTokens ?s) \<and> tokKey t = normalize address"
      using index_okD(2)[OF ix] by (auto simp: Token_def split: option.splits)
  next
    assume t: "t \<in> set (snTokens ?s) \<and> tokKey t = normalize address"
    then obtain i where "i < length (snTokens ?s)" "snTokens ?s ! i = t" by (auto simp: in_set_conv_nth)
    then show "Token ?s address = Some t" using index_okD(2)[OF ix, of "normalize address" i] t
      by (simp add: Token_def)
  qed
  moreover have "tokenIndex ?s address \<noteq> None \<longleftrightarrow> (\<exists>q \<in> set (snPools ?s). Has q address)"
    using index_ok_None_iff[OF ix, of "normalize address"] BuildSnapshot_tokens[of pools builtAt]
    by (auto simp: tokenIndex_def Has_key)
  ultimately show ?thesis by (simp add: addrEqual_iff normalize_def)
qed

end
