(* ===== verification/Go_Json.thy ===== *)
theory Go_Json
  imports Prelude "HOL-Library.Monad_Syntax"
begin

section \<open>JSON documents\<close>

text \<open>
  What the service uses of \<^verbatim>\<open>encoding/json\<close>. A document is its syntax tree, without the textual escaping
  of strings and without repeated keys; \<open>JInt\<close> is a number written as an integer, \<open>JNum\<close> one with a
  fraction or an exponent, which no integer field accepts. Decoding into a structure leaves missing fields at
  zero, matches field names without case, and checks numbers against the width of the field.
\<close>

datatype json = JNull | JBool bool | JInt int | JNum string | JStr string | JArr "json list" | JObj "(string \<times> json) list"

definition jsonField :: "string \<Rightarrow> (string \<times> json) list \<Rightarrow> json" where
  "jsonField name kvs = (case find (\<lambda>kv. equalFold (fst kv) name) kvs of None \<Rightarrow> JNull | Some kv \<Rightarrow> snd kv)"

text \<open>Decoding into a field of a Go type; \<^verbatim>\<open>null\<close> and a missing key leave the zero value, any other kind of
  value is an error.\<close>

fun jsonStr :: "json \<Rightarrow> string option" where
  "jsonStr JNull = Some []"
| "jsonStr (JStr s) = Some s"
| "jsonStr _ = None"

fun jsonBool :: "json \<Rightarrow> bool option" where
  "jsonBool JNull = Some False"
| "jsonBool (JBool b) = Some b"
| "jsonBool _ = None"

fun jsonInt :: "int \<Rightarrow> int \<Rightarrow> json \<Rightarrow> int option" where
  "jsonInt lo hi JNull = Some 0"
| "jsonInt lo hi (JInt n) = (if lo \<le> n \<and> n < hi then Some n else None)"
| "jsonInt lo hi _ = None"

fun jsonObj :: "json \<Rightarrow> (string \<times> json) list option" where
  "jsonObj JNull = Some []"
| "jsonObj (JObj kvs) = Some kvs"
| "jsonObj _ = None"

fun jsonArr :: "json \<Rightarrow> json list option" where
  "jsonArr JNull = Some []"
| "jsonArr (JArr xs) = Some xs"
| "jsonArr _ = None"

definition omitStr :: "string \<Rightarrow> string \<Rightarrow> (string \<times> json) list" where
  "omitStr name s = (if s = [] then [] else [(name, JStr s)])"

definition omitInt :: "string \<Rightarrow> int \<Rightarrow> (string \<times> json) list" where
  "omitInt name n = (if n = 0 then [] else [(name, JInt n)])"

definition omitArr :: "string \<Rightarrow> json list \<Rightarrow> (string \<times> json) list" where
  "omitArr name xs = (if xs = [] then [] else [(name, JArr xs)])"

text \<open>A \<^verbatim>\<open>json.RawMessage\<close> keeps what the document says, \<^verbatim>\<open>null\<close> included; \<open>None\<close> is the empty message of a missing key.\<close>

definition rawField :: "string \<Rightarrow> (string \<times> json) list \<Rightarrow> json option" where
  "rawField name kvs = map_option snd (find (\<lambda>kv. equalFold (fst kv) name) kvs)"

lemma jsonField_raw: "jsonField name kvs = (case rawField name kvs of None \<Rightarrow> JNull | Some j \<Rightarrow> j)"
  by (simp add: jsonField_def rawField_def split: option.split)

end
