(* ===== verification/Cache_Store.thy ===== *)
theory Cache_Store
  imports Graph_Snapshot Go_Decimal Go_Json
begin

section \<open>The snapshot holder and the pool store (\<^verbatim>\<open>internal/cache\<close>)\<close>

text \<open>
  The holder is one atomic pointer. The store writes the whole pool set as one JSON document and reads
  it back; \<open>marshalPools\<close> and \<open>unmarshalPools\<close> are what \<^verbatim>\<open>encoding/json\<close> does with the declared
  structures. The Redis client is another module: it is the parameter
  \<open>client\<close>, over a state of its own.
\<close>

subsection \<open>The holder\<close>

definition neverSet :: int where "neverSet = 100 * 365 * 24 * 3600 * 1000000000"

record holder =
  hCurrent :: "snapshot option"

definition NewHolder :: holder where "NewHolder = \<lparr>hCurrent = None\<rparr>"

definition holderGet :: "holder \<Rightarrow> snapshot option" where "holderGet h = hCurrent h"

definition holderSet :: "snapshot option \<Rightarrow> holder \<Rightarrow> holder" where
  "holderSet s h = (if s = None then h else h\<lparr>hCurrent := s\<rparr>)"

definition holderIsEmpty :: "holder \<Rightarrow> bool" where "holderIsEmpty h = (hCurrent h = None)"

definition holderAge :: "int \<Rightarrow> holder \<Rightarrow> int" where
  "holderAge now h = (case hCurrent h of None \<Rightarrow> neverSet | Some s \<Rightarrow> Age now s)"

subsection \<open>The wire form of a pool\<close>

record tickDTO =
  tdIndex :: int
  tdLiquidityNet :: string

record poolDTO =
  pdAddress :: string
  pdProtocol :: protocol
  pdToken0 :: token
  pdToken1 :: token
  pdFeeBps :: int
  pdSimulated :: bool
  pdReserve0 :: string
  pdReserve1 :: string
  pdSqrtPriceX96 :: string
  pdLiquidity :: string
  pdTick :: int
  pdTickSpacing :: int
  pdTicks :: "tickDTO list"

definition marshalToken :: "token \<Rightarrow> json" where
  "marshalToken t = JObj [(''address'', JStr (tokAddress t)), (''symbol'', JStr (tokSymbol t)), (''decimals'', JInt (int (tokDecimals t)))]"

definition marshalTick :: "tickDTO \<Rightarrow> json" where
  "marshalTick t = JObj [(''index'', JInt (tdIndex t)), (''liquidityNet'', JStr (tdLiquidityNet t))]"

definition marshalPool :: "poolDTO \<Rightarrow> json" where
  "marshalPool d = JObj
     ([(''address'', JStr (pdAddress d)), (''protocol'', JStr (pdProtocol d)), (''token0'', marshalToken (pdToken0 d)),
       (''token1'', marshalToken (pdToken1 d)), (''feeBps'', JInt (pdFeeBps d)), (''simulated'', JBool (pdSimulated d))]
      @ omitStr ''reserve0'' (pdReserve0 d) @ omitStr ''reserve1'' (pdReserve1 d)
      @ omitStr ''sqrtPriceX96'' (pdSqrtPriceX96 d) @ omitStr ''liquidity'' (pdLiquidity d)
      @ omitInt ''tick'' (pdTick d) @ omitInt ''tickSpacing'' (pdTickSpacing d) @ omitArr ''ticks'' (map marshalTick (pdTicks d)))"

definition unmarshalToken :: "json \<Rightarrow> token option" where
  "unmarshalToken j = do {
     kvs \<leftarrow> jsonObj j;
     a \<leftarrow> jsonStr (jsonField ''address'' kvs);
     s \<leftarrow> jsonStr (jsonField ''symbol'' kvs);
     d \<leftarrow> jsonInt 0 (2 ^ 8) (jsonField ''decimals'' kvs);
     Some \<lparr>tokAddress = a, tokSymbol = s, tokDecimals = nat d\<rparr>}"

definition unmarshalTick :: "json \<Rightarrow> tickDTO option" where
  "unmarshalTick j = do {
     kvs \<leftarrow> jsonObj j;
     i \<leftarrow> jsonInt (- (2 ^ 31)) (2 ^ 31) (jsonField ''index'' kvs);
     n \<leftarrow> jsonStr (jsonField ''liquidityNet'' kvs);
     Some \<lparr>tdIndex = i, tdLiquidityNet = n\<rparr>}"

definition unmarshalPool :: "json \<Rightarrow> poolDTO option" where
  "unmarshalPool j = do {
     kvs \<leftarrow> jsonObj j;
     addr \<leftarrow> jsonStr (jsonField ''address'' kvs);
     proto \<leftarrow> jsonStr (jsonField ''protocol'' kvs);
     t0 \<leftarrow> unmarshalToken (jsonField ''token0'' kvs);
     t1 \<leftarrow> unmarshalToken (jsonField ''token1'' kvs);
     fee \<leftarrow> jsonInt 0 (2 ^ 32) (jsonField ''feeBps'' kvs);
     sim \<leftarrow> jsonBool (jsonField ''simulated'' kvs);
     r0 \<leftarrow> jsonStr (jsonField ''reserve0'' kvs);
     r1 \<leftarrow> jsonStr (jsonField ''reserve1'' kvs);
     sq \<leftarrow> jsonStr (jsonField ''sqrtPriceX96'' kvs);
     liq \<leftarrow> jsonStr (jsonField ''liquidity'' kvs);
     tick \<leftarrow> jsonInt (- (2 ^ 31)) (2 ^ 31) (jsonField ''tick'' kvs);
     spacing \<leftarrow> jsonInt (- (2 ^ 31)) (2 ^ 31) (jsonField ''tickSpacing'' kvs);
     ts \<leftarrow> jsonArr (jsonField ''ticks'' kvs);
     ticks \<leftarrow> those (map unmarshalTick ts);
     Some \<lparr>pdAddress = addr, pdProtocol = proto, pdToken0 = t0, pdToken1 = t1, pdFeeBps = fee, pdSimulated = sim,
           pdReserve0 = r0, pdReserve1 = r1, pdSqrtPriceX96 = sq, pdLiquidity = liq, pdTick = tick,
           pdTickSpacing = spacing, pdTicks = ticks\<rparr>}"

definition marshalPools :: "poolDTO list \<Rightarrow> json" where
  "marshalPools ds = JArr (map marshalPool ds)"

definition unmarshalPools :: "json \<Rightarrow> poolDTO list option" where
  "unmarshalPools j = do { xs \<leftarrow> jsonArr j; those (map unmarshalPool xs) }"

subsection \<open>Encoding and decoding\<close>

definition bigToString :: "int option \<Rightarrow> string" where
  "bigToString n = (case n of None \<Rightarrow> [] | Some n \<Rightarrow> intString n)"

datatype store_error = DecodingPools | InvalidField string string | WritingPools | ReadingPools | ParsingURL

definition stringToBig :: "string \<Rightarrow> string \<Rightarrow> string \<Rightarrow> store_error + int option" where
  "stringToBig s field pool =
     (if s = [] then Inr None
      else case setString s of None \<Rightarrow> Inl (InvalidField pool field) | Some n \<Rightarrow> Inr (Some n))"

definition toDTO :: "pool \<Rightarrow> poolDTO" where
  "toDTO p = \<lparr>pdAddress = poolAddress p, pdProtocol = poolProtocol p, pdToken0 = poolToken0 p, pdToken1 = poolToken1 p,
     pdFeeBps = int (poolFeeBps p), pdSimulated = poolSimulated p, pdReserve0 = bigToString (poolReserve0 p),
     pdReserve1 = bigToString (poolReserve1 p), pdSqrtPriceX96 = bigToString (poolSqrtPriceX96 p),
     pdLiquidity = bigToString (poolLiquidity p), pdTick = poolTick p, pdTickSpacing = poolTickSpacing p,
     pdTicks = map (\<lambda>tk. \<lparr>tdIndex = Index tk, tdLiquidityNet = bigToString (LiquidityNet tk)\<rparr>) (poolTicks p)\<rparr>"

definition encodePools :: "pool list \<Rightarrow> json" where
  "encodePools pools = marshalPools (map toDTO pools)"

fun ticksOfDTO :: "string \<Rightarrow> tickDTO list \<Rightarrow> store_error + v3tick list" where
  "ticksOfDTO addr [] = Inr []"
| "ticksOfDTO addr (td # tds) =
     (case stringToBig (tdLiquidityNet td) ''liquidityNet'' addr of
        Inl e \<Rightarrow> Inl e
      | Inr net \<Rightarrow> map_sum id ((#) \<lparr>Index = tdIndex td, LiquidityNet = net, SqrtRatioX96 = None\<rparr>) (ticksOfDTO addr tds))"

definition ofDTO :: "poolDTO \<Rightarrow> store_error + pool" where
  "ofDTO d =
     (case stringToBig (pdReserve0 d) ''reserve0'' (pdAddress d) of Inl e \<Rightarrow> Inl e | Inr r0 \<Rightarrow>
      case stringToBig (pdReserve1 d) ''reserve1'' (pdAddress d) of Inl e \<Rightarrow> Inl e | Inr r1 \<Rightarrow>
      case stringToBig (pdSqrtPriceX96 d) ''sqrtPriceX96'' (pdAddress d) of Inl e \<Rightarrow> Inl e | Inr sq \<Rightarrow>
      case stringToBig (pdLiquidity d) ''liquidity'' (pdAddress d) of Inl e \<Rightarrow> Inl e | Inr liq \<Rightarrow>
      case ticksOfDTO (pdAddress d) (pdTicks d) of Inl e \<Rightarrow> Inl e | Inr ticks \<Rightarrow>
        Inr \<lparr>poolAddress = pdAddress d, poolProtocol = pdProtocol d, poolToken0 = pdToken0 d, poolToken1 = pdToken1 d,
             poolFeeBps = nat (pdFeeBps d), poolSimulated = pdSimulated d, poolReserve0 = r0, poolReserve1 = r1,
             poolSqrtPriceX96 = sq, poolLiquidity = liq, poolTick = pdTick d, poolTickSpacing = pdTickSpacing d,
             poolTicks = ticks\<rparr>)"

fun poolsOfDTO :: "poolDTO list \<Rightarrow> store_error + pool list" where
  "poolsOfDTO [] = Inr []"
| "poolsOfDTO (d # ds) = (case ofDTO d of Inl e \<Rightarrow> Inl e | Inr p \<Rightarrow> map_sum id ((#) p) (poolsOfDTO ds))"

definition decodePools :: "json \<Rightarrow> store_error + pool list" where
  "decodePools blob = (case unmarshalPools blob of None \<Rightarrow> Inl DecodingPools | Some ds \<Rightarrow> poolsOfDTO ds)"

subsection \<open>Stores\<close>

definition poolsKey :: string where "poolsKey = ''dexagg:pools:v1''"

datatype redisReply = RedisNil | RedisErr | RedisBlob json

text \<open>The client: \<open>rcSet\<close> tells whether the write was acknowledged, \<open>rcPing\<close> whether the server answered.\<close>

record 'st redisClient =
  rcParseURL :: "string \<Rightarrow> bool"
  rcSet :: "string \<Rightarrow> json \<Rightarrow> int \<Rightarrow> 'st \<Rightarrow> bool \<times> 'st"
  rcGet :: "string \<Rightarrow> 'st \<Rightarrow> redisReply"
  rcPing :: "'st \<Rightarrow> bool"
  rcClose :: "'st \<Rightarrow> bool \<times> 'st"

datatype poolStore = NoopStore | RedisStore int

definition NewNoopStore :: poolStore where "NewNoopStore = NoopStore"

definition NewRedisStore :: "'st redisClient \<Rightarrow> string \<Rightarrow> int \<Rightarrow> store_error + poolStore" where
  "NewRedisStore client url ttl =
     (if \<not> rcParseURL client url then Inl ParsingURL
      else Inr (RedisStore (if ttl \<le> 0 then 10 * 60 * 1000000000 else ttl)))"

primrec storeName :: "poolStore \<Rightarrow> string" where
  "storeName NoopStore = ''none''"
| "storeName (RedisStore ttl) = ''redis''"

definition storePing :: "'st redisClient \<Rightarrow> 'st \<Rightarrow> bool" where "storePing client st = rcPing client st"

text \<open>Only the Redis store has a \<^verbatim>\<open>Close\<close>.\<close>

primrec storeClose :: "'st redisClient \<Rightarrow> poolStore \<Rightarrow> 'st \<Rightarrow> bool \<times> 'st" where
  "storeClose client NoopStore st = (True, st)"
| "storeClose client (RedisStore ttl) st = rcClose client st"

primrec SavePools :: "'st redisClient \<Rightarrow> poolStore \<Rightarrow> pool list \<Rightarrow> 'st \<Rightarrow> (store_error + unit) \<times> 'st" where
  "SavePools client NoopStore pools st = (Inr (), st)"
| "SavePools client (RedisStore ttl) pools st =
     (case rcSet client poolsKey (encodePools pools) ttl st of
        (ok, st') \<Rightarrow> (if ok then Inr () else Inl WritingPools, st'))"

primrec LoadPools :: "'st redisClient \<Rightarrow> poolStore \<Rightarrow> 'st \<Rightarrow> store_error + pool list" where
  "LoadPools client NoopStore st = Inr []"
| "LoadPools client (RedisStore ttl) st =
     (case rcGet client poolsKey st of
        RedisNil \<Rightarrow> Inr []
      | RedisErr \<Rightarrow> Inl ReadingPools
      | RedisBlob blob \<Rightarrow> decodePools blob)"

subsection \<open>Documents read back\<close>

named_theorems json_lookup \<open>fields of a document\<close>

lemma jsonField_Nil [json_lookup]: "jsonField n [] = JNull"
  by (simp add: jsonField_def)

lemma jsonField_Cons [json_lookup]: "jsonField n ((k, v) # kvs) = (if equalFold k n then v else jsonField n kvs)"
  by (simp add: jsonField_def)

lemma jsonField_omit [json_lookup]:
  "jsonField n (omitStr k s @ kvs) = (if equalFold k n \<and> s \<noteq> [] then JStr s else jsonField n kvs)"
  "jsonField n (omitInt k i @ kvs) = (if equalFold k n \<and> i \<noteq> 0 then JInt i else jsonField n kvs)"
  "jsonField n (omitArr k xs) = (if equalFold k n \<and> xs \<noteq> [] then JArr xs else JNull)"
  by (simp_all add: omitStr_def omitInt_def omitArr_def jsonField_def)

lemma omitted_zero [json_lookup]:
  "jsonStr (if s \<noteq> [] then JStr s else JNull) = Some s"
  "lo \<le> i \<Longrightarrow> i < hi \<Longrightarrow> jsonInt lo hi (if i \<noteq> 0 then JInt i else JNull) = Some i"
  "jsonArr (if xs \<noteq> [] then JArr xs else JNull) = Some xs"
  by simp_all

lemma equalFold_code: "equalFold a b \<longleftrightarrow> toLower a = toLower b"
  by (simp add: equalFold_def)

definition dto_ok :: "poolDTO \<Rightarrow> bool" where
  "dto_ok d \<longleftrightarrow> tokDecimals (pdToken0 d) < 2 ^ 8 \<and> tokDecimals (pdToken1 d) < 2 ^ 8
     \<and> 0 \<le> pdFeeBps d \<and> pdFeeBps d < 2 ^ 32 \<and> - (2 ^ 31) \<le> pdTick d \<and> pdTick d < 2 ^ 31
     \<and> - (2 ^ 31) \<le> pdTickSpacing d \<and> pdTickSpacing d < 2 ^ 31
     \<and> list_all (\<lambda>t. - (2 ^ 31) \<le> tdIndex t \<and> tdIndex t < 2 ^ 31) (pdTicks d)"

lemmas key_simps = equalFold_def toLower_def toLowerChar_def

lemma unmarshalToken_marshal: "tokDecimals t < 2 ^ 8 \<Longrightarrow> unmarshalToken (marshalToken t) = Some t"
  by (cases t) (simp add: unmarshalToken_def marshalToken_def json_lookup key_simps)

lemma unmarshalTick_marshal: "- (2 ^ 31) \<le> tdIndex t \<Longrightarrow> tdIndex t < 2 ^ 31 \<Longrightarrow> unmarshalTick (marshalTick t) = Some t"
  by (cases t) (simp add: unmarshalTick_def marshalTick_def json_lookup key_simps)

lemma those_map_Some: "(\<And>x. x \<in> set xs \<Longrightarrow> f (g x) = Some x) \<Longrightarrow> those (map f (map g xs)) = Some xs"
  by (induction xs) simp_all

definition poolFields :: "poolDTO \<Rightarrow> (string \<times> json) list" where
  "poolFields d =
     [(''address'', JStr (pdAddress d)), (''protocol'', JStr (pdProtocol d)), (''token0'', marshalToken (pdToken0 d)),
      (''token1'', marshalToken (pdToken1 d)), (''feeBps'', JInt (pdFeeBps d)), (''simulated'', JBool (pdSimulated d))]
     @ omitStr ''reserve0'' (pdReserve0 d) @ omitStr ''reserve1'' (pdReserve1 d)
     @ omitStr ''sqrtPriceX96'' (pdSqrtPriceX96 d) @ omitStr ''liquidity'' (pdLiquidity d)
     @ omitInt ''tick'' (pdTick d) @ omitInt ''tickSpacing'' (pdTickSpacing d) @ omitArr ''ticks'' (map marshalTick (pdTicks d))"

lemma poolFields_lookup:
  "jsonField ''address'' (poolFields d) = JStr (pdAddress d)"
  "jsonField ''protocol'' (poolFields d) = JStr (pdProtocol d)"
  "jsonField ''token0'' (poolFields d) = marshalToken (pdToken0 d)"
  "jsonField ''token1'' (poolFields d) = marshalToken (pdToken1 d)"
  "jsonField ''feeBps'' (poolFields d) = JInt (pdFeeBps d)"
  "jsonField ''simulated'' (poolFields d) = JBool (pdSimulated d)"
  "jsonField ''reserve0'' (poolFields d) = (if pdReserve0 d \<noteq> [] then JStr (pdReserve0 d) else JNull)"
  "jsonField ''reserve1'' (poolFields d) = (if pdReserve1 d \<noteq> [] then JStr (pdReserve1 d) else JNull)"
  "jsonField ''sqrtPriceX96'' (poolFields d) = (if pdSqrtPriceX96 d \<noteq> [] then JStr (pdSqrtPriceX96 d) else JNull)"
  "jsonField ''liquidity'' (poolFields d) = (if pdLiquidity d \<noteq> [] then JStr (pdLiquidity d) else JNull)"
  "jsonField ''tick'' (poolFields d) = (if pdTick d \<noteq> 0 then JInt (pdTick d) else JNull)"
  "jsonField ''tickSpacing'' (poolFields d) = (if pdTickSpacing d \<noteq> 0 then JInt (pdTickSpacing d) else JNull)"
  "jsonField ''ticks'' (poolFields d) = (if map marshalTick (pdTicks d) \<noteq> [] then JArr (map marshalTick (pdTicks d)) else JNull)"
  by (simp_all add: poolFields_def json_lookup key_simps)

lemma unmarshalPool_marshal:
  assumes "dto_ok d"
  shows "unmarshalPool (marshalPool d) = Some d"
proof -
  have t: "unmarshalToken (marshalToken (pdToken0 d)) = Some (pdToken0 d)" "unmarshalToken (marshalToken (pdToken1 d)) = Some (pdToken1 d)"
    using assms by (simp_all add: dto_ok_def unmarshalToken_marshal)
  have ts: "those (map unmarshalTick (map marshalTick (pdTicks d))) = Some (pdTicks d)"
    using assms by (intro those_map_Some unmarshalTick_marshal) (auto simp: dto_ok_def list_all_iff)
  have i: "jsonInt (- (2 ^ 31)) (2 ^ 31) (jsonField ''tick'' (poolFields d)) = Some (pdTick d)"
    "jsonInt (- (2 ^ 31)) (2 ^ 31) (jsonField ''tickSpacing'' (poolFields d)) = Some (pdTickSpacing d)"
    "jsonInt 0 (2 ^ 32) (jsonField ''feeBps'' (poolFields d)) = Some (pdFeeBps d)"
    using assms by (simp_all add: dto_ok_def poolFields_lookup)
  have "marshalPool d = JObj (poolFields d)" by (simp add: marshalPool_def poolFields_def)
  then show ?thesis
    unfolding unmarshalPool_def
    by (simp only: jsonObj.simps i Option.bind.bind_lunit) 
      (simp only: poolFields_lookup omitted_zero jsonStr.simps jsonBool.simps t ts Option.bind.bind_lunit, simp)
qed

lemma unmarshalPools_marshal: "list_all dto_ok ds \<Longrightarrow> unmarshalPools (marshalPools ds) = Some ds"
  using those_map_Some[of ds unmarshalPool marshalPool]
  by (simp add: unmarshalPools_def marshalPools_def list_all_iff unmarshalPool_marshal del: map_map)

subsection \<open>Pools read back\<close>

text \<open>What the wire form keeps of a pool: everything but the cached square-root prices of its ticks.\<close>

definition uncached :: "pool \<Rightarrow> pool" where
  "uncached p = p\<lparr>poolTicks := map (\<lambda>t. t\<lparr>SqrtRatioX96 := None\<rparr>) (poolTicks p)\<rparr>"

definition pool_in_range :: "pool \<Rightarrow> bool" where
  "pool_in_range p \<longleftrightarrow> tokDecimals (poolToken0 p) < 2 ^ 8 \<and> tokDecimals (poolToken1 p) < 2 ^ 8 \<and> poolFeeBps p < 2 ^ 32
     \<and> - (2 ^ 31) \<le> poolTick p \<and> poolTick p < 2 ^ 31 \<and> - (2 ^ 31) \<le> poolTickSpacing p \<and> poolTickSpacing p < 2 ^ 31
     \<and> list_all (\<lambda>t. - (2 ^ 31) \<le> Index t \<and> Index t < 2 ^ 31) (poolTicks p)"

lemma uncached_id:
  assumes "list_all (\<lambda>t. SqrtRatioX96 t = None) (poolTicks p)"
  shows "uncached p = p"
proof -
  have "map (\<lambda>t. t\<lparr>SqrtRatioX96 := None\<rparr>) ts = ts" if "list_all (\<lambda>t. SqrtRatioX96 t = None) ts" for ts
    using that by (induction ts) auto
  from this[OF assms] show ?thesis by (cases p) (simp add: uncached_def)
qed

lemma stringToBig_bigToString: "stringToBig (bigToString n) field pool = Inr n"
  by (cases n) (simp_all add: stringToBig_def bigToString_def intString_nonempty setString_intString)

lemma ticksOfDTO_ticks:
  "ticksOfDTO addr (map (\<lambda>tk. \<lparr>tdIndex = Index tk, tdLiquidityNet = bigToString (LiquidityNet tk)\<rparr>) tks)
   = Inr (map (\<lambda>t. t\<lparr>SqrtRatioX96 := None\<rparr>) tks)"
  by (induction tks) (simp_all add: stringToBig_bigToString)

lemma ofDTO_toDTO: "ofDTO (toDTO p) = Inr (uncached p)"
  by (cases p) (simp add: ofDTO_def toDTO_def uncached_def stringToBig_bigToString ticksOfDTO_ticks)

lemma poolsOfDTO_toDTO: "poolsOfDTO (map toDTO ps) = Inr (map uncached ps)"
  by (induction ps) (simp_all add: ofDTO_toDTO)

lemma toDTO_ok: "pool_in_range p \<Longrightarrow> dto_ok (toDTO p)"
  by (simp add: pool_in_range_def dto_ok_def toDTO_def list_all_iff)

lemma decodePools_encodePools: "list_all pool_in_range ps \<Longrightarrow> decodePools (encodePools ps) = Inr (map uncached ps)"
  using unmarshalPools_marshal[of "map toDTO ps"]
  by (simp add: decodePools_def encodePools_def poolsOfDTO_toDTO list_all_iff toDTO_ok)

subsection \<open>Properties\<close>

text \<open>C8. What is saved is what is loaded: after a save the Redis store acknowledged, a load returns the same
  pools in the same order, with every amount exact at any size and sign and missing amounts still missing;
  only the cached square-root prices of ticks are dropped, so pools that come from a source (which caches
  none) are returned unchanged. The store that keeps nothing loads nothing. The hypotheses are that the
  integers fit their Go types and that Redis returns the value of an acknowledged write.\<close>

theorem store_roundtrip:
  assumes "list_all pool_in_range ps"
    and "\<And>blob ttl st st'. rcSet client poolsKey blob ttl st = (True, st') \<Longrightarrow> rcGet client poolsKey st' = RedisBlob blob"
    and "SavePools client store ps st = (Inr (), st')"
  shows "LoadPools client store st' = Inr (case store of NoopStore \<Rightarrow> [] | RedisStore _ \<Rightarrow> map uncached ps)
    \<and> (list_all (\<lambda>p. list_all (\<lambda>t. SqrtRatioX96 t = None) (poolTicks p)) ps \<longrightarrow> map uncached ps = ps)"
proof
  show "LoadPools client store st' = Inr (case store of NoopStore \<Rightarrow> [] | RedisStore _ \<Rightarrow> map uncached ps)"
    using assms(2,3) decodePools_encodePools[OF assms(1)]
    by (cases store) (auto split: if_splits prod.splits)
  show "list_all (\<lambda>p. list_all (\<lambda>t. SqrtRatioX96 t = None) (poolTicks p)) ps \<longrightarrow> map uncached ps = ps"
    by (induction ps) (auto simp: uncached_id)
qed

definition exampleRedis :: "json option redisClient" where
  "exampleRedis = \<lparr>rcParseURL = (\<lambda>_. True), rcSet = (\<lambda>_ blob _ _. (True, Some blob)),
     rcGet = (\<lambda>_ st. case st of None \<Rightarrow> RedisNil | Some blob \<Rightarrow> RedisBlob blob),
     rcPing = (\<lambda>_. True), rcClose = Pair True\<rparr>"

definition storedPool :: pool where
  "storedPool = \<lparr>poolAddress = ''0xp'', poolProtocol = UniswapV3, poolToken0 = \<lparr>tokAddress = ''0xa'', tokSymbol = ''A'', tokDecimals = 18\<rparr>,
     poolToken1 = \<lparr>tokAddress = ''0xb'', tokSymbol = ''B'', tokDecimals = 6\<rparr>, poolFeeBps = 30, poolSimulated = False,
     poolReserve0 = None, poolReserve1 = None, poolSqrtPriceX96 = Some (2 ^ 96), poolLiquidity = Some (10 ^ 24), poolTick = - 5,
     poolTickSpacing = 60, poolTicks = [\<lparr>Index = - 60, LiquidityNet = Some (- (10 ^ 20)), SqrtRatioX96 = None\<rparr>]\<rparr>"

theorem store_roundtrip_witness:
  "SavePools exampleRedis (RedisStore 60) [storedPool] None = (Inr (), Some (encodePools [storedPool]))
   \<and> LoadPools exampleRedis (RedisStore 60) (Some (encodePools [storedPool])) = Inr [storedPool]"
proof -
  have saved: "SavePools exampleRedis (RedisStore 60) [storedPool] None = (Inr (), Some (encodePools [storedPool]))"
    by (simp add: exampleRedis_def)
  have range: "list_all pool_in_range [storedPool]"
    by (simp add: pool_in_range_def storedPool_def)
  have "map uncached [storedPool] = [storedPool]" by (simp add: uncached_def storedPool_def)
  then show ?thesis
    using store_roundtrip[OF range _ saved] saved by (simp add: exampleRedis_def)
qed

text \<open>A holder never loses its snapshot: after any sequence of publications it holds the last snapshot
  that was not nil, or is still empty; an empty holder is older than any refresh interval.\<close>

theorem holder_last_published:
  "holderGet (fold holderSet ss h) = (case filter (\<lambda>s. s \<noteq> None) ss of [] \<Rightarrow> holderGet h | xs \<Rightarrow> last xs)
   \<and> (holderIsEmpty h \<longleftrightarrow> holderGet h = None) \<and> holderAge now NewHolder = neverSet"
proof -
  have "holderGet (fold holderSet ss h) = (case filter (\<lambda>s. s \<noteq> None) ss of [] \<Rightarrow> holderGet h | xs \<Rightarrow> last xs)"
    by (induction ss arbitrary: h) (auto simp: holderSet_def holderGet_def split: list.splits)
  then show ?thesis by (simp add: holderIsEmpty_def holderGet_def holderAge_def NewHolder_def)
qed

end
