(* ===== verification/Graph_Router.thy ===== *)
theory Graph_Router
  imports Graph_Snapshot
begin

section \<open>The route search (\<^verbatim>\<open>internal/graph/router.go\<close>)\<close>

text \<open>
  \<open>relax\<close> is the hop-indexed relaxation: round \<open>k\<close> extends the best amounts of round \<open>k - 1\<close> by
  one edge. The three tables are lists of rows; one workspace is threaded through all quotes of a
  query, exactly as the source reuses one \<^verbatim>\<open>Scratch\<close>. \<open>None\<close> is a panic inside a quote (crossing a
  tick whose net liquidity is missing), which unwinds the request. Rows and tokens are indexed in
  range for every snapshot \<open>BuildSnapshot\<close> returns, so table accesses are written \<open>!\<close>.

  The theorems describe the finished table by \<open>row_done\<close> (each entry is the best one-edge extension
  of the row before it), and derive from it that a returned route is a real, executable, simple path
  whose amounts are those of fresh quotes, and how good it is.
\<close>

datatype route_error = ErrNoRoute | ErrUnknownToken | ErrBadRequest

record hop =
  hopPoolAddress :: string
  hopProtocol :: protocol
  hopFeeBps :: nat
  hopTokenIn :: string
  hopTokenOut :: string
  hopTokenInSymbol :: string
  hopTokenOutSymbol :: string
  hopAmountIn :: int
  hopAmountOut :: int

record route =
  rHops :: "hop list"
  rAmountIn :: int
  rAmountOut :: int
  rPriceImpactBps :: int

record relaxTable =
  rtAmount :: "int option list list"
  rtFrom :: "edgeRef list list"
  rtSeen :: "bool list list"
  rtRounds :: nat

datatype relaxMode = simplePaths | closedLoops

subsection \<open>The relaxation table\<close>

fun walkBack :: "relaxTable \<Rightarrow> nat \<Rightarrow> nat \<Rightarrow> nat \<Rightarrow> bool" where
  "walkBack t 0 token next = (token \<noteq> next)"
| "walkBack t (Suc k) token next =
     (if token = next then False else walkBack t k (eFrom (rtFrom t ! Suc k ! token)) next)"

definition mayVisit :: "relaxTable \<Rightarrow> nat \<Rightarrow> nat \<Rightarrow> nat \<Rightarrow> nat \<Rightarrow> relaxMode \<Rightarrow> bool" where
  "mayVisit t hops from next src mode =
     (if mode = closedLoops \<and> next = src then True
      else if next = src then False
      else if next = from then False
      else walkBack t hops from next)"

definition bestRoundFor :: "relaxTable \<Rightarrow> nat \<Rightarrow> nat option" where
  "bestRoundFor t token =
     foldl (\<lambda>best k.
         if \<not> rtSeen t ! k ! token then best
         else case best of
                None \<Rightarrow> Some k
              | Some b \<Rightarrow> if the (rtAmount t ! b ! token) < the (rtAmount t ! k ! token) then Some k else Some b)
       None [1..<Suc (rtRounds t)]"

definition set2 :: "'a list list \<Rightarrow> nat \<Rightarrow> nat \<Rightarrow> 'a \<Rightarrow> 'a list list" where
  "set2 rows k i v = rows[k := (rows ! k)[i := v]]"

definition newTable :: "nat \<Rightarrow> nat \<Rightarrow> nat \<Rightarrow> int option \<Rightarrow> relaxTable" where
  "newTable n src maxHops amountIn =
     \<lparr>rtAmount = set2 (replicate (Suc maxHops) (replicate n None)) 0 src amountIn,
      rtFrom = replicate (Suc maxHops) (replicate n \<lparr>ePool = 0, eFrom = 0, eTo = 0\<rparr>),
      rtSeen = set2 (replicate (Suc maxHops) (replicate n False)) 0 src True,
      rtRounds = maxHops\<rparr>"

text \<open>One candidate edge; the innermost loop body of \<^verbatim>\<open>relax\<close>.\<close>

definition relaxEdge :: "snapshot \<Rightarrow> nat \<Rightarrow> relaxMode \<Rightarrow> nat \<Rightarrow> nat \<Rightarrow> int option \<Rightarrow> string \<Rightarrow> edgeRef
                           \<Rightarrow> relaxTable \<times> scratch \<Rightarrow> (relaxTable \<times> scratch) option" where
  "relaxEdge s src mode k i inn fromAddr e st =
     (case st of (t, sc) \<Rightarrow>
      case AmountOutInto sc (snPools s ! ePool e) inn fromAddr of
        (sc, Panic) \<Rightarrow> None
      | (sc, Err _) \<Rightarrow> Some (t, sc)
      | (sc, Ok r) \<Rightarrow>
          let out = deref sc r
          in if out \<le> 0 then Some (t, sc)
             else if \<not> mayVisit t (k - 1) i (eTo e) src mode then Some (t, sc)
             else if rtSeen t ! k ! eTo e \<and> the (rtAmount t ! k ! eTo e) \<ge> out then Some (t, sc)
             else Some (t\<lparr>rtAmount := set2 (rtAmount t) k (eTo e) (Some out),
                          rtFrom := set2 (rtFrom t) k (eTo e) e,
                          rtSeen := set2 (rtSeen t) k (eTo e) True\<rparr>, sc))"

definition relaxToken :: "snapshot \<Rightarrow> nat \<Rightarrow> relaxMode \<Rightarrow> nat \<Rightarrow> nat
                           \<Rightarrow> relaxTable \<times> scratch \<Rightarrow> (relaxTable \<times> scratch) option" where
  "relaxToken s src mode k i st =
     (if \<not> rtSeen (fst st) ! (k - 1) ! i then Some st
      else foldM (relaxEdge s src mode k i (rtAmount (fst st) ! (k - 1) ! i) (tokAddress (snTokens s ! i)))
             (snAdj s ! i) st)"

definition relaxRound :: "snapshot \<Rightarrow> nat \<Rightarrow> relaxMode \<Rightarrow> nat
                           \<Rightarrow> relaxTable \<times> scratch \<Rightarrow> (relaxTable \<times> scratch) option" where
  "relaxRound s src mode k st = foldM (relaxToken s src mode k) [0..<length (snTokens s)] st"

definition relax :: "snapshot \<Rightarrow> nat \<Rightarrow> int option \<Rightarrow> nat \<Rightarrow> relaxMode \<Rightarrow> relaxTable option" where
  "relax s src amountIn maxHops mode =
     map_option fst
       (foldM (relaxRound s src mode) [1..<Suc maxHops]
          (newTable (length (snTokens s)) src maxHops amountIn, NewScratch))"

subsection \<open>Routes\<close>

text \<open>\<^verbatim>\<open>reconstruct\<close> fills its slice from the last hop to the first; here the same hops are appended in
  order.\<close>

fun reconstruct :: "snapshot \<Rightarrow> relaxTable \<Rightarrow> nat \<Rightarrow> nat \<Rightarrow> hop list" where
  "reconstruct s t token 0 = []"
| "reconstruct s t token (Suc k) =
     (let e = rtFrom t ! Suc k ! token;
          pool = snPools s ! ePool e
      in reconstruct s t (eFrom e) k @
         [\<lparr>hopPoolAddress = poolAddress pool, hopProtocol = poolProtocol pool, hopFeeBps = poolFeeBps pool,
           hopTokenIn = tokAddress (snTokens s ! eFrom e), hopTokenOut = tokAddress (snTokens s ! eTo e),
           hopTokenInSymbol = tokSymbol (snTokens s ! eFrom e), hopTokenOutSymbol = tokSymbol (snTokens s ! eTo e),
           hopAmountIn = the (rtAmount t ! k ! eFrom e), hopAmountOut = the (rtAmount t ! Suc k ! eTo e)\<rparr>])"

definition poolByAddress :: "snapshot \<Rightarrow> string \<Rightarrow> pool option" where
  "poolByAddress s address = find (\<lambda>p. poolAddress p = address) (snPools s)"

definition bpsScale :: int where "bpsScale = 10000"

text \<open>The probe's way along the hops: \<open>Inl ()\<close> is the early \<^verbatim>\<open>return 0\<close>, \<open>None\<close> a panic.\<close>

fun probeHops :: "snapshot \<Rightarrow> hop list \<Rightarrow> int \<Rightarrow> (unit + int) option" where
  "probeHops s [] probeOut = Some (Inr probeOut)"
| "probeHops s (h # hs) probeOut =
     (case poolByAddress s (hopPoolAddress h) of
        None \<Rightarrow> Some (Inl ())
      | Some pool \<Rightarrow>
          (case AmountOut pool (Some probeOut) (hopTokenIn h) of
             Panic \<Rightarrow> None
           | Err _ \<Rightarrow> Some (Inl ())
           | Ok next \<Rightarrow> if next \<le> 0 then Some (Inl ()) else probeHops s hs next))"

definition priceImpact :: "snapshot \<Rightarrow> hop list \<Rightarrow> int \<Rightarrow> int \<Rightarrow> int option" where
  "priceImpact s hops amountIn amountOut =
     (if hops = [] \<or> amountIn \<le> 0 then Some 0
      else
        let probeIn = go_div amountIn 1000;
            probeIn = (if probeIn \<le> 0 then 1 else probeIn)
        in case probeHops s hops probeIn of
             None \<Rightarrow> None
           | Some (Inl _) \<Rightarrow> Some 0
           | Some (Inr probeOut) \<Rightarrow>
               let expected = go_div (probeOut * amountIn) probeIn
               in if expected \<le> 0 then Some 0
                  else
                    let shortfall = expected - amountOut
                    in if shortfall \<le> 0 then Some 0
                       else
                         let shortfall = go_div (shortfall * bpsScale) expected
                         in if \<not> isInt64 shortfall then Some bpsScale else Some shortfall)"

definition FindBestRoute :: "snapshot option \<Rightarrow> string \<Rightarrow> string \<Rightarrow> int option \<Rightarrow> int
                               \<Rightarrow> (route_error, route) outcome" where
  "FindBestRoute snap tokenIn tokenOut amountIn maxHops =
     (case snap of
        None \<Rightarrow> Err ErrBadRequest
      | Some s \<Rightarrow>
          if \<not> isPositive amountIn then Err ErrBadRequest
          else if maxHops < 1 then Err ErrBadRequest
          else
            (case tokenIndex s tokenIn of
               None \<Rightarrow> Err ErrUnknownToken
             | Some src \<Rightarrow>
                 (case tokenIndex s tokenOut of
                    None \<Rightarrow> Err ErrUnknownToken
                  | Some dst \<Rightarrow>
                      if src = dst then Err ErrBadRequest
                      else
                        (case relax s src amountIn (nat maxHops) simplePaths of
                           None \<Rightarrow> Panic
                         | Some table \<Rightarrow>
                             (case bestRoundFor table dst of
                                None \<Rightarrow> Err ErrNoRoute
                              | Some bestRound \<Rightarrow>
                                  let hops = reconstruct s table dst bestRound;
                                      out = the (rtAmount table ! bestRound ! dst)
                                  in case priceImpact s hops (the amountIn) out of
                                       None \<Rightarrow> Panic
                                     | Some impact \<Rightarrow>
                                         Ok \<lparr>rHops = hops, rAmountIn = the amountIn, rAmountOut = out,
                                             rPriceImpactBps = impact\<rparr>)))))"

subsection \<open>Reading and writing the table\<close>

lemma set2_length [simp]: "length (set2 rows k i v) = length rows"
  by (simp add: set2_def)

lemma set2_row_length [simp]: "length (set2 rows k i v ! j) = length (rows ! j)"
  by (cases "k < length rows"; cases "j = k") (simp_all add: set2_def list_update_beyond)

lemma set2_read:
  assumes "k < length rows" "i < length (rows ! k)"
  shows "set2 rows k i v ! j ! x = (if j = k \<and> x = i then v else rows ! j ! x)"
  using assms by (cases "j = k"; cases "x = i"; simp add: set2_def)

lemma set2_row: "j \<noteq> k \<Longrightarrow> set2 rows k i v ! j = rows ! j"
  by (simp add: set2_def)

definition dims :: "nat \<Rightarrow> nat \<Rightarrow> relaxTable \<Rightarrow> bool" where
  "dims n R t \<longleftrightarrow> length (rtAmount t) = Suc R \<and> length (rtFrom t) = Suc R \<and> length (rtSeen t) = Suc R
     \<and> (\<forall>k \<le> R. length (rtAmount t ! k) = n \<and> length (rtFrom t ! k) = n \<and> length (rtSeen t ! k) = n)
     \<and> rtRounds t = R"

definition same_row :: "nat \<Rightarrow> relaxTable \<Rightarrow> relaxTable \<Rightarrow> bool" where
  "same_row j t u \<longleftrightarrow> rtAmount t ! j = rtAmount u ! j \<and> rtFrom t ! j = rtFrom u ! j \<and> rtSeen t ! j = rtSeen u ! j"

lemma same_row_refl [simp]: "same_row j t t"
  by (simp add: same_row_def)

lemma same_row_trans: "same_row j t u \<Longrightarrow> same_row j u w \<Longrightarrow> same_row j t w"
  by (simp add: same_row_def)

lemma walkBack_cong: "(\<And>j. j \<le> k \<Longrightarrow> same_row j t u) \<Longrightarrow> walkBack t k token next = walkBack u k token next"
  by (induction k arbitrary: token) (auto simp: same_row_def)

lemma mayVisit_cong:
  "(\<And>j. j \<le> k \<Longrightarrow> same_row j t u) \<Longrightarrow> mayVisit t k from next src mode = mayVisit u k from next src mode"
  using walkBack_cong[where t = t and u = u and k = k] by (simp add: mayVisit_def)

subsection \<open>What a finished row contains\<close>

text \<open>\<open>step\<close>: the edge \<open>e\<close> extends the entry of token \<open>i\<close> in row \<open>k - 1\<close> to the amount \<open>v\<close>, priced by
  a fresh quote. \<open>row_done\<close>: every entry of row \<open>k\<close> is such an extension, and none is better.\<close>

definition step :: "snapshot \<Rightarrow> nat \<Rightarrow> relaxMode \<Rightarrow> relaxTable \<Rightarrow> nat \<Rightarrow> nat \<Rightarrow> edgeRef \<Rightarrow> int \<Rightarrow> bool" where
  "step s src mode t k i e v \<longleftrightarrow> i < length (snTokens s) \<and> e \<in> set (snAdj s ! i) \<and> rtSeen t ! (k - 1) ! i
     \<and> AmountOut (snPools s ! ePool e) (rtAmount t ! (k - 1) ! i) (tokAddress (snTokens s ! i)) = Ok v
     \<and> 0 < v \<and> mayVisit t (k - 1) i (eTo e) src mode"

definition row_done :: "snapshot \<Rightarrow> nat \<Rightarrow> relaxMode \<Rightarrow> relaxTable \<Rightarrow> nat \<Rightarrow> bool" where
  "row_done s src mode t k \<longleftrightarrow>
     (\<forall>x < length (snTokens s). rtSeen t ! k ! x \<longrightarrow>
        (\<exists>i v. step s src mode t k i (rtFrom t ! k ! x) v \<and> eTo (rtFrom t ! k ! x) = x \<and> rtAmount t ! k ! x = Some v))
     \<and> (\<forall>i e v. step s src mode t k i e v \<longrightarrow>
           rtSeen t ! k ! eTo e \<and> v \<le> the (rtAmount t ! k ! eTo e))"

lemma step_cong: "(\<And>j. j \<le> k - 1 \<Longrightarrow> same_row j t u) \<Longrightarrow> step s src mode t k i e v = step s src mode u k i e v"
  using mayVisit_cong[of "k - 1" t u] unfolding step_def same_row_def by (metis order_refl)

lemma row_done_cong:
  assumes "\<And>j. j \<le> k \<Longrightarrow> same_row j t u"
  shows "row_done s src mode t k = row_done s src mode u k"
proof -
  have st: "step s src mode t k i e v = step s src mode u k i e v" for i e v
    using assms by (intro step_cong) auto
  have "same_row k t u" using assms by simp
  then show ?thesis unfolding row_done_def st by (simp add: same_row_def)
qed

text \<open>While round \<open>k\<close> runs: \<open>C\<close> holds the candidates already tried against the table \<open>t0\<close> the round
  started from.\<close>

definition row_part :: "snapshot \<Rightarrow> nat \<Rightarrow> relaxMode \<Rightarrow> nat \<Rightarrow> nat \<Rightarrow> relaxTable \<Rightarrow> (nat \<times> edgeRef) set
                          \<Rightarrow> relaxTable \<times> scratch \<Rightarrow> bool" where
  "row_part s src mode R k t0 C st \<longleftrightarrow>
     (case st of (t, sc) \<Rightarrow> sc One = 1 \<and> dims (length (snTokens s)) R t \<and> (\<forall>j. j \<noteq> k \<longrightarrow> same_row j t t0)
       \<and> (\<forall>x < length (snTokens s). rtSeen t ! k ! x \<longrightarrow>
            (\<exists>i v. step s src mode t0 k i (rtFrom t ! k ! x) v \<and> eTo (rtFrom t ! k ! x) = x \<and> rtAmount t ! k ! x = Some v))
       \<and> (\<forall>i e v. (i, e) \<in> C \<longrightarrow> step s src mode t0 k i e v \<longrightarrow>
            rtSeen t ! k ! eTo e \<and> v \<le> the (rtAmount t ! k ! eTo e)))"

lemma row_part_keep:
  assumes "row_part s src mode R k t0 C (t, sc)" "sc' One = 1"
    and "\<And>v. step s src mode t0 k i e v \<Longrightarrow> rtSeen t ! k ! eTo e \<and> v \<le> the (rtAmount t ! k ! eTo e)"
  shows "row_part s src mode R k t0 (insert (i, e) C) (t, sc')"
  using assms by (auto simp: row_part_def)

lemma row_part_set:
  assumes "row_part s src mode R k t0 C (t, sc)" "sc' One = 1" "k \<le> R" "eTo e < length (snTokens s)"
    and "step s src mode t0 k i e v" "\<And>w. step s src mode t0 k i e w \<Longrightarrow> w = v"
    and "rtSeen t ! k ! eTo e \<Longrightarrow> the (rtAmount t ! k ! eTo e) < v"
  shows "row_part s src mode R k t0 (insert (i, e) C)
     (t\<lparr>rtAmount := set2 (rtAmount t) k (eTo e) (Some v), rtFrom := set2 (rtFrom t) k (eTo e) e,
        rtSeen := set2 (rtSeen t) k (eTo e) True\<rparr>, sc')"
proof -
  have d: "dims (length (snTokens s)) R t" using assms(1) by (simp add: row_part_def)
  have read: "set2 (rtAmount t) k (eTo e) (Some v) ! j ! x = (if j = k \<and> x = eTo e then Some v else rtAmount t ! j ! x)"
    "set2 (rtFrom t) k (eTo e) e ! j ! x = (if j = k \<and> x = eTo e then e else rtFrom t ! j ! x)"
    "set2 (rtSeen t) k (eTo e) True ! j ! x = (if j = k \<and> x = eTo e then True else rtSeen t ! j ! x)" for j x
    using d assms(3,4) by (auto simp: dims_def set2_read)
  have best: "if eTo e' = eTo e then v' \<le> v else rtSeen t ! k ! eTo e' \<and> v' \<le> the (rtAmount t ! k ! eTo e')"
    if "(i', e') \<in> insert (i, e) C" "step s src mode t0 k i' e' v'" for i' e' v'
    using that assms(1,6,7) by (fastforce simp: row_part_def)
  have "v' \<le> v" if "(i', e') \<in> insert (i, e) C" "step s src mode t0 k i' e' v'" "eTo e' = eTo e" for i' e' v'
    using best[OF that(1,2)] that(3) by simp
  moreover have "rtSeen t ! k ! eTo e' \<and> v' \<le> the (rtAmount t ! k ! eTo e')"
    if "(i', e') \<in> insert (i, e) C" "step s src mode t0 k i' e' v'" "eTo e' \<noteq> eTo e" for i' e' v'
    using best[OF that(1,2)] that(3) by simp
  ultimately show ?thesis
    using assms(1,2,5) d unfolding row_part_def prod.case
    by (intro conjI allI impI) (auto simp: read dims_def same_row_def set2_row)
qed

text \<open>What one edge does to the table: nothing, when its quote does not help, or a better way into its token.\<close>

lemma relaxEdge_cases:
  assumes One: "sc One = 1" and run: "relaxEdge s src mode k i amt from e (t, sc) = Some st'"
  obtains (skip) sc' where "st' = (t, sc')" "sc' One = 1"
      "\<And>v. AmountOut (snPools s ! ePool e) amt from = Ok v \<Longrightarrow> 0 < v \<Longrightarrow> mayVisit t (k - 1) i (eTo e) src mode
         \<Longrightarrow> rtSeen t ! k ! eTo e \<and> v \<le> the (rtAmount t ! k ! eTo e)"
  | (improve) sc' v where
      "st' = (t\<lparr>rtAmount := set2 (rtAmount t) k (eTo e) (Some v), rtFrom := set2 (rtFrom t) k (eTo e) e,
                rtSeen := set2 (rtSeen t) k (eTo e) True\<rparr>, sc')" "sc' One = 1"
      "AmountOut (snPools s ! ePool e) amt from = Ok v" "0 < v" "mayVisit t (k - 1) i (eTo e) src mode"
      "rtSeen t ! k ! eTo e \<Longrightarrow> the (rtAmount t ! k ! eTo e) < v"
proof (rule dexp.into_cases[of sc "snPools s ! ePool e" amt "from", OF One])
  fix sc' err
  assume "AmountOutInto sc (snPools s ! ePool e) amt from = (sc', Err err)" "quote (snPools s ! ePool e) amt from = Err err" "sc' One = 1"
  then show thesis using run by (intro skip[of sc']) (auto simp: relaxEdge_def AmountOut_eq)
next
  fix sc'
  assume "AmountOutInto sc (snPools s ! ePool e) amt from = (sc', Panic)"
  then show thesis using run by (simp add: relaxEdge_def)
next
  fix sc' r v
  assume q: "AmountOutInto sc (snPools s ! ePool e) amt from = (sc', Ok r)" "deref sc' r = v" "quote (snPools s ! ePool e) amt from = Ok v" "sc' One = 1"
  show thesis
  proof (cases "0 < v \<and> mayVisit t (k - 1) i (eTo e) src mode \<and> \<not> (rtSeen t ! k ! eTo e \<and> v \<le> the (rtAmount t ! k ! eTo e))")
    case True
    then show thesis using run q by (intro improve[of v sc']) (auto simp: relaxEdge_def AmountOut_eq)
  next
    case False
    then show thesis using run q by (intro skip[of sc']) (auto simp: relaxEdge_def AmountOut_eq split: if_splits)
  qed
qed

lemma relaxEdge_part:
  assumes part: "row_part s src mode R k t0 C st" and k: "1 \<le> k" "k \<le> R"
    and e: "i < length (snTokens s)" "e \<in> set (snAdj s ! i)" "eTo e < length (snTokens s)" "rtSeen t0 ! (k - 1) ! i"
    and run: "relaxEdge s src mode k i (rtAmount t0 ! (k - 1) ! i) (tokAddress (snTokens s ! i)) e st = Some st'"
  shows "row_part s src mode R k t0 (insert (i, e) C) st'"
proof -
  obtain t sc where st: "st = (t, sc)" by (cases st)
  have One: "sc One = 1" using part st by (simp add: row_part_def)
  have rows: "same_row j t t0" if "j \<le> k - 1" for j using part st k that by (auto simp: row_part_def)
  have visit: "mayVisit t (k - 1) i (eTo e) src mode = mayVisit t0 (k - 1) i (eTo e) src mode"
    by (rule mayVisit_cong) (rule rows)
  show ?thesis
  proof (cases rule: relaxEdge_cases[OF One run[unfolded st], unfolded visit, case_names skip improve])
    case (skip sc')
    show ?thesis unfolding skip(1) by (rule row_part_keep[where sc = sc and sc' = sc', OF part[unfolded st] skip(2)]) (use skip(3) in \<open>auto simp: step_def\<close>)
  next
    case (improve sc' v)
    show ?thesis unfolding improve(1)
      by (rule row_part_set[where sc = sc and sc' = sc', OF part[unfolded st] improve(2) k(2) e(3)]) (use improve(3-6) e in \<open>auto simp: step_def\<close>)
  qed
qed

subsection \<open>The finished table\<close>

definition row_clear :: "nat \<Rightarrow> relaxTable \<Rightarrow> nat \<Rightarrow> bool" where
  "row_clear n t k \<longleftrightarrow> (\<forall>x < n. \<not> rtSeen t ! k ! x)"

lemma relaxToken_part:
  assumes wf: "edges_ok s" and part: "row_part s src mode R k t0 C st" and k: "1 \<le> k" "k \<le> R"
    and i: "i < length (snTokens s)" and run: "relaxToken s src mode k i st = Some st'"
  shows "row_part s src mode R k t0 (C \<union> Pair i ` set (snAdj s ! i)) st'"
proof -
  have row: "same_row (k - 1) (fst st) t0" using part k by (cases st) (auto simp: row_part_def)
  show ?thesis
  proof (cases "rtSeen t0 ! (k - 1) ! i")
    case False
    then have "st' = st" using run row by (simp add: relaxToken_def same_row_def)
    moreover have "\<not> step s src mode t0 k i e v" for e v using False by (simp add: step_def)
    ultimately show ?thesis using part by (cases st) (auto simp: row_part_def)
  next
    case True
    then have "foldM (relaxEdge s src mode k i (rtAmount t0 ! (k - 1) ! i) (tokAddress (snTokens s ! i))) (snAdj s ! i) st = Some st'"
      using run row by (simp add: relaxToken_def same_row_def)
    then show ?thesis
    proof (rule foldM_invariant_prefix[where I = "\<lambda>es. row_part s src mode R k t0 (C \<union> Pair i ` set es)"])
      show "row_part s src mode R k t0 (C \<union> Pair i ` set []) st" using part by simp
    next
      fix ys e zs u u'
      assume sp: "snAdj s ! i = ys @ e # zs" and u: "row_part s src mode R k t0 (C \<union> Pair i ` set ys) u"
        and r: "relaxEdge s src mode k i (rtAmount t0 ! (k - 1) ! i) (tokAddress (snTokens s ! i)) e u = Some u'"
      have e: "e \<in> set (snAdj s ! i)" using sp by simp
      then have "eTo e < length (snTokens s)" using wf i by (auto simp: edges_ok_def edge_ok_def)
      from relaxEdge_part[OF u k i e this True r]
      show "row_part s src mode R k t0 (C \<union> Pair i ` set (ys @ [e])) u'" by simp
    qed
  qed
qed

lemma relaxRound_done:
  assumes wf: "edges_ok s" and k: "1 \<le> k" "k \<le> R" and t: "dims (length (snTokens s)) R t" "row_clear (length (snTokens s)) t k"
    and sc: "sc One = 1" and run: "relaxRound s src mode k (t, sc) = Some (t', sc')"
  shows "sc' One = 1" "dims (length (snTokens s)) R t'" "j \<noteq> k \<Longrightarrow> same_row j t' t" "row_done s src mode t' k"
proof -
  let ?all = "\<lambda>is. (\<Union>i \<in> set is. Pair i ` set (snAdj s ! i))"
  have "row_part s src mode R k t (?all [0..<length (snTokens s)]) (t', sc')"
    using run unfolding relaxRound_def
  proof (rule foldM_invariant_prefix[where I = "\<lambda>is. row_part s src mode R k t (?all is)"])
    show "row_part s src mode R k t (?all []) (t, sc)" using t sc by (simp add: row_part_def row_clear_def)
  next
    fix ys i zs u u'
    assume sp: "[0..<length (snTokens s)] = ys @ i # zs" and u: "row_part s src mode R k t (?all ys) u"
      and r: "relaxToken s src mode k i u = Some u'"
    have "i \<in> set [0..<length (snTokens s)]" by (simp add: sp)
    then have "i < length (snTokens s)" by simp
    from relaxToken_part[OF wf u k this r]
    show "row_part s src mode R k t (?all (ys @ [i])) u'" by (simp add: Un_commute)
  qed
  moreover have "?all [0..<length (snTokens s)] = {(i, e). i < length (snTokens s) \<and> e \<in> set (snAdj s ! i)}"
    by auto
  ultimately have part: "row_part s src mode R k t {(i, e). i < length (snTokens s) \<and> e \<in> set (snAdj s ! i)} (t', sc')"
    by (simp only:)
  show "sc' One = 1" "dims (length (snTokens s)) R t'" and same: "j \<noteq> k \<Longrightarrow> same_row j t' t" for j
    using part unfolding row_part_def prod.case by blast+
  have st: "step s src mode t' k i e v = step s src mode t k i e v" for i e v
    using k by (intro step_cong same) auto
  have A: "\<forall>x < length (snTokens s). rtSeen t' ! k ! x \<longrightarrow> (\<exists>i v. step s src mode t k i (rtFrom t' ! k ! x) v
      \<and> eTo (rtFrom t' ! k ! x) = x \<and> rtAmount t' ! k ! x = Some v)"
    using part unfolding row_part_def prod.case by (elim conjE)
  have B: "rtSeen t' ! k ! eTo e \<and> v \<le> the (rtAmount t' ! k ! eTo e)" if "step s src mode t k i e v" for i e v
  proof -
    have "(i, e) \<in> {(i, e). i < length (snTokens s) \<and> e \<in> set (snAdj s ! i)}" using that by (simp add: step_def)
    with that part show ?thesis unfolding row_part_def prod.case by blast
  qed
  show "row_done s src mode t' k" unfolding row_done_def st using A B by (intro conjI allI impI) simp_all
qed

definition table_ok :: "snapshot \<Rightarrow> nat \<Rightarrow> relaxMode \<Rightarrow> int option \<Rightarrow> nat \<Rightarrow> relaxTable \<Rightarrow> bool" where
  "table_ok s src mode amountIn R t \<longleftrightarrow> dims (length (snTokens s)) R t
     \<and> (\<forall>x < length (snTokens s). rtSeen t ! 0 ! x \<longleftrightarrow> x = src) \<and> rtAmount t ! 0 ! src = amountIn
     \<and> (\<forall>k. 1 \<le> k \<longrightarrow> k \<le> R \<longrightarrow> row_done s src mode t k)"

lemma upt_prefix: "[a..<b] = ys @ k # zs \<Longrightarrow> ys = [a..<k] \<and> a \<le> k \<and> k < b"
proof (induction ys arbitrary: a)
  case (Cons y ys)
  then have "y = a" "a < b" "[Suc a..<b] = ys @ k # zs" by (auto simp: upt_eq_Cons_conv)
  then show ?case using Cons.IH[of "Suc a"] by (auto simp: upt_rec[of a k])
qed (auto simp: upt_eq_Cons_conv)

lemma newTable_ok:
  assumes "src < n"
  shows "dims n R (newTable n src R amountIn)" "x < n \<Longrightarrow> rtSeen (newTable n src R amountIn) ! 0 ! x \<longleftrightarrow> x = src"
    "rtAmount (newTable n src R amountIn) ! 0 ! src = amountIn"
    "1 \<le> k \<Longrightarrow> k \<le> R \<Longrightarrow> row_clear n (newTable n src R amountIn) k"
  using assms by (auto simp: newTable_def dims_def set2_read set2_row row_clear_def simp del: replicate_Suc)

lemma relax_ok:
  assumes wf: "edges_ok s" "src < length (snTokens s)" and run: "relax s src amountIn R mode = Some t"
  shows "table_ok s src mode amountIn R t"
proof -
  let ?n = "length (snTokens s)"
  let ?I = "\<lambda>ks (t, sc). sc One = 1 \<and> dims ?n R t \<and> same_row 0 t (newTable ?n src R amountIn)
     \<and> (\<forall>k \<in> set ks. row_done s src mode t k) \<and> (\<forall>k. 1 \<le> k \<and> k \<le> R \<and> k \<notin> set ks \<longrightarrow> row_clear ?n t k)"
  obtain sc where "foldM (relaxRound s src mode) [1..<Suc R] (newTable ?n src R amountIn, NewScratch) = Some (t, sc)"
    using run by (auto simp: relax_def)
  then have "?I [1..<Suc R] (t, sc)"
  proof (rule foldM_invariant_prefix)
    show "?I [] (newTable ?n src R amountIn, NewScratch)" using newTable_ok[OF wf(2)] by simp
  next
    fix ys k zs st st'
    assume sp: "[1..<Suc R] = ys @ k # zs" and I: "?I ys st" and r: "relaxRound s src mode k st = Some st'"
    have ks: "1 \<le> k" "k \<le> R" and ys: "\<And>j. j \<in> set ys \<Longrightarrow> 1 \<le> j \<and> j < k"
      using upt_prefix[OF sp] by auto
    obtain t sc where st: "st = (t, sc)" by (cases st)
    obtain t' sc' where st': "st' = (t', sc')" by (cases st')
    have "row_clear ?n t k" using I st ks ys by auto
    note d = relaxRound_done[OF wf(1) ks _ this _ r[unfolded st st']]
    have D: "sc' One = 1" "dims ?n R t'" "row_done s src mode t' k" "\<And>j. j \<noteq> k \<Longrightarrow> same_row j t' t"
      using d I st by auto
    have "row_done s src mode t' j" if "j \<in> set ys" for j
    proof -
      have "row_done s src mode t j" using I st that by auto
      moreover have "same_row l t' t" if "l \<le> j" for l using D(4)[of l] ys[OF \<open>j \<in> set ys\<close>] that by simp
      ultimately show ?thesis using row_done_cong[of j t' t] by simp
    qed
    moreover have "same_row 0 t' (newTable ?n src R amountIn)"
      using D(4)[of 0] ks I st same_row_trans by auto
    moreover have "row_clear ?n t' j" if "1 \<le> j \<and> j \<le> R \<and> j \<notin> set (ys @ [k])" for j
      using that I st D(4)[of j] by (auto simp: row_clear_def same_row_def)
    ultimately show "?I (ys @ [k]) st'" using D st' by auto
  qed
  then show ?thesis using newTable_ok[OF wf(2)] by (auto simp: table_ok_def same_row_def)
qed

subsection \<open>Paths\<close>

text \<open>The market as a client sees it: edges that quote, and for the \<open>good\<close> ones the law the router's
  comment rests on (a larger input is still quoted and never yields less). Running a path feeds each
  output into the next edge; the law lifts to paths.\<close>

primrec runPath :: "('e \<Rightarrow> int \<Rightarrow> int option) \<Rightarrow> 'e list \<Rightarrow> int \<Rightarrow> int option" where
  "runPath q [] a = Some a"
| "runPath q (e # es) a = (case q e a of None \<Rightarrow> None | Some v \<Rightarrow> runPath q es v)"

lemma runPath_snoc: "runPath q (es @ [e]) a = (case runPath q es a of None \<Rightarrow> None | Some v \<Rightarrow> q e v)"
  by (induction es arbitrary: a) (auto split: option.split)

locale monotone_market =
  fixes q :: "'e \<Rightarrow> int \<Rightarrow> int option"
    and good :: "'e \<Rightarrow> bool"
  assumes quote_mono: "good e \<Longrightarrow> q e a = Some v \<Longrightarrow> a \<le> b \<Longrightarrow> \<exists>w. q e b = Some w \<and> v \<le> w"
begin

lemma path_mono:
  assumes "list_all good es" "runPath q es a = Some v" "a \<le> b"
  shows "\<exists>w. runPath q es b = Some w \<and> v \<le> w"
  using assms
proof (induction es arbitrary: a b)
  case (Cons e es)
  then obtain u where u: "q e a = Some u" "runPath q es u = Some v" by (auto split: option.splits)
  obtain u' where "q e b = Some u'" "u \<le> u'" using quote_mono[OF _ u(1) Cons.prems(3)] Cons.prems(1) by auto
  then show ?case using Cons.IH[OF _ u(2)] Cons.prems(1) by auto
qed simp

end

definition edgeQuote :: "snapshot \<Rightarrow> edgeRef \<Rightarrow> int \<Rightarrow> int option" where
  "edgeQuote s e a =
     (case AmountOut (snPools s ! ePool e) (Some a) (tokAddress (snTokens s ! eFrom e)) of
        Ok v \<Rightarrow> if 0 < v then Some v else None
      | _ \<Rightarrow> None)"

lemma edgeQuote_Some:
  "edgeQuote s e a = Some v \<longleftrightarrow>
     AmountOut (snPools s ! ePool e) (Some a) (tokAddress (snTokens s ! eFrom e)) = Ok v \<and> 0 < v"
  by (auto simp: edgeQuote_def split: outcome.split)

interpretation v2market: monotone_market "edgeQuote s" "\<lambda>e. poolProtocol (snPools s ! ePool e) = SushiswapV2"
  for s
proof unfold_locales
  fix e a v b
  assume v2: "poolProtocol (snPools s ! ePool e) = SushiswapV2" and q: "edgeQuote s e a = Some v" and ab: "a \<le> b"
  let ?p = "snPools s ! ePool e"
  obtain z where z: "direction ?p (tokAddress (snTokens s ! eFrom e)) = Inr z" "SwapV2 (Some a) (orientV2 ?p z) = Ok v"
    using quote_v2[OF v2] q[unfolded edgeQuote_Some] by metis
  then obtain w where w: "SwapV2 (Some b) (orientV2 ?p z) = Ok w" "v \<le> w"
    using v2Out_mono[of a b] ab by (auto simp: SwapV2_eq swapV2_Ok_iff)
  then have "AmountOut ?p (Some b) (tokAddress (snTokens s ! eFrom e)) = Ok w"
    using v2 z(1) w(1) by (auto simp: AmountOut_eq quote_def SwapV2_eq swapV2_Ok_iff orientV2_def split: if_splits)
  then show "\<exists>w. edgeQuote s e b = Some w \<and> v \<le> w" using w(2) q by (auto simp: edgeQuote_Some)
qed

fun walk :: "snapshot \<Rightarrow> nat \<Rightarrow> edgeRef list \<Rightarrow> nat \<Rightarrow> bool" where
  "walk s a [] b \<longleftrightarrow> a = b"
| "walk s a (e # es) b \<longleftrightarrow> a < length (snTokens s) \<and> e \<in> set (snAdj s ! a) \<and> walk s (eTo e) es b"

lemma walk_snoc:
  "walk s a (es @ [e]) b \<longleftrightarrow> (\<exists>m. walk s a es m \<and> m < length (snTokens s) \<and> e \<in> set (snAdj s ! m) \<and> b = eTo e)"
  by (induction es arbitrary: a) auto

fun pathEdges :: "relaxTable \<Rightarrow> nat \<Rightarrow> nat \<Rightarrow> edgeRef list" where
  "pathEdges t 0 x = []"
| "pathEdges t (Suc k) x = (let e = rtFrom t ! Suc k ! x in pathEdges t k (eFrom e) @ [e])"

fun tokensBack :: "relaxTable \<Rightarrow> nat \<Rightarrow> nat \<Rightarrow> nat list" where
  "tokensBack t 0 x = [x]"
| "tokensBack t (Suc k) x = x # tokensBack t k (eFrom (rtFrom t ! Suc k ! x))"

lemma walkBack_iff: "walkBack t k x y \<longleftrightarrow> y \<notin> set (tokensBack t k x)"
  by (induction k arbitrary: x) auto

lemma table_path:
  assumes wf: "edges_ok s" and t: "table_ok s src mode (Some a) R t"
    and "k \<le> R" "x < length (snTokens s)" "rtSeen t ! k ! x"
  shows "walk s src (pathEdges t k x) x \<and> length (pathEdges t k x) = k
    \<and> (\<exists>v. rtAmount t ! k ! x = Some v \<and> runPath (edgeQuote s) (pathEdges t k x) a = Some v)
    \<and> tokensBack t k x = rev (src # map eTo (pathEdges t k x))
    \<and> (mode = simplePaths \<longrightarrow> distinct (src # map eTo (pathEdges t k x)))"
  using assms(3-5)
proof (induction k arbitrary: x)
  case 0
  then show ?case using t by (simp add: table_ok_def)
next
  case (Suc k)
  let ?e = "rtFrom t ! Suc k ! x"
  have "row_done s src mode t (Suc k)" using t Suc.prems(1) by (simp add: table_ok_def)
  then obtain i v where st: "step s src mode t (Suc k) i ?e v" and x: "eTo ?e = x" and v: "rtAmount t ! Suc k ! x = Some v"
    using Suc.prems(2,3) unfolding row_done_def by blast
  have i: "i < length (snTokens s)" "?e \<in> set (snAdj s ! i)" "rtSeen t ! k ! i"
    and q: "AmountOut (snPools s ! ePool ?e) (rtAmount t ! k ! i) (tokAddress (snTokens s ! i)) = Ok v" "0 < v"
    and vis: "mayVisit t k i x src mode"
    using st x by (auto simp: step_def)
  have fr: "eFrom ?e = i" using wf i by (auto simp: edges_ok_def edge_ok_def)
  note IH = Suc.IH[OF Suc_leD[OF Suc.prems(1)] i(1,3)]
  have "x \<notin> set (src # map eTo (pathEdges t k i))" if "mode = simplePaths"
  proof -
    have "walkBack t k i x" "x \<noteq> src" using vis that by (auto simp: mayVisit_def split: if_splits)
    then show ?thesis using IH by (simp add: walkBack_iff)
  qed
  then show ?case using IH i q v x fr by (auto simp: walk_snoc runPath_snoc edgeQuote_Some Let_def)
qed

definition hopAt :: "snapshot \<Rightarrow> edgeRef \<Rightarrow> int \<Rightarrow> int \<Rightarrow> hop" where
  "hopAt s e a v =
     (let pool = snPools s ! ePool e in
      \<lparr>hopPoolAddress = poolAddress pool, hopProtocol = poolProtocol pool, hopFeeBps = poolFeeBps pool,
       hopTokenIn = tokAddress (snTokens s ! eFrom e), hopTokenOut = tokAddress (snTokens s ! eTo e),
       hopTokenInSymbol = tokSymbol (snTokens s ! eFrom e), hopTokenOutSymbol = tokSymbol (snTokens s ! eTo e),
       hopAmountIn = a, hopAmountOut = v\<rparr>)"

text \<open>The hops of a path, priced one after the other.\<close>

fun hopsOf :: "snapshot \<Rightarrow> edgeRef list \<Rightarrow> int \<Rightarrow> hop list" where
  "hopsOf s [] a = []"
| "hopsOf s (e # es) a = (let v = the (edgeQuote s e a) in hopAt s e a v # hopsOf s es v)"

lemma hopsOf_snoc:
  assumes "runPath (edgeQuote s) es a = Some m"
  shows "hopsOf s (es @ [e]) a = hopsOf s es a @ [hopAt s e m (the (edgeQuote s e m))]"
  using assms by (induction es arbitrary: a) (auto simp: Let_def split: option.splits)

lemma reconstruct_hopsOf:
  assumes wf: "edges_ok s" and t: "table_ok s src mode (Some a) R t"
    and "k \<le> R" "x < length (snTokens s)" "rtSeen t ! k ! x"
  shows "reconstruct s t x k = hopsOf s (pathEdges t k x) a"
  using assms(3-5)
proof (induction k arbitrary: x)
  case (Suc k)
  let ?e = "rtFrom t ! Suc k ! x"
  have "row_done s src mode t (Suc k)" using t Suc.prems(1) by (simp add: table_ok_def)
  then obtain i v where st: "step s src mode t (Suc k) i ?e v" and x: "eTo ?e = x" and v: "rtAmount t ! Suc k ! x = Some v"
    using Suc.prems(2,3) unfolding row_done_def by blast
  have i: "i < length (snTokens s)" "?e \<in> set (snAdj s ! i)" "rtSeen t ! k ! i"
    and q: "AmountOut (snPools s ! ePool ?e) (rtAmount t ! k ! i) (tokAddress (snTokens s ! i)) = Ok v" "0 < v"
    using st by (auto simp: step_def)
  have fr: "eFrom ?e = i" using wf i by (auto simp: edges_ok_def edge_ok_def)
  obtain m where m: "rtAmount t ! k ! i = Some m" "runPath (edgeQuote s) (pathEdges t k i) a = Some m"
    using table_path[OF wf t Suc_leD[OF Suc.prems(1)] i(1,3)] by blast
  have "edgeQuote s ?e m = Some v" using q m fr by (simp add: edgeQuote_Some)
  then show ?case
    using Suc.IH[OF Suc_leD[OF Suc.prems(1)] i(1,3)] hopsOf_snoc[OF m(2), of ?e] m v x fr
    by (simp add: Let_def hopAt_def)
qed simp

subsection \<open>The best round\<close>

lemma bestRound_foldl:
  fixes amt :: "nat \<Rightarrow> int" and sn :: "nat \<Rightarrow> bool"
  defines "pick \<equiv> \<lambda>best k. if \<not> sn k then best else case best of None \<Rightarrow> Some k | Some b \<Rightarrow> if amt b < amt k then Some k else Some b"
  shows "case foldl pick None ks of
      None \<Rightarrow> (\<forall>k \<in> set ks. \<not> sn k)
    | Some b \<Rightarrow> b \<in> set ks \<and> sn b \<and> (\<forall>k \<in> set ks. sn k \<longrightarrow> amt k \<le> amt b)"
  by (induction ks rule: rev_induct) (auto simp: pick_def split: option.splits)

lemma bestRoundFor_spec:
  "case bestRoundFor t x of
      None \<Rightarrow> (\<forall>k. 1 \<le> k \<and> k \<le> rtRounds t \<longrightarrow> \<not> rtSeen t ! k ! x)
    | Some b \<Rightarrow> 1 \<le> b \<and> b \<le> rtRounds t \<and> rtSeen t ! b ! x
        \<and> (\<forall>k. 1 \<le> k \<and> k \<le> rtRounds t \<and> rtSeen t ! k ! x \<longrightarrow> the (rtAmount t ! k ! x) \<le> the (rtAmount t ! b ! x))"
  using bestRound_foldl[where sn = "\<lambda>k. rtSeen t ! k ! x" and amt = "\<lambda>k. the (rtAmount t ! k ! x)"
      and ks = "[1..<Suc (rtRounds t)]"]
  unfolding bestRoundFor_def[symmetric] by (auto split: option.splits)

subsection \<open>Pools along a simple path\<close>

lemma key_inj:
  assumes "index_ok s" "i < length (snTokens s)" "j < length (snTokens s)" "tokKey (snTokens s ! i) = tokKey (snTokens s ! j)"
  shows "i = j"
  using assms index_okD(2)[OF assms(1), of "tokKey (snTokens s ! i)"] by (metis option.inject)

lemma same_pool_same_tokens:
  assumes wf: "snapshot_wf s" and "i < length (snTokens s)" "j < length (snTokens s)"
    and "e \<in> set (snAdj s ! i)" "f \<in> set (snAdj s ! j)" "ePool e = ePool f"
  shows "eTo f \<in> {i, eTo e}"
proof -
  have ok: "edge_ok s i e" "edge_ok s j f" using assms by (auto simp: snapshot_wf_def edges_ok_def)
  have ix: "index_ok s" using wf by (simp add: snapshot_wf_def)
  have "tokKey (snTokens s ! eTo f) = tokKey (snTokens s ! i) \<or> tokKey (snTokens s ! eTo f) = tokKey (snTokens s ! eTo e)"
    using ok assms(6) by (auto simp: edge_ok_def Let_def)
  then show ?thesis using key_inj[OF ix] ok assms(2) by (auto simp: edge_ok_def)
qed

lemma walk_edges: "walk s a es b \<Longrightarrow> f \<in> set es \<Longrightarrow> \<exists>j < length (snTokens s). f \<in> set (snAdj s ! j)"
  by (induction es arbitrary: a) auto

lemma simple_walk_pools:
  assumes wf: "snapshot_wf s" and "walk s a es b" "distinct (a # map eTo es)"
  shows "distinct (map ePool es)"
  using assms(2,3)
proof (induction es arbitrary: a)
  case (Cons e es)
  have "ePool e \<noteq> ePool f" if f: "f \<in> set es" for f
  proof
    assume eq: "ePool e = ePool f"
    obtain j where "j < length (snTokens s)" "f \<in> set (snAdj s ! j)" using walk_edges[of s "eTo e" es b f] Cons.prems(1) f by auto
    then have "eTo f \<in> {a, eTo e}" using same_pool_same_tokens[OF wf _ _ _ _ eq] Cons.prems(1) by auto
    moreover have "eTo f \<in> eTo ` set es" using f by simp
    ultimately show False using Cons.prems(2) by auto
  qed
  then show ?case using Cons by auto
qed simp

subsection \<open>The search without a workspace\<close>

text \<open>The relaxation over quoted values; \<open>relax\<close> refines it.\<close>

definition relaxEdgeP :: "snapshot \<Rightarrow> nat \<Rightarrow> relaxMode \<Rightarrow> nat \<Rightarrow> nat \<Rightarrow> int option \<Rightarrow> string \<Rightarrow> edgeRef
                            \<Rightarrow> relaxTable \<Rightarrow> relaxTable option" where
  "relaxEdgeP s src mode k i inn fromAddr e t =
     (case quote (snPools s ! ePool e) inn fromAddr of
        Panic \<Rightarrow> None
      | Err _ \<Rightarrow> Some t
      | Ok out \<Rightarrow>
          if out \<le> 0 then Some t
          else if \<not> mayVisit t (k - 1) i (eTo e) src mode then Some t
          else if rtSeen t ! k ! eTo e \<and> the (rtAmount t ! k ! eTo e) \<ge> out then Some t
          else Some (t\<lparr>rtAmount := set2 (rtAmount t) k (eTo e) (Some out),
                       rtFrom := set2 (rtFrom t) k (eTo e) e,
                       rtSeen := set2 (rtSeen t) k (eTo e) True\<rparr>))"

definition relaxTokenP :: "snapshot \<Rightarrow> nat \<Rightarrow> relaxMode \<Rightarrow> nat \<Rightarrow> nat \<Rightarrow> relaxTable \<Rightarrow> relaxTable option" where
  "relaxTokenP s src mode k i t =
     (if \<not> rtSeen t ! (k - 1) ! i then Some t
      else foldM (relaxEdgeP s src mode k i (rtAmount t ! (k - 1) ! i) (tokAddress (snTokens s ! i))) (snAdj s ! i) t)"

definition relaxP :: "snapshot \<Rightarrow> nat \<Rightarrow> int option \<Rightarrow> nat \<Rightarrow> relaxMode \<Rightarrow> relaxTable option" where
  "relaxP s src amountIn maxHops mode =
     foldM (\<lambda>k. foldM (relaxTokenP s src mode k) [0..<length (snTokens s)]) [1..<Suc maxHops]
       (newTable (length (snTokens s)) src maxHops amountIn)"

definition sim :: "relaxTable \<times> scratch \<Rightarrow> relaxTable \<Rightarrow> bool" where
  "sim st t \<longleftrightarrow> fst st = t \<and> snd st One = 1"

lemma relaxEdge_sim:
  assumes "sim st t"
  shows "rel_option sim (relaxEdge s src mode k i inn fromAddr e st) (relaxEdgeP s src mode k i inn fromAddr e t)"
proof -
  obtain sc where st: "st = (t, sc)" and One: "sc One = 1" using assms by (cases st) (simp add: sim_def)
  show ?thesis
    by (rule dexp.into_cases[of sc "snPools s ! ePool e" inn fromAddr, OF One])
      (simp_all add: relaxEdge_def relaxEdgeP_def st sim_def Let_def)
qed

lemma relaxToken_sim:
  assumes "sim st t"
  shows "rel_option sim (relaxToken s src mode k i st) (relaxTokenP s src mode k i t)"
proof -
  have "rel_option sim
      (foldM (relaxEdge s src mode k i (rtAmount t ! (k - 1) ! i) (tokAddress (snTokens s ! i))) (snAdj s ! i) st)
      (foldM (relaxEdgeP s src mode k i (rtAmount t ! (k - 1) ! i) (tokAddress (snTokens s ! i))) (snAdj s ! i) t)"
    by (rule foldM_simulation[where R = sim]) (rule assms, rule relaxEdge_sim)
  moreover have "fst st = t" using assms by (simp add: sim_def)
  ultimately show ?thesis using assms by (simp add: relaxToken_def relaxTokenP_def)
qed

lemma relax_refines: "relax s src amountIn maxHops mode = relaxP s src amountIn maxHops mode"
proof -
  let ?t = "newTable (length (snTokens s)) src maxHops amountIn"
  have "sim (?t, NewScratch) ?t" by (simp add: sim_def)
  then have "rel_option sim (foldM (relaxRound s src mode) [1..<Suc maxHops] (?t, NewScratch)) (relaxP s src amountIn maxHops mode)"
    unfolding relaxP_def relaxRound_def[abs_def]
    by (intro foldM_simulation relaxToken_sim)
  then show ?thesis by (cases "relaxP s src amountIn maxHops mode") (auto simp: relax_def sim_def option_rel_Some2)
qed

lemma relax_code [code]: "relax = relaxP"
  by (intro ext) (rule relax_refines)

lemma relaxP_no_panic:
  assumes "list_all ticks_complete (snPools s)" "edges_ok s"
  shows "relaxP s src amountIn maxHops mode \<noteq> None"
proof -
  have total: "foldM f xs t \<noteq> None" if "\<And>x t. x \<in> set xs \<Longrightarrow> f x t \<noteq> None" for f :: "'x \<Rightarrow> relaxTable \<Rightarrow> relaxTable option" and xs t
    using that by (induction xs arbitrary: t) (force split: option.splits)+
  have edge: "relaxEdgeP s src mode k i inn fromAddr e t \<noteq> None" if "ePool e < length (snPools s)" for k i inn fromAddr e t
    using AmountOut_no_panic[of "snPools s ! ePool e" inn fromAddr] assms(1) that
    by (auto simp: relaxEdgeP_def AmountOut_eq list_all_length split: outcome.split)
  have "relaxTokenP s src mode k i t \<noteq> None" if "i < length (snTokens s)" for k i t
  proof -
    have "\<forall>e \<in> set (snAdj s ! i). ePool e < length (snPools s)"
      using that assms(2) by (auto simp: edges_ok_def edge_ok_def)
    with edge show ?thesis unfolding relaxTokenP_def by (simp add: total del: not_None_eq)
  qed
  then show ?thesis unfolding relaxP_def by (intro total) auto
qed

lemma probeHops_no_panic:
  assumes "list_all ticks_complete (snPools s)"
  shows "probeHops s hops out \<noteq> None"
proof (induction hops arbitrary: out)
  case (Cons h hs)
  show ?case
  proof (cases "poolByAddress s (hopPoolAddress h)")
    case (Some p)
    then have "p \<in> set (snPools s)" by (auto simp: poolByAddress_def find_Some_iff)
    then have "AmountOut p (Some out) (hopTokenIn h) \<noteq> Panic"
      using assms AmountOut_no_panic by (auto simp: list_all_iff)
    then show ?thesis using Some Cons.IH by (auto split: outcome.split)
  qed simp
qed simp

lemma priceImpact_no_panic:
  assumes "list_all ticks_complete (snPools s)"
  shows "priceImpact s hops amountIn amountOut \<noteq> None"
proof -
  define probeIn where "probeIn = (if go_div amountIn 1000 \<le> 0 then 1 else go_div amountIn 1000)"
  obtain x where x: "probeHops s hops probeIn = Some x" using probeHops_no_panic[OF assms] by blast
  show ?thesis unfolding priceImpact_def Let_def probeIn_def[symmetric] x by (auto split: sum.split)
qed

lemma BuildSnapshot_ticks_complete:
  assumes "list_all ticks_complete pools"
  shows "list_all ticks_complete (snPools (BuildSnapshot pools builtAt))"
proof -
  have "ticks_complete q" if "prepare p = Some q" "ticks_complete p" for p q
    using that PrepareTicks_Inr(1)[of "poolTicks p"]
    by (auto simp: prepare_def ticks_complete_def list_all_iff split: if_splits sum.splits)
  then show ?thesis
    using assms by (fastforce simp: BuildSnapshot_pools list_all_iff List.map_filter_def indexed_def)
qed

subsection \<open>The search over a well-formed graph\<close>

locale routable =
  fixes s :: snapshot
  assumes wf: "snapshot_wf s"
begin

lemma edges: "edges_ok s"
  using wf by (simp add: snapshot_wf_def)

lemma index: "tokenIndex s a = Some i \<Longrightarrow> i < length (snTokens s)"
  using wf index_okD(2) by (auto simp: snapshot_wf_def tokenIndex_def)

lemma relax_table: "relax s src (Some a) R mode = Some t \<Longrightarrow> src < length (snTokens s) \<Longrightarrow> table_ok s src mode (Some a) R t"
  using relax_ok[OF edges] by blast

lemma extend:
  assumes t: "table_ok s src mode (Some a) R t" and "Suc k \<le> R" "i < length (snTokens s)" "e \<in> set (snAdj s ! i)"
    and "rtSeen t ! k ! i" "rtAmount t ! k ! i = Some m" "edgeQuote s e m = Some v" "mayVisit t k i (eTo e) src mode"
  shows "rtSeen t ! Suc k ! eTo e \<and> v \<le> the (rtAmount t ! Suc k ! eTo e)"
proof -
  have "eFrom e = i" using edges assms(3,4) by (auto simp: edges_ok_def edge_ok_def)
  then have "step s src mode t (Suc k) i e v" using assms by (simp add: step_def edgeQuote_Some)
  moreover have "row_done s src mode t (Suc k)" using t assms(2) by (simp add: table_ok_def)
  ultimately show ?thesis unfolding row_done_def by blast
qed

lemma first_row:
  assumes "table_ok s src mode (Some a) R t" "rtSeen t ! Suc 0 ! x" "x < length (snTokens s)" "1 \<le> R"
  shows "eFrom (rtFrom t ! Suc 0 ! x) = src"
proof -
  have "row_done s src mode t (Suc 0)" using assms by (simp add: table_ok_def)
  then obtain i v where "step s src mode t (Suc 0) i (rtFrom t ! Suc 0 ! x) v" using assms unfolding row_done_def by blast
  then have i: "i < length (snTokens s)" "rtSeen t ! 0 ! i" "rtFrom t ! Suc 0 ! x \<in> set (snAdj s ! i)"
    by (auto simp: step_def)
  then have "i = src" using assms(1) by (simp add: table_ok_def)
  then show ?thesis using i edges by (auto simp: edges_ok_def edge_ok_def)
qed

lemma short_path_found:
  assumes t: "table_ok s src simplePaths (Some a) R t" and w: "walk s src es dst" "distinct (src # map eTo es)"
    and len: "length es \<in> {1, 2}" "length es \<le> R"
    and v2: "list_all (\<lambda>e. poolProtocol (snPools s ! ePool e) = SushiswapV2) (tl es)"
    and run: "runPath (edgeQuote s) es a = Some v"
  shows "rtSeen t ! length es ! dst \<and> v \<le> the (rtAmount t ! length es ! dst)"
proof -
  obtain e fs where es: "es = e # fs" "length fs \<le> 1" using len(1) by (cases es) auto
  have e: "src < length (snTokens s)" "e \<in> set (snAdj s ! src)" "eTo e \<noteq> src" using w es by auto
  obtain u where u: "edgeQuote s e a = Some u" "runPath (edgeQuote s) fs u = Some v"
    using run es by (auto split: option.splits)
  have "rtSeen t ! 0 ! src" "rtAmount t ! 0 ! src = Some a" using t e by (auto simp: table_ok_def)
  then have one: "rtSeen t ! Suc 0 ! eTo e \<and> u \<le> the (rtAmount t ! Suc 0 ! eTo e)"
    using extend[OF t _ e(1,2) _ _ u(1)] len(2) es e(3) by (simp add: mayVisit_def)
  show ?thesis
  proof (cases fs)
    case Nil
    then show ?thesis using one u w es by simp
  next
    case (Cons f gs)
    then have f: "fs = [f]" using es by simp
    have m: "eTo e < length (snTokens s)" "f \<in> set (snAdj s ! eTo e)" "eTo f = dst" "dst \<noteq> src" "dst \<noteq> eTo e"
      using w es f by auto
    obtain y where y: "rtAmount t ! Suc 0 ! eTo e = Some y"
      using table_path[OF edges t _ m(1), of "Suc 0"] one len(2) es by auto
    obtain z where z: "edgeQuote s f y = Some z" "v \<le> z"
      using v2market.quote_mono[of s f u v y] v2 u(2) one y es f by (auto split: option.splits)
    have "mayVisit t (Suc 0) (eTo e) (eTo f) src simplePaths"
      using m first_row[OF t _ m(1)] one len(2) es by (auto simp: mayVisit_def)
    then have "rtSeen t ! Suc (Suc 0) ! eTo f \<and> z \<le> the (rtAmount t ! Suc (Suc 0) ! eTo f)"
      using extend[OF t _ m(1,2) _ y z(1)] one len(2) es f by simp
    then show ?thesis using z(2) m(3) es f by (simp add: numeral_2_eq_2)
  qed
qed

lemma route_sound:
  assumes "FindBestRoute (Some s) tokenIn tokenOut amountIn maxHops = Ok r"
  shows "\<exists>a src dst es. amountIn = Some a \<and> 0 < a \<and> tokenIndex s tokenIn = Some src \<and> tokenIndex s tokenOut = Some dst
    \<and> es \<noteq> [] \<and> int (length es) \<le> maxHops \<and> walk s src es dst \<and> distinct (src # map eTo es) \<and> distinct (map ePool es)
    \<and> runPath (edgeQuote s) es a = Some (rAmountOut r) \<and> rHops r = hopsOf s es a \<and> rAmountIn r = a"
proof -
  obtain a src dst t b where a: "amountIn = Some a" "0 < a" and ix: "tokenIndex s tokenIn = Some src" "tokenIndex s tokenOut = Some dst"
    and R: "1 \<le> maxHops" and t: "relax s src (Some a) (nat maxHops) simplePaths = Some t" and b: "bestRoundFor t dst = Some b"
    and r: "rHops r = reconstruct s t dst b" "rAmountIn r = a" "rAmountOut r = the (rtAmount t ! b ! dst)"
    using assms by (cases amountIn) (auto simp: FindBestRoute_def isPositive_def Let_def split: if_splits option.splits)
  have lt: "src < length (snTokens s)" "dst < length (snTokens s)" using index ix by auto
  note ok = relax_table[OF t lt(1)]
  have "rtRounds t = nat maxHops" using ok by (simp add: table_ok_def dims_def)
  then have b': "1 \<le> b" "b \<le> nat maxHops" "rtSeen t ! b ! dst" using bestRoundFor_spec[of t dst] b by auto
  note path = table_path[OF edges ok b'(2) lt(2) b'(3)]
  note rec = reconstruct_hopsOf[OF edges ok b'(2) lt(2) b'(3)]
  have "distinct (map ePool (pathEdges t b dst))" using simple_walk_pools[OF wf] path by blast
  then show ?thesis using path rec a ix r b' R by (intro exI[of _ a] exI[of _ src] exI[of _ dst] exI[of _ "pathEdges t b dst"]) auto
qed

lemma route_dominates:
  assumes "FindBestRoute (Some s) tokenIn tokenOut (Some a) maxHops \<noteq> Panic" "0 < a"
    and ix: "tokenIndex s tokenIn = Some src" "tokenIndex s tokenOut = Some dst"
    and w: "walk s src es dst" "distinct (src # map eTo es)"
    and len: "length es \<in> {1, 2}" "int (length es) \<le> maxHops"
    and v2: "list_all (\<lambda>e. poolProtocol (snPools s ! ePool e) = SushiswapV2) (tl es)"
    and run: "runPath (edgeQuote s) es a = Some v"
  shows "\<exists>r. FindBestRoute (Some s) tokenIn tokenOut (Some a) maxHops = Ok r \<and> v \<le> rAmountOut r"
proof -
  have ne: "src \<noteq> dst" using w len by (cases es rule: rev_cases) (auto simp: walk_snoc)
  have H: "\<not> maxHops < 1" using len by auto
  obtain t where t: "relax s src (Some a) (nat maxHops) simplePaths = Some t"
    using assms(1,2) ix ne H by (cases "relax s src (Some a) (nat maxHops) simplePaths")
      (auto simp: FindBestRoute_def isPositive_def)
  note ok = relax_table[OF t index[OF ix(1)]]
  have R: "rtRounds t = nat maxHops" using ok by (simp add: table_ok_def dims_def)
  have "length es \<le> nat maxHops" using len by linarith
  from short_path_found[OF ok w len(1) this v2 run]
  have found: "rtSeen t ! length es ! dst" "v \<le> the (rtAmount t ! length es ! dst)" by auto
  then obtain b where b: "bestRoundFor t dst = Some b" "the (rtAmount t ! length es ! dst) \<le> the (rtAmount t ! b ! dst)"
    using bestRoundFor_spec[of t dst] R len \<open>length es \<le> nat maxHops\<close> by (cases "bestRoundFor t dst") auto
  then show ?thesis
    using assms(1,2) ix ne H t found by (auto simp: FindBestRoute_def isPositive_def Let_def split: option.splits)
qed

lemma route_no_panic:
  assumes "list_all ticks_complete (snPools s)"
  shows "FindBestRoute (Some s) tokenIn tokenOut amountIn maxHops \<noteq> Panic"
  by (auto simp: FindBestRoute_def relax_refines Let_def relaxP_no_panic[OF assms edges]
      priceImpact_no_panic[OF assms] split: option.split)

end

interpretation built: routable "BuildSnapshot pools builtAt" for pools builtAt
  by unfold_locales (rule BuildSnapshot_invariant)

lemma edgeQuote_pos: "runPath (edgeQuote s) es a = Some v \<Longrightarrow> es \<noteq> [] \<Longrightarrow> 0 < v"
  by (induction es rule: rev_induct) (auto simp: runPath_snoc edgeQuote_Some split: option.splits)

lemma priceImpact_range:
  assumes "priceImpact s hops amountIn amountOut = Some i" "0 < amountOut"
  shows "0 \<le> i \<and> i < 10000"
proof -
  have frac: "0 \<le> go_div ((x - amountOut) * bpsScale) x \<and> go_div ((x - amountOut) * bpsScale) x < 10000
      \<and> isInt64 (go_div ((x - amountOut) * bpsScale) x)" if "amountOut < x" for x :: int
  proof -
    have "0 \<le> (x - amountOut) * 10000 div x" "(x - amountOut) * 10000 div x < 10000"
      using that assms(2) div_less_iff[of x "(x - amountOut) * 10000" 10000]
      by (simp_all add: pos_imp_zdiv_nonneg_iff algebra_simps)
    then show ?thesis using that assms(2)
      by (simp add: bpsScale_def go_arith isInt64_def minInt64_def maxInt64_def)
  qed
  define probeIn where "probeIn = (if go_div amountIn 1000 \<le> 0 then 1 else go_div amountIn 1000)"
  show ?thesis
    using assms(1) unfolding priceImpact_def Let_def probeIn_def[symmetric]
    by (auto simp: frac not_le split: if_split_asm option.split_asm sum.split_asm)
qed

subsection \<open>Properties\<close>

text \<open>A market with five constant-product pools over the tokens \<open>S\<close>, \<open>D\<close>, \<open>A\<close>, \<open>B\<close>.\<close>

definition routerPools :: "pool list" where
  "routerPools = [v2Pool ''p1'' ''S'' ''D'' 1000000 1000000, v2Pool ''p2'' ''D'' ''A'' 1000000 3000000,
     v2Pool ''p3'' ''S'' ''B'' 1000000 1000000, v2Pool ''p4'' ''B'' ''A'' 1000000 2000000,
     v2Pool ''p5'' ''A'' ''D'' 1000000 1000000]"

abbreviation routerSnapshot :: snapshot where
  "routerSnapshot \<equiv> BuildSnapshot routerPools 0"

lemma routerPools_run:
  "(case FindBestRoute (Some routerSnapshot) '' s'' ''D'' (Some 10000) 3 of Ok r \<Rightarrow> rAmountOut r | _ \<Rightarrow> 0) = 9871"
  by code_simp

lemma routerPools_route:
  obtains r where "FindBestRoute (Some routerSnapshot) '' s'' ''D'' (Some 10000) 3 = Ok r" "rAmountOut r = 9871"
  using routerPools_run by (cases "FindBestRoute (Some routerSnapshot) '' s'' ''D'' (Some 10000) 3") auto

text \<open>C1. A route that \<^verbatim>\<open>FindBestRoute\<close> returns is executable as quoted: its hops are the edges of a
  path of the graph from the requested input token to the requested output token, at most \<^verbatim>\<open>maxHops\<close>
  long, visiting no token and using no pool twice; the amount entering each hop is the amount the
  previous one delivers, starting at the requested input; each hop's output is what a fresh quote of
  its pool returns for that input; and the last output is the route's.\<close>

theorem FindBestRoute_sound:
  assumes "FindBestRoute (Some (BuildSnapshot pools builtAt)) tokenIn tokenOut amountIn maxHops = Ok r"
  shows "\<exists>a src dst es. amountIn = Some a \<and> 0 < a
    \<and> tokenIndex (BuildSnapshot pools builtAt) tokenIn = Some src
    \<and> tokenIndex (BuildSnapshot pools builtAt) tokenOut = Some dst
    \<and> es \<noteq> [] \<and> int (length es) \<le> maxHops
    \<and> walk (BuildSnapshot pools builtAt) src es dst \<and> distinct (src # map eTo es) \<and> distinct (map ePool es)
    \<and> runPath (edgeQuote (BuildSnapshot pools builtAt)) es a = Some (rAmountOut r)
    \<and> rHops r = hopsOf (BuildSnapshot pools builtAt) es a \<and> rAmountIn r = a"
  using assms by (rule built.route_sound)

theorem FindBestRoute_sound_witness:
  "\<exists>es. runPath (edgeQuote routerSnapshot) es 10000 = Some 9871 \<and> distinct (map ePool es) \<and> length es \<le> 3"
proof (rule routerPools_route)
  fix r assume r: "FindBestRoute (Some routerSnapshot) '' s'' ''D'' (Some 10000) 3 = Ok r" "rAmountOut r = 9871"
  show ?thesis using FindBestRoute_sound[OF r(1)] r(2) by auto
qed

text \<open>C2. The search is optimal for routes of one and two hops: whenever a path of at most two edges,
  within \<^verbatim>\<open>maxHops\<close> and without repeated tokens, connects the tokens and can be executed, and its
  second edge (if any) is a constant-product pool, \<^verbatim>\<open>FindBestRoute\<close> does find a route, and one that
  pays at least as much. The ticks of the pools must carry their net liquidity, so that no quote
  panics.\<close>

theorem FindBestRoute_optimal2:
  assumes "list_all ticks_complete pools" "0 < a"
    and "tokenIndex (BuildSnapshot pools builtAt) tokenIn = Some src"
    and "tokenIndex (BuildSnapshot pools builtAt) tokenOut = Some dst"
    and "walk (BuildSnapshot pools builtAt) src es dst" "distinct (src # map eTo es)"
    and "length es \<in> {1, 2}" "int (length es) \<le> maxHops"
    and "list_all (\<lambda>e. poolProtocol (snPools (BuildSnapshot pools builtAt) ! ePool e) = SushiswapV2) (tl es)"
    and "runPath (edgeQuote (BuildSnapshot pools builtAt)) es a = Some v"
  shows "\<exists>r. FindBestRoute (Some (BuildSnapshot pools builtAt)) tokenIn tokenOut (Some a) maxHops = Ok r
    \<and> v \<le> rAmountOut r"
  by (rule built.route_dominates[OF built.route_no_panic[OF BuildSnapshot_ticks_complete[OF assms(1)]] assms(2-)])

lemma routerPools_path:
  "list_all ticks_complete routerPools"
  "tokenIndex routerSnapshot ''S'' = Some 0" "tokenIndex routerSnapshot ''D'' = Some 1"
  "tokenIndex routerSnapshot ''A'' = Some 2"
  "walk routerSnapshot 0 [\<lparr>ePool = 2, eFrom = 0, eTo = 3\<rparr>, \<lparr>ePool = 3, eFrom = 3, eTo = 2\<rparr>] 2"
  "runPath (edgeQuote routerSnapshot) [\<lparr>ePool = 2, eFrom = 0, eTo = 3\<rparr>, \<lparr>ePool = 3, eFrom = 3, eTo = 2\<rparr>] 10000 = Some 19490"
  "list_all (\<lambda>e. poolProtocol (snPools routerSnapshot ! ePool e) = SushiswapV2) [\<lparr>ePool = 3, eFrom = 3, eTo = 2\<rparr>]"
  by code_simp+

theorem FindBestRoute_optimal2_witness:
  "\<exists>r. FindBestRoute (Some routerSnapshot) ''S'' ''A'' (Some 10000) 2 = Ok r \<and> 19490 \<le> rAmountOut r"
  by (rule FindBestRoute_optimal2[OF routerPools_path(1) _ routerPools_path(2,4,5) _ _ _ _ routerPools_path(6)])
    (use routerPools_path(7) in simp_all)

text \<open>Beyond two hops the search is not optimal, as the comment on \<^verbatim>\<open>mayVisit\<close> concedes and the
  one on \<^verbatim>\<open>FindBestRoute\<close> does not: in this market of five constant-product pools the best simple
  three-hop path from \<open>S\<close> to \<open>D\<close> pays 19061 for 10000, and the search, allowed three hops, returns
  9871, because the best two-hop path to \<open>A\<close> already passes through \<open>D\<close>.\<close>

theorem FindBestRoute_not_optimal:
  "(\<exists>r. FindBestRoute (Some routerSnapshot) '' s'' ''D'' (Some 10000) 3 = Ok r \<and> rAmountOut r = 9871)
   \<and> (\<exists>es. walk routerSnapshot 0 es 1 \<and> distinct (0 # map eTo es) \<and> length es = 3
        \<and> runPath (edgeQuote routerSnapshot) es 10000 = Some 19061)"
proof
  show "\<exists>r. FindBestRoute (Some routerSnapshot) '' s'' ''D'' (Some 10000) 3 = Ok r \<and> rAmountOut r = 9871"
    by (rule routerPools_route) blast
  let ?es = "[\<lparr>ePool = 2, eFrom = 0, eTo = 3\<rparr>, \<lparr>ePool = 3, eFrom = 3, eTo = 2\<rparr>, \<lparr>ePool = 4, eFrom = 2, eTo = 1\<rparr>]"
  have "walk routerSnapshot 0 ?es 1" "distinct (0 # map eTo ?es)" by code_simp+
  moreover have "runPath (edgeQuote routerSnapshot) ?es 10000 = Some 19061" by code_simp
  ultimately show "\<exists>es. walk routerSnapshot 0 es 1 \<and> distinct (0 # map eTo es) \<and> length es = 3
        \<and> runPath (edgeQuote routerSnapshot) es 10000 = Some 19061"
    by (intro exI[of _ ?es]) simp
qed

text \<open>C22. The search over one shared workspace computes the same table as the search that quotes
  every edge afresh, and fails in the same cases.\<close>

theorem relax_refines_quotes: "relax s src amountIn maxHops mode = relaxP s src amountIn maxHops mode"
  by (rule relax_refines)

text \<open>No request brings the service down: on a snapshot of pools whose ticks carry their net
  liquidity, \<^verbatim>\<open>FindBestRoute\<close> returns a route or an error value for every input, including unknown
  tokens, missing or negative amounts and any hop limit.\<close>

theorem FindBestRoute_no_panic:
  assumes "list_all ticks_complete pools"
  shows "FindBestRoute (Some (BuildSnapshot pools builtAt)) tokenIn tokenOut amountIn maxHops \<noteq> Panic"
  by (rule built.route_no_panic[OF BuildSnapshot_ticks_complete[OF assms]])

theorem FindBestRoute_no_panic_witness:
  "FindBestRoute (Some routerSnapshot) ''S'' ''nowhere'' None (- 4) \<noteq> Panic"
  by (rule FindBestRoute_no_panic[OF routerPools_path(1)])

text \<open>The reported price impact is a proper fraction: between 0 and 9999 basis points for every
  route returned; the clamp for values that do not fit an \<^verbatim>\<open>int64\<close> is never taken.\<close>

theorem FindBestRoute_impact_range:
  assumes "FindBestRoute (Some (BuildSnapshot pools builtAt)) tokenIn tokenOut amountIn maxHops = Ok r"
  shows "0 \<le> rPriceImpactBps r \<and> rPriceImpactBps r < 10000"
proof -
  have "0 < rAmountOut r" using built.route_sound[OF assms] edgeQuote_pos by blast
  moreover have "priceImpact (BuildSnapshot pools builtAt) (rHops r) (the amountIn) (rAmountOut r) = Some (rPriceImpactBps r)"
    using assms by (auto simp: FindBestRoute_def Let_def split: if_splits option.splits)
  ultimately show ?thesis using priceImpact_range by blast
qed

theorem FindBestRoute_impact_range_witness:
  "\<exists>r. FindBestRoute (Some routerSnapshot) '' s'' ''D'' (Some 10000) 3 = Ok r \<and> rPriceImpactBps r < 10000"
proof (rule routerPools_route)
  fix r assume r: "FindBestRoute (Some routerSnapshot) '' s'' ''D'' (Some 10000) 3 = Ok r"
  show ?thesis using FindBestRoute_impact_range[OF r] r by blast
qed

end
