(* ===== verification/Rpc_Abi.thy ===== *)
theory Rpc_Abi
  imports Prelude
begin

unbundle bit_operations_syntax

section \<open>The contract ABI (\<^verbatim>\<open>internal/rpc/abi.go\<close>)\<close>

text \<open>
  Byte slices are lists of 8-bit words. \<open>bytesToInt\<close> and \<open>intBytes\<close> are \<^verbatim>\<open>SetBytes\<close> and
  \<^verbatim>\<open>Bytes\<close> of \<^verbatim>\<open>big.Int\<close>; \<open>hexDecode\<close> and \<open>hexEncode\<close> are those of \<^verbatim>\<open>encoding/hex\<close>. Keccak-256
  comes from another module and is a parameter wherever a selector is used. The lemmas show that
  what is encoded decodes back, numbers, signed numbers and hex strings alike.
\<close>

type_synonym byte = "8 word"

definition wordSize :: nat where "wordSize = 32"

datatype abi_error = ErrShortReturn | ErrBadHex | ErrNotAddress

subsection \<open>Integers and bytes\<close>

definition bytesToInt :: "byte list \<Rightarrow> int" where
  "bytesToInt bs = foldl (\<lambda>n b. n * 256 + uint b) 0 bs"

function intBytes :: "int \<Rightarrow> byte list" where
  "intBytes n = (if n \<le> 0 then [] else intBytes (n div 256) @ [word_of_int (n mod 256)])"
  by auto
termination by (relation "measure nat") auto

declare intBytes.simps [simp del]

subsection \<open>Hexadecimal strings\<close>

definition hexDigits :: string where "hexDigits = ''0123456789abcdef''"

definition hexChar :: "nat \<Rightarrow> char" where "hexChar n = hexDigits ! n"

definition hexVal :: "char \<Rightarrow> nat option" where
  "hexVal c = (let n = of_char c :: nat in
     if 48 \<le> n \<and> n \<le> 57 then Some (n - 48)
     else if 97 \<le> n \<and> n \<le> 102 then Some (n - 87)
     else if 65 \<le> n \<and> n \<le> 70 then Some (n - 55)
     else None)"

fun hexEncode :: "byte list \<Rightarrow> string" where
  "hexEncode [] = []"
| "hexEncode (b # bs) = hexChar (unat b div 16) # hexChar (unat b mod 16) # hexEncode bs"

fun hexDecode :: "string \<Rightarrow> byte list option" where
  "hexDecode [] = Some []"
| "hexDecode [c] = None"
| "hexDecode (c # d # cs) =
     (case (hexVal c, hexVal d) of
        (Some h, Some l) \<Rightarrow> map_option ((#) (of_nat (16 * h + l))) (hexDecode cs)
      | _ \<Rightarrow> None)"

definition trimPrefix :: "string \<Rightarrow> string \<Rightarrow> string" where
  "trimPrefix s p = (if take (length p) s = p then drop (length p) s else s)"

definition DecodeHex :: "string \<Rightarrow> abi_error + byte list" where
  "DecodeHex s =
     (let s = trimSpace s;
          s = trimPrefix s ''0x'';
          s = trimPrefix s ''0X'';
          s = (if length s mod 2 = 1 then CHR ''0'' # s else s)
      in case hexDecode s of None \<Rightarrow> Inl ErrBadHex | Some out \<Rightarrow> Inr out)"

definition EncodeHex :: "byte list \<Rightarrow> string" where
  "EncodeHex b = ''0x'' @ hexEncode b"

subsection \<open>Words\<close>

definition Keccak256 :: "(byte list \<Rightarrow> byte list) \<Rightarrow> byte list list \<Rightarrow> byte list" where
  [simp]: "Keccak256 keccak data = keccak (concat data)"

definition Selector :: "(byte list \<Rightarrow> byte list) \<Rightarrow> string \<Rightarrow> byte list" where
  "Selector keccak signature = take 4 (Keccak256 keccak [map (of_nat \<circ> of_char) signature])"

definition padLeft :: "byte list \<Rightarrow> byte list" where
  "padLeft b = (if length b \<ge> wordSize then b else replicate (wordSize - length b) 0 @ b)"

definition padRight :: "byte list \<Rightarrow> byte list" where
  "padRight b =
     (if length b mod wordSize = 0 then b
      else b @ replicate ((length b div wordSize + 1) * wordSize - length b) 0)"

definition encodeUint :: "int \<Rightarrow> byte list" where
  "encodeUint n = padLeft (intBytes \<bar>n\<bar>)"

definition encodeUint64 :: "nat \<Rightarrow> byte list" where
  "encodeUint64 n = encodeUint (int n)"

definition encodeAddress :: "string \<Rightarrow> abi_error + byte list" where
  "encodeAddress addr =
     (case DecodeHex addr of
        Inl e \<Rightarrow> Inl e
      | Inr raw \<Rightarrow> if length raw \<noteq> 20 then Inl ErrNotAddress else Inr (padLeft raw))"

definition abiWord :: "byte list \<Rightarrow> nat \<Rightarrow> abi_error + byte list" where
  "abiWord data i =
     (let start = i * wordSize
      in if length data < start + wordSize then Inl ErrShortReturn
         else Inr (take wordSize (drop start data)))"

definition decodeUint :: "byte list \<Rightarrow> nat \<Rightarrow> abi_error + int" where
  "decodeUint data i = (case abiWord data i of Inl e \<Rightarrow> Inl e | Inr w \<Rightarrow> Inr (bytesToInt w))"

definition decodeInt :: "byte list \<Rightarrow> nat \<Rightarrow> nat \<Rightarrow> abi_error + int" where
  "decodeInt data i bits =
     (case abiWord data i of
        Inl e \<Rightarrow> Inl e
      | Inr w \<Rightarrow>
          let n = bytesToInt w;
              n = n AND (2 ^ bits - 1);
              signBit = 2 ^ (bits - 1)
          in Inr (if n \<ge> signBit then n - 2 ^ bits else n))"

definition decodeAddress :: "byte list \<Rightarrow> nat \<Rightarrow> abi_error + string" where
  "decodeAddress data i = (case abiWord data i of Inl e \<Rightarrow> Inl e | Inr w \<Rightarrow> Inr (EncodeHex (drop 12 w)))"

subsection \<open>Bytes of an integer\<close>

lemma bytesToInt_snoc: "bytesToInt (xs @ [b]) = bytesToInt xs * 256 + uint b"
  by (simp add: bytesToInt_def)

lemma bytesToInt_Nil [simp]: "bytesToInt [] = 0"
  by (simp add: bytesToInt_def)

lemma bytesToInt_append: "bytesToInt (xs @ ys) = bytesToInt xs * 256 ^ length ys + bytesToInt ys"
proof (induction ys rule: rev_induct)
  case (snoc b ys)
  then show ?case by (simp add: bytesToInt_snoc algebra_simps flip: append_assoc)
qed simp

lemma bytesToInt_zeros [simp]: "bytesToInt (replicate k 0) = 0"
proof (induction k)
  case (Suc k)
  have "bytesToInt (replicate (Suc k) 0) = bytesToInt (replicate k 0 @ [0])" by (simp only: replicate_append_same replicate_Suc)
  then show ?case using Suc by (simp add: bytesToInt_snoc del: replicate_Suc)
qed simp

lemma bytesToInt_nonneg: "0 \<le> bytesToInt bs"
  by (induction bs rule: rev_induct) (simp_all add: bytesToInt_snoc)

lemma uint_byte: "uint (b :: byte) < 256"
  using uint_lt2p[of b] by simp

lemma bytesToInt_less: "bytesToInt bs < 256 ^ length bs"
proof (induction bs rule: rev_induct)
  case (snoc b bs)
  have "bytesToInt bs * 256 + uint b < (bytesToInt bs + 1) * 256" using uint_byte[of b] by simp
  also have "\<dots> \<le> 256 ^ length bs * 256" using snoc by (intro mult_right_mono) auto
  finally show ?case by (simp add: bytesToInt_snoc)
qed simp

lemma bytesToInt_intBytes: "0 \<le> n \<Longrightarrow> bytesToInt (intBytes n) = n"
proof (induction n rule: intBytes.induct)
  case (1 n)
  show ?case
  proof (cases "n = 0")
    case False
    then have "bytesToInt (intBytes n) = bytesToInt (intBytes (n div 256)) * 256 + n mod 256"
      using 1(2) by (subst intBytes.simps) (simp add: bytesToInt_snoc uint_word_of_int)
    then show ?thesis using 1 False by (simp add: pos_imp_zdiv_nonneg_iff)
  qed (simp add: intBytes.simps)
qed

lemma length_intBytes: "n < 256 ^ k \<Longrightarrow> length (intBytes n) \<le> k"
proof (induction k arbitrary: n)
  case 0
  then show ?case by (simp add: intBytes.simps)
next
  case (Suc k)
  then have "n div 256 < 256 ^ k" using div_less_iff[of 256 n "256 ^ k"] by (simp add: mult.commute)
  then show ?case using Suc.IH[of "n div 256"] by (subst intBytes.simps) auto
qed

lemma padLeft_short: "length b \<le> 32 \<Longrightarrow> length (padLeft b) = 32 \<and> bytesToInt (padLeft b) = bytesToInt b"
  by (auto simp: padLeft_def wordSize_def bytesToInt_append)

lemma encodeUint_word:
  assumes "0 \<le> n" "n < 2 ^ 256"
  shows "length (encodeUint n) = 32" "bytesToInt (encodeUint n) = n"
proof -
  have "n < 256 ^ 32" using assms(2) by simp
  then show "length (encodeUint n) = 32" "bytesToInt (encodeUint n) = n"
    using assms(1) length_intBytes[of n 32] padLeft_short[of "intBytes n"] bytesToInt_intBytes[of n]
    by (simp_all add: encodeUint_def)
qed

lemma abiWord_at:
  assumes "length pre = i * 32" "length w = 32"
  shows "abiWord (pre @ w @ post) i = Inr w"
  using assms by (simp add: abiWord_def wordSize_def)

subsection \<open>Signed numbers\<close>

text \<open>Masking a sign-extended word to its width and subtracting the modulus restores the number.\<close>

lemma signed_bits:
  fixes n :: int
  assumes "1 \<le> bits" "bits \<le> 256" "- (2 ^ (bits - 1)) \<le> n" "n < 2 ^ (bits - 1)"
  shows "(if 2 ^ (bits - 1) \<le> (n mod 2 ^ 256) AND (2 ^ bits - 1)
          then ((n mod 2 ^ 256) AND (2 ^ bits - 1)) - 2 ^ bits else (n mod 2 ^ 256) AND (2 ^ bits - 1)) = n"
proof -
  have masked: "(n mod 2 ^ 256) AND (2 ^ bits - 1) = n mod 2 ^ bits"
  proof -
    have "(2 :: int) ^ bits dvd 2 ^ 256" using assms(2) by (rule le_imp_power_dvd)
    then have "n mod 2 ^ 256 mod 2 ^ bits = n mod 2 ^ bits" by (rule mod_mod_cancel)
    then show ?thesis by (simp only: mask_eq_exp_minus_1[symmetric] take_bit_eq_mask[symmetric] take_bit_eq_mod)
  qed
  have half: "2 ^ bits = 2 * (2 :: int) ^ (bits - 1)" using assms(1) by (cases bits) auto
  have "(if 2 ^ (bits - 1) \<le> n mod 2 ^ bits then n mod 2 ^ bits - 2 ^ bits else n mod 2 ^ bits) = n"
  proof (cases "0 \<le> n")
    case True
    then show ?thesis using assms(4) half by simp
  next
    case False
    then have "n mod 2 ^ bits = n + 2 ^ bits"
      using assms(3) half mod_pos_pos_trivial[of "n + 2 ^ bits" "2 ^ bits"] by simp
    then show ?thesis using assms(3) half False by simp
  qed
  then show ?thesis by (simp only: masked)
qed

subsection \<open>Hex strings\<close>

lemma hexChar_facts:
  assumes "n < 16"
  shows "hexVal (hexChar n) = Some n" "\<not> isSpace (hexChar n)" "hexChar n \<noteq> CHR ''X''" "hexChar n \<noteq> CHR ''x''"
proof -
  have "list_all (\<lambda>n. hexVal (hexChar n) = Some n \<and> \<not> isSpace (hexChar n) \<and> hexChar n \<noteq> CHR ''X'' \<and> hexChar n \<noteq> CHR ''x'') [0..<16]"
    by code_simp
  then show "hexVal (hexChar n) = Some n" "\<not> isSpace (hexChar n)" "hexChar n \<noteq> CHR ''X''" "hexChar n \<noteq> CHR ''x''"
    using assms by (auto simp: list_all_iff)
qed

lemma nibbles: "unat (b :: byte) div 16 < 16" "unat b mod 16 < 16" "of_nat (16 * (unat b div 16) + unat b mod 16) = b"
proof -
  have "unat b < 2 ^ LENGTH(8)" by (rule unsigned_less)
  then have "unat b < 256" by simp
  then show "unat b div 16 < 16" by (simp add: less_mult_imp_div_less)
  show "unat b mod 16 < 16" by simp
  show "of_nat (16 * (unat b div 16) + unat b mod 16) = b" by (subst mult_div_mod_eq) simp
qed

lemma hexDecode_hexEncode: "hexDecode (hexEncode bs) = Some bs"
  by (induction bs) (simp_all only: hexEncode.simps hexDecode.simps hexChar_facts(1)[OF nibbles(1)]
      hexChar_facts(1)[OF nibbles(2)] nibbles(3) option.case prod.case option.map)

lemma hexEncode_even: "length (hexEncode bs) = 2 * length bs"
  by (induction bs) auto

lemma hexEncode_chars: "c \<in> set (hexEncode bs) \<Longrightarrow> \<not> isSpace c \<and> c \<noteq> CHR ''X''"
  by (induction bs) (auto simp: hexChar_facts nibbles)

lemma trimSpace_id:
  assumes "s \<noteq> []" "\<not> isSpace (hd s)" "\<not> isSpace (last s)"
  shows "trimSpace s = s"
proof -
  have "dropWhile isSpace s = s" using assms by (cases s) auto
  moreover have "dropWhile isSpace (rev s) = rev s" using assms by (cases s rule: rev_cases) auto
  ultimately show ?thesis by (simp add: trimSpace_def)
qed

lemma DecodeHex_EncodeHex: "DecodeHex (EncodeHex bs) = Inr bs"
proof -
  have "\<not> isSpace (last (EncodeHex bs))"
  proof (cases "bs = []")
    case True
    then show ?thesis by (simp add: EncodeHex_def isSpace_def)
  next
    case False
    then have "hexEncode bs \<noteq> []" by (cases bs) auto
    then show ?thesis using hexEncode_chars[of "last (hexEncode bs)" bs] by (simp add: EncodeHex_def)
  qed
  then have "trimSpace (EncodeHex bs) = EncodeHex bs"
    by (intro trimSpace_id) (simp_all add: EncodeHex_def isSpace_def)
  moreover have "trimPrefix (EncodeHex bs) ''0x'' = hexEncode bs" by (simp add: trimPrefix_def EncodeHex_def)
  moreover have "take 2 (hexEncode bs) \<noteq> ''0X''"
  proof
    assume eq: "take 2 (hexEncode bs) = ''0X''"
    have "CHR ''X'' \<in> set (take 2 (hexEncode bs))" unfolding eq by simp
    then show False using hexEncode_chars[of "CHR ''X''" bs] by (auto dest: in_set_takeD)
  qed
  then have "trimPrefix (hexEncode bs) ''0X'' = hexEncode bs" by (simp add: trimPrefix_def numeral_2_eq_2)
  ultimately show ?thesis
    by (simp add: DecodeHex_def Let_def hexEncode_even hexDecode_hexEncode)
qed

subsection \<open>Properties\<close>

text \<open>A word that carries a signed number decodes to that number: for every width up to 256 bits and
  every number of that width, \<^verbatim>\<open>decodeInt\<close> applied to the two's complement of the number, extended
  over the whole 32-byte word and at any word of the data, returns it; \<^verbatim>\<open>decodeUint\<close> returns what
  \<^verbatim>\<open>encodeUint\<close> wrote.\<close>

theorem decode_word_roundtrip:
  assumes "1 \<le> bits" "bits \<le> 256" "- (2 ^ (bits - 1)) \<le> n" "n < 2 ^ (bits - 1)" "length pre = i * 32"
    and "0 \<le> m" "m < 2 ^ 256"
  shows "decodeInt (pre @ encodeUint (n mod 2 ^ 256) @ post) i bits = Inr n
    \<and> decodeUint (pre @ encodeUint m @ post) i = Inr m"
proof -
  let ?w = "encodeUint (n mod 2 ^ 256)"
  have w: "length ?w = 32" "bytesToInt ?w = n mod 2 ^ 256" by (intro encodeUint_word; simp)+
  have "decodeInt (pre @ ?w @ post) i bits = Inr n"
    using signed_bits[OF assms(1-4)]
    by (simp only: decodeInt_def abiWord_at[OF assms(5) w(1)] sum.case Let_def w(2))
  then show ?thesis
    using abiWord_at[OF assms(5), of "encodeUint m" post] encodeUint_word[OF assms(6,7)] by (simp add: decodeUint_def)
qed

theorem decode_word_roundtrip_witness:
  "decodeInt (encodeUint ((- 5) mod 2 ^ 256)) 0 24 = Inr (- 5) \<and> decodeUint (encodeUint 7) 0 = Inr 7"
  using decode_word_roundtrip[of 24 "- 5" "[]" 0 7 "[]"] by simp

text \<open>Hex strings decode to the bytes they encode, and an address that encodes at all encodes to
  exactly one word whose last 20 bytes are the address.\<close>

theorem hex_roundtrip:
  "DecodeHex (EncodeHex bs) = Inr bs
   \<and> (case encodeAddress addr of Inl _ \<Rightarrow> True
      | Inr w \<Rightarrow> length w = 32 \<and> DecodeHex addr = Inr (drop 12 w) \<and> decodeAddress w 0 = Inr (EncodeHex (drop 12 w)))"
proof (intro conjI DecodeHex_EncodeHex)
  show "case encodeAddress addr of Inl _ \<Rightarrow> True
      | Inr w \<Rightarrow> length w = 32 \<and> DecodeHex addr = Inr (drop 12 w) \<and> decodeAddress w 0 = Inr (EncodeHex (drop 12 w))"
    by (auto simp: encodeAddress_def decodeAddress_def abiWord_def padLeft_def wordSize_def split: sum.split)
qed

end
