(* ===== verification/Rpc_Multicall.thy ===== *)
theory Rpc_Multicall
  imports Rpc_Abi
begin

section \<open>Batched contract reads (\<^verbatim>\<open>internal/rpc/multicall.go\<close>)\<close>

text \<open>
  \<open>encodeTryAggregate\<close> lays out the calls, \<open>decodeTryAggregate\<close> reads the results back, \<open>Aggregate\<close>
  splits a request into batches. Offsets and sizes come from the node as 256-bit words and are
  converted by \<^verbatim>\<open>Int64\<close>, which keeps the low 64 bits; sums of \<^verbatim>\<open>int\<close> wrap. Slicing outside the data
  and allocating a negative size panic. The request itself (\<^verbatim>\<open>Pool.Do\<close> and the decoding of its JSON
  string) is the parameter \<open>request\<close>, Keccak-256 the parameter \<open>keccak\<close>.

  \<open>encodeResults\<close> is the layout of \<^verbatim>\<open>(bool, bytes)[]\<close> the ABI prescribes for the answer. The round trips
  show that the decoder inverts it and that the encoder's output has the same structure.
\<close>

definition Multicall3Address :: string where
  "Multicall3Address = ''0xcA11bde05977b3631167028862bE2a173976CA11''"

definition defaultBatchSize :: int where "defaultBatchSize = 100"

record mcall =
  callTarget :: string
  callData :: "byte list"

record mresult =
  resSuccess :: bool
  resReturnData :: "byte list"

record multicaller =
  mcAddress :: string
  mcBatchSize :: int

definition NewMulticaller :: "string \<Rightarrow> int \<Rightarrow> multicaller" where
  "NewMulticaller address batchSize =
     \<lparr>mcAddress = (if address = [] then Multicall3Address else address),
      mcBatchSize = (if batchSize \<le> 0 then defaultBatchSize else batchSize)\<rparr>"

datatype mc_error = AbiError abi_error | WrongCount | RequestError

definition tryAggregateSignature :: string where
  "tryAggregateSignature = ''tryAggregate(bool,(address,bytes)[])''"

subsection \<open>Encoding\<close>

definition encodeCallTuple :: "mcall \<Rightarrow> abi_error + byte list" where
  "encodeCallTuple c =
     (case encodeAddress (callTarget c) of
        Inl e \<Rightarrow> Inl e
      | Inr addr \<Rightarrow>
          Inr (addr @ encodeUint64 (2 * wordSize) @ encodeUint64 (length (callData c)) @ padRight (callData c)))"

fun encodeElements :: "mcall list \<Rightarrow> abi_error + byte list list" where
  "encodeElements [] = Inr []"
| "encodeElements (c # cs) =
     (case encodeCallTuple c of
        Inl e \<Rightarrow> Inl e
      | Inr enc \<Rightarrow> (case encodeElements cs of Inl e \<Rightarrow> Inl e | Inr encs \<Rightarrow> Inr (enc # encs)))"

fun offsetWords :: "nat \<Rightarrow> byte list list \<Rightarrow> byte list" where
  "offsetWords off [] = []"
| "offsetWords off (e # es) = encodeUint64 off @ offsetWords (off + length e) es"

definition boolWord :: "bool \<Rightarrow> byte list" where
  "boolWord b = replicate (wordSize - 1) 0 @ [if b then 1 else 0]"

definition encodeTryAggregate :: "(byte list \<Rightarrow> byte list) \<Rightarrow> bool \<Rightarrow> mcall list \<Rightarrow> abi_error + byte list" where
  "encodeTryAggregate keccak requireSuccess calls =
     (case encodeElements calls of
        Inl e \<Rightarrow> Inl e
      | Inr elements \<Rightarrow>
          let head = boolWord requireSuccess @ encodeUint64 (2 * wordSize);
              body = encodeUint64 (length calls) @ offsetWords (length calls * wordSize) elements @ concat elements
          in Inr (Selector keccak tryAggregateSignature @ head @ body))"

subsection \<open>Decoding\<close>

text \<open>\<open>data[lo:hi]\<close>; \<open>None\<close> is the panic of a slice out of range.\<close>

definition slice :: "byte list \<Rightarrow> int \<Rightarrow> int \<Rightarrow> byte list option" where
  "slice data lo hi =
     (if lo < 0 \<or> hi < lo \<or> int (length data) < hi then None
      else Some (take (nat (hi - lo)) (drop (nat lo) data)))"

text \<open>A word read as \<^verbatim>\<open>int(new(big.Int).SetBytes(data[at:at+32]).Int64())\<close>.\<close>

definition int64At :: "byte list \<Rightarrow> int \<Rightarrow> int option" where
  "int64At data p = map_option (\<lambda>w. wrap64 (bytesToInt w)) (slice data p (wrap64 (p + 32)))"

definition decodeResultTuple :: "byte list \<Rightarrow> int \<Rightarrow> (mc_error, mresult) outcome" where
  "decodeResultTuple data p =
     (if wrap64 (p + 2 * 32) > int (length data) then Err (AbiError ErrShortReturn)
      else case slice data p (wrap64 (p + 32)) of
        None \<Rightarrow> Panic
      | Some w \<Rightarrow>
        let success = (bytesToInt w \<noteq> 0)
        in case slice data (wrap64 (p + 32)) (wrap64 (p + 2 * 32)) of
          None \<Rightarrow> Panic
        | Some w \<Rightarrow>
          let lenAt = wrap64 (p + wrap64 (bytesToInt w))
          in if wrap64 (lenAt + 32) > int (length data) then Err (AbiError ErrShortReturn)
             else case int64At data lenAt of
               None \<Rightarrow> Panic
             | Some sz \<Rightarrow>
               let start = wrap64 (lenAt + 32)
               in if wrap64 (start + sz) > int (length data) then Err (AbiError ErrShortReturn)
                  else if sz < 0 then Panic
                  else case slice data start (wrap64 (start + sz)) of
                    None \<Rightarrow> Panic
                  | Some payload \<Rightarrow> Ok \<lparr>resSuccess = success, resReturnData = payload\<rparr>)"

fun decodeElementsAt :: "byte list \<Rightarrow> int \<Rightarrow> nat \<Rightarrow> nat \<Rightarrow> (mc_error, mresult list) outcome" where
  "decodeElementsAt data elementsBase i 0 = Ok []"
| "decodeElementsAt data elementsBase i (Suc n) =
     (let offWord = wrap64 (elementsBase + int i * 32)
      in if wrap64 (offWord + 32) > int (length data) then Err (AbiError ErrShortReturn)
         else case int64At data offWord of
           None \<Rightarrow> Panic
         | Some rel \<Rightarrow>
           (case decodeResultTuple data (wrap64 (elementsBase + rel)) of
              Panic \<Rightarrow> Panic
            | Err e \<Rightarrow> Err e
            | Ok res \<Rightarrow> map_outcome_ok ((#) res) (decodeElementsAt data elementsBase (Suc i) n)))"

definition decodeTryAggregate :: "string \<Rightarrow> nat \<Rightarrow> (mc_error, mresult list) outcome" where
  "decodeTryAggregate hexData want =
     (case DecodeHex hexData of
        Inl e \<Rightarrow> Err (AbiError e)
      | Inr data \<Rightarrow>
        if length data < wordSize * 2 then Err (AbiError ErrShortReturn)
        else case decodeUint data 0 of
          Inl e \<Rightarrow> Err (AbiError e)
        | Inr arrayOffset \<Rightarrow>
          let base = wrap64 arrayOffset
          in if wrap64 (base + 32) > int (length data) then Err (AbiError ErrShortReturn)
             else case int64At data base of
               None \<Rightarrow> Panic
             | Some count \<Rightarrow>
               if count \<noteq> int want then Err WrongCount
               else decodeElementsAt data (wrap64 (base + 32)) 0 want)"

subsection \<open>Batching\<close>

function aggregateFrom :: "(byte list \<Rightarrow> byte list) \<Rightarrow> (string \<Rightarrow> (mc_error, string) outcome) \<Rightarrow> nat \<Rightarrow> mcall list
                             \<Rightarrow> (mc_error, mresult list) outcome" where
  "aggregateFrom keccak request batch calls =
     (if calls = [] \<or> batch = 0 then Ok []
      else
        let chunk = take batch calls
        in case encodeTryAggregate keccak False chunk of
             Inl e \<Rightarrow> Err (AbiError e)
           | Inr payload \<Rightarrow>
             (case request (EncodeHex payload) of
                Panic \<Rightarrow> Panic
              | Err e \<Rightarrow> Err e
              | Ok hexResult \<Rightarrow>
                (case decodeTryAggregate hexResult (length chunk) of
                   Panic \<Rightarrow> Panic
                 | Err e \<Rightarrow> Err e
                 | Ok decoded \<Rightarrow> map_outcome_ok ((@) decoded) (aggregateFrom keccak request batch (drop batch calls)))))"
  by pat_completeness auto
termination by (relation "measure (\<lambda>(_, _, _, calls). length calls)") auto

declare aggregateFrom.simps [simp del]

definition Aggregate :: "(byte list \<Rightarrow> byte list) \<Rightarrow> (string \<Rightarrow> (mc_error, string) outcome) \<Rightarrow> multicaller \<Rightarrow> mcall list
                           \<Rightarrow> (mc_error, mresult list) outcome" where
  "Aggregate keccak request m calls =
     (if calls = [] then Ok [] else aggregateFrom keccak request (nat (mcBatchSize m)) calls)"

subsection \<open>Reading the layout back\<close>

text \<open>The tuple \<open>(word, bytes)\<close>, shared by calls (the word is the address) and results (a flag).\<close>

definition tupleBytes :: "byte list \<Rightarrow> byte list \<Rightarrow> byte list" where
  "tupleBytes w d = w @ encodeUint64 (2 * wordSize) @ encodeUint64 (length d) @ padRight d"

lemma word_len: "length (encodeUint64 n) = 32" "bytesToInt (encodeUint64 n) = int n" if "n < 2 ^ 63" for n
proof -
  have "int n < 2 ^ 256" using that by (auto intro: order_less_trans[of _ "2 ^ 63"])
  then show "length (encodeUint64 n) = 32" "bytesToInt (encodeUint64 n) = int n"
    using encodeUint_word[of "int n"] by (simp_all add: encodeUint64_def)
qed

lemma slice_mid:
  assumes "int (length pre) = lo" "int (length mid) = hi - lo"
  shows "slice (pre @ mid @ post) lo hi = Some mid"
  using assms by (auto simp: slice_def)

lemma wrap_small: "0 \<le> x \<Longrightarrow> x < 2 ^ 63 \<Longrightarrow> wrap64 x = x"
  by (simp add: wrap64_def)

lemma padRight_split: "\<exists>z. padRight d = d @ z"
  by (auto simp: padRight_def)

lemma int64At_word:
  assumes "data = pre @ encodeUint64 n @ post" "int (length pre) = p" "length data < 2 ^ 63" "n < 2 ^ 63"
  shows "int64At data p = Some (int n)" "wrap64 (p + 32) = p + 32" "p + 32 \<le> int (length data)"
proof -
  note w = word_len[OF assms(4)]
  have len: "p + 32 \<le> int (length data)" using assms(1,2) w(1) by simp
  then show "p + 32 \<le> int (length data)" .
  have "0 \<le> p" using assms(2) by simp
  moreover have "int (length data) < 2 ^ 63" using assms(3) by simp
  ultimately show wrap: "wrap64 (p + 32) = p + 32" using len by (intro wrap_small) linarith+
  show "int64At data p = Some (int n)"
    using slice_mid[of pre p "encodeUint64 n" "p + 32" post] w assms(1,2,4) wrap
    by (simp add: int64At_def wrap_small)
qed

lemma decodeResultTuple_at:
  assumes data: "data = pre @ tupleBytes w d @ post" and p: "int (length pre) = p" and w: "length w = 32"
    and small: "length data < 2 ^ 63"
  shows "decodeResultTuple data p = Ok \<lparr>resSuccess = (bytesToInt w \<noteq> 0), resReturnData = d\<rparr>"
proof -
  obtain z where z: "padRight d = d @ z" using padRight_split by blast
  have sz: "length d < 2 ^ 63" using small by (simp add: data tupleBytes_def z)
  have c: "(64 :: nat) < 2 ^ 63" by simp
  note off = word_len[OF c] and len = word_len[OF sz]
  have tot: "p + 96 + int (length d) \<le> int (length data)" using p w off(1) len(1) by (simp add: data tupleBytes_def z wordSize_def)
  have p0: "0 \<le> p" using p by simp
  have small': "int (length data) < 2 ^ 63" using small by simp
  have wr: "wrap64 (p + k) = p + k" if "0 \<le> k" "k \<le> 96 + int (length d)" for k
    using that tot small' p0 by (intro wrap_small) linarith+
  have s1: "slice data p (p + 32) = Some w"
    using slice_mid[of pre p w "p + 32"] p w by (simp add: data tupleBytes_def)
  have s2: "slice data (p + 32) (p + 64) = Some (encodeUint64 64)"
    using slice_mid[of "pre @ w" "p + 32" "encodeUint64 64" "p + 64"] p w off(1) by (simp add: data tupleBytes_def wordSize_def)
  have s3: "int64At data (p + 64) = Some (int (length d))"
    by (rule int64At_word(1)[of _ "pre @ w @ encodeUint64 64" _ "padRight d @ post"])
      (use p w off(1) small sz in \<open>simp_all add: data tupleBytes_def wordSize_def\<close>)
  have s4: "slice data (p + 96) (p + 96 + int (length d)) = Some d"
    using slice_mid[of "pre @ w @ encodeUint64 64 @ encodeUint64 (length d)" "p + 96" d "p + 96 + int (length d)" "z @ post"]
      p w off(1) len(1) by (simp add: data tupleBytes_def wordSize_def z)
  have "wrap64 (bytesToInt (encodeUint64 64)) = 64" using off(2) by (simp add: wrap_small)
  then show ?thesis
    using s1 s2 s3 s4 tot wr[of 32] wr[of 64] wr[of 96] wr[of "96 + int (length d)"]
    by (simp add: decodeResultTuple_def Let_def add.assoc)
qed

lemma offsetWords_length:
  "off + length (concat es) < 2 ^ 63 \<Longrightarrow> length (offsetWords off es) = 32 * length es"
proof (induction es arbitrary: off)
  case (Cons e es)
  then show ?case using word_len(1)[of off] by simp
qed simp

lemma offsetWords_ge: "32 * length es \<le> length (offsetWords off es)"
proof (induction es arbitrary: off)
  case (Cons e es)
  have "32 \<le> length (encodeUint64 off)" by (simp add: encodeUint64_def encodeUint_def padLeft_def wordSize_def)
  then show ?case using Cons[of "off + length e"] by simp
qed simp

abbreviation tupleOf :: "byte list \<times> byte list \<Rightarrow> byte list" where
  "tupleOf t \<equiv> tupleBytes (fst t) (snd t)"

abbreviation tupleResult :: "byte list \<times> byte list \<Rightarrow> mresult" where
  "tupleResult t \<equiv> \<lparr>resSuccess = (bytesToInt (fst t) \<noteq> 0), resReturnData = snd t\<rparr>"

lemma decodeElementsAt_layout:
  assumes "data = H @ O1 @ offsetWords off (map tupleOf ts) @ E1 @ concat (map tupleOf ts) @ post"
    and "int (length H) = eb" "length O1 = 32 * i" "off = 32 * i + 32 * length ts + length E1"
    and "length data < 2 ^ 63" "\<forall>t \<in> set ts. length (fst t) = 32"
  shows "decodeElementsAt data eb i (length ts) = Ok (map tupleResult ts)"
  using assms
proof (induction ts arbitrary: O1 off E1 i)
  case (Cons t ts)
  let ?rest = "offsetWords (off + length (tupleOf t)) (map tupleOf ts)"
  let ?tail = "concat (map tupleOf ts) @ post"
  have "32 * length ts \<le> length ?rest" using offsetWords_ge[of "map tupleOf ts"] by simp
  moreover have w32: "32 \<le> length (encodeUint64 off)"
    by (simp add: encodeUint64_def encodeUint_def padLeft_def wordSize_def)
  moreover have d: "data = H @ O1 @ encodeUint64 off @ ?rest @ E1 @ tupleOf t @ ?tail" using Cons.prems(1) by simp
  ultimately have tot: "length H + off + length (tupleOf t) + length (concat (map tupleOf ts)) \<le> length data"
    using Cons.prems(3,4) by simp
  then have off: "off < 2 ^ 63" using Cons.prems(5) by linarith
  note w = word_len[OF off]
  have rl: "length ?rest = 32 * length ts"
    using offsetWords_length[of "off + length (tupleOf t)" "map tupleOf ts"] tot Cons.prems(5) by simp
  have small: "int (length data) < 2 ^ 63" using Cons.prems(5) by simp
  note rd = int64At_word[of data "H @ O1" off "?rest @ E1 @ tupleOf t @ ?tail" "eb + int i * 32"]
  have rd: "int64At data (eb + int i * 32) = Some (int off)" "wrap64 (eb + int i * 32 + 32) = eb + int i * 32 + 32"
    "eb + int i * 32 + 32 \<le> int (length data)"
    using rd d Cons.prems(2,3,5) off by simp_all
  have "wrap64 (eb + int i * 32) = eb + int i * 32"
    using rd(3) small Cons.prems(2) by (intro wrap_small) linarith+
  moreover have "wrap64 (eb + int off) = eb + int off"
    using tot small Cons.prems(2) by (intro wrap_small) linarith+
  moreover have "decodeResultTuple data (eb + int off) = Ok (tupleResult t)"
    by (rule decodeResultTuple_at[of _ "H @ O1 @ encodeUint64 off @ ?rest @ E1" _ _ ?tail])
      (use d Cons.prems(2-6) w(1) rl in simp_all)
  moreover have "decodeElementsAt data eb (Suc i) (length ts) = Ok (map tupleResult ts)"
    by (rule Cons.IH[of "O1 @ encodeUint64 off" "off + length (tupleOf t)" "E1 @ tupleOf t"])
      (use d Cons.prems(2-6) w(1) in simp_all)
  ultimately show ?case using rd by (simp add: Let_def)
qed simp

subsection \<open>The answer of the contract\<close>

definition resultTuple :: "mresult \<Rightarrow> byte list \<times> byte list" where
  "resultTuple r = (boolWord (resSuccess r), resReturnData r)"

definition encodeResults :: "mresult list \<Rightarrow> byte list" where
  "encodeResults rs =
     (let es = map (tupleOf \<circ> resultTuple) rs
      in encodeUint64 32 @ encodeUint64 (length rs) @ offsetWords (32 * length rs) es @ concat es)"

lemma boolWord_word: "length (boolWord b) = 32" "bytesToInt (boolWord b) \<noteq> 0 \<longleftrightarrow> b"
proof -
  have "bytesToInt (replicate 31 0 @ [x]) = uint x" for x :: byte by (simp only: bytesToInt_snoc bytesToInt_zeros mult_zero_left add_0)
  then show "length (boolWord b) = 32" "bytesToInt (boolWord b) \<noteq> 0 \<longleftrightarrow> b"
    by (simp_all add: boolWord_def wordSize_def)
qed

lemma decode_encodeResults:
  assumes "length (encodeResults rs) < 2 ^ 63"
  shows "decodeTryAggregate (EncodeHex (encodeResults rs)) (length rs) = Ok rs"
proof -
  let ?ts = "map resultTuple rs"
  let ?data = "encodeResults rs"
  have data: "?data = (encodeUint64 32 @ encodeUint64 (length rs)) @ [] @ offsetWords (32 * length rs) (map tupleOf ?ts) @ [] @
      concat (map tupleOf ?ts) @ []"
    by (simp add: encodeResults_def Let_def comp_def)
  have n: "length rs < 2 ^ 63"
    using offsetWords_ge[of "map tupleOf ?ts" "32 * length rs"] assms data by simp
  have c: "(32 :: nat) < 2 ^ 63" by simp
  note w = word_len[OF c] word_len[OF n]
  have len: "64 \<le> length ?data" using data w by simp
  have base: "decodeUint ?data 0 = Inr 32"
    using abiWord_at[of "[]" 0 "encodeUint64 32"] w by (simp add: decodeUint_def data)
  have count: "int64At ?data 32 = Some (int (length rs))"
    by (rule int64At_word(1)[of _ "encodeUint64 32" _ "offsetWords (32 * length rs) (map tupleOf ?ts) @ concat (map tupleOf ?ts)"])
      (use data w assms n in simp_all)
  have elems: "decodeElementsAt ?data 64 0 (length ?ts) = Ok (map tupleResult ?ts)"
    by (rule decodeElementsAt_layout[OF data]) (use w assms in \<open>simp_all add: resultTuple_def boolWord_word\<close>)
  have "map tupleResult ?ts = rs" by (simp add: resultTuple_def boolWord_word map_idI)
  then show ?thesis
    using len base count elems by (simp add: decodeTryAggregate_def DecodeHex_EncodeHex wordSize_def Let_def wrap_small)
qed

lemma encodeElements_Inr:
  "encodeElements cs = Inr es \<Longrightarrow>
     \<exists>ws. length ws = length cs \<and> es = map tupleOf (zip ws (map callData cs)) \<and> (\<forall>w \<in> set ws. length w = 32)
        \<and> map (\<lambda>c. encodeAddress (callTarget c)) cs = map Inr ws"
proof (induction cs arbitrary: es)
  case (Cons c cs)
  then obtain w es' where c: "encodeAddress (callTarget c) = Inr w" "encodeElements cs = Inr es'"
    "es = tupleBytes w (callData c) # es'"
    by (auto simp: encodeCallTuple_def tupleBytes_def split: sum.splits)
  obtain ws where ws: "length ws = length cs" "es' = map tupleOf (zip ws (map callData cs))" "\<forall>w \<in> set ws. length w = 32"
    "map (\<lambda>c. encodeAddress (callTarget c)) cs = map Inr ws"
    using Cons.IH[OF c(2)] by blast
  have "length w = 32" using c(1) by (auto simp: encodeAddress_def padLeft_def wordSize_def split: sum.splits if_splits)
  then show ?case using c ws by (intro exI[of _ "w # ws"]) simp
qed simp

lemma encodeElements_take:
  "\<forall>c \<in> set cs. \<exists>w. encodeAddress (callTarget c) = Inr w \<Longrightarrow> \<exists>es. encodeElements cs = Inr es"
proof (induction cs)
  case (Cons c cs)
  obtain w es where "encodeAddress (callTarget c) = Inr w" "encodeElements cs = Inr es" using Cons by auto
  then show ?case by (simp add: encodeCallTuple_def)
qed simp

lemma aggregateFrom_batches:
  assumes "0 < batch" "\<forall>c \<in> set calls. \<exists>w. encodeAddress (callTarget c) = Inr w"
    and "\<And>chunk payload. set chunk \<subseteq> set calls \<Longrightarrow> length chunk \<le> batch \<Longrightarrow>
           encodeTryAggregate keccak False chunk = Inr payload \<Longrightarrow>
           request (EncodeHex payload) = Ok (EncodeHex (encodeResults (map ans chunk)))
           \<and> length (encodeResults (map ans chunk)) < 2 ^ 63"
  shows "aggregateFrom keccak request batch calls = Ok (map ans calls)"
  using assms(2,3)
proof (induction "length calls" arbitrary: calls rule: less_induct)
  case less
  show ?case
  proof (cases "calls = []")
    case True
    then show ?thesis by (simp add: aggregateFrom.simps)
  next
    case False
    let ?chunk = "take batch calls"
    have sub: "set ?chunk \<subseteq> set calls" "set (drop batch calls) \<subseteq> set calls" by (auto dest: in_set_takeD in_set_dropD)
    then obtain es where "encodeElements ?chunk = Inr es"
      using encodeElements_take[of ?chunk] less.prems(1) by blast
    then obtain payload where payload: "encodeTryAggregate keccak False ?chunk = Inr payload"
      by (simp add: encodeTryAggregate_def Let_def)
    have req: "request (EncodeHex payload) = Ok (EncodeHex (encodeResults (map ans ?chunk)))"
      "length (encodeResults (map ans ?chunk)) < 2 ^ 63"
      using less.prems(2)[OF sub(1) _ payload] by auto
    have "length (drop batch calls) < length calls" using assms(1) False by simp
    moreover have "\<forall>c \<in> set (drop batch calls). \<exists>w. encodeAddress (callTarget c) = Inr w"
      using less.prems(1) sub(2) by blast
    ultimately have "aggregateFrom keccak request batch (drop batch calls) = Ok (map ans (drop batch calls))"
      by (rule less.hyps) (use less.prems(2) sub(2) in blast)+
    then show ?thesis
      using False assms(1) payload req(1) decode_encodeResults[OF req(2)]
      by (subst aggregateFrom.simps) (simp add: Let_def flip: map_append)
  qed
qed

subsection \<open>Properties\<close>

text \<open>C26. The decoder inverts the ABI: the answer \<^verbatim>\<open>(bool, bytes)[]\<close> of \<^verbatim>\<open>tryAggregate\<close>, laid out as the
  ABI prescribes, decodes to exactly the flags and byte strings it carries, however many and however
  long.\<close>

theorem decodeTryAggregate_roundtrip:
  assumes "length (encodeResults rs) < 2 ^ 63"
  shows "decodeTryAggregate (EncodeHex (encodeResults rs)) (length rs) = Ok rs"
  by (rule decode_encodeResults[OF assms])

definition exampleResults :: "mresult list" where
  "exampleResults = [\<lparr>resSuccess = True, resReturnData = [1, 2, 3]\<rparr>, \<lparr>resSuccess = False, resReturnData = []\<rparr>]"

theorem decodeTryAggregate_roundtrip_witness:
  "decodeTryAggregate (EncodeHex (encodeResults exampleResults)) 2 = Ok exampleResults"
proof -
  have "length (encodeResults exampleResults) < 2 ^ 63"
    by (simp add: encodeResults_def exampleResults_def resultTuple_def tupleBytes_def boolWord_word(1) word_len(1)
        padRight_def wordSize_def Let_def)
  from decodeTryAggregate_roundtrip[OF this] show ?thesis by (simp add: exampleResults_def numeral_2_eq_2)
qed

text \<open>The request has the layout of \<^verbatim>\<open>tryAggregate(bool,(address,bytes)[])\<close>: after the four bytes of
  the selector come the flag, the offset 64 and the number of calls, and following the element
  offsets from there yields, in order, tuples whose first word is the call's encoded address and
  whose byte string is its call data.\<close>

theorem encodeTryAggregate_layout:
  assumes "encodeTryAggregate keccak requireSuccess calls = Inr enc" "length enc < 2 ^ 63"
    and "\<And>bs. length (keccak bs) = 32"
  shows "take 4 enc = Selector keccak tryAggregateSignature
    \<and> decodeUint (drop 4 enc) 1 = Inr 64 \<and> decodeUint (drop 4 enc) 2 = Inr (int (length calls))
    \<and> (\<exists>ws. map (\<lambda>c. encodeAddress (callTarget c)) calls = map Inr ws
         \<and> decodeElementsAt (drop 4 enc) 96 0 (length calls)
             = Ok (map (\<lambda>(w, c). \<lparr>resSuccess = (bytesToInt w \<noteq> 0), resReturnData = callData c\<rparr>) (zip ws calls)))"
proof -
  obtain es where es: "encodeElements calls = Inr es" and enc: "enc = Selector keccak tryAggregateSignature @
      boolWord requireSuccess @ encodeUint64 64 @ encodeUint64 (length calls) @ offsetWords (length calls * 32) es @ concat es"
    using assms(1) by (auto simp: encodeTryAggregate_def wordSize_def Let_def split: sum.splits)
  obtain ws where ws: "length ws = length calls" "es = map tupleOf (zip ws (map callData calls))"
    "\<forall>w \<in> set ws. length w = 32" "map (\<lambda>c. encodeAddress (callTarget c)) calls = map Inr ws"
    using encodeElements_Inr[OF es] by blast
  have sel: "length (Selector keccak tryAggregateSignature) = 4" by (simp add: Selector_def assms(3))
  define data where "data = drop 4 enc"
  have n: "length calls < 2 ^ 63"
    using offsetWords_ge[of es "length calls * 32"] assms(2) ws(1,2) by (simp add: enc)
  have c: "(64 :: nat) < 2 ^ 63" by simp
  note w = word_len[OF c] word_len[OF n]
  have data: "data = (boolWord requireSuccess @ encodeUint64 64 @ encodeUint64 (length calls)) @ [] @
      offsetWords (32 * length calls) (map tupleOf (zip ws (map callData calls))) @ [] @ concat (map tupleOf (zip ws (map callData calls))) @ []"
    using sel by (simp add: data_def enc ws(2) mult.commute)
  have "decodeElementsAt data 96 0 (length (zip ws (map callData calls))) = Ok (map tupleResult (zip ws (map callData calls)))"
    by (rule decodeElementsAt_layout[OF data])
      (use w ws assms(2) in \<open>auto simp: boolWord_word data_def dest: set_zip_leftD\<close>)
  moreover have "map tupleResult (zip ws (map callData calls))
      = map (\<lambda>(w, c). \<lparr>resSuccess = (bytesToInt w \<noteq> 0), resReturnData = callData c\<rparr>) (zip ws calls)"
    by (simp add: zip_map2 case_prod_beta)
  moreover have "decodeUint data 1 = Inr 64" "decodeUint data 2 = Inr (int (length calls))"
    using abiWord_at[of "boolWord requireSuccess" 1 "encodeUint64 64"]
      abiWord_at[of "boolWord requireSuccess @ encodeUint64 64" 2 "encodeUint64 (length calls)"] w
    by (simp_all add: decodeUint_def data boolWord_word)
  moreover have "take 4 enc = Selector keccak tryAggregateSignature" using sel by (simp add: enc)
  ultimately show ?thesis using ws(1,4) by (auto simp flip: data_def)
qed

definition exampleCall :: "byte list \<Rightarrow> mcall" where
  "exampleCall d = \<lparr>callTarget = ''0x0000000000000000000000000000000000000001'', callData = d\<rparr>"

definition zeroKeccak :: "byte list \<Rightarrow> byte list" where "zeroKeccak _ = replicate 32 0"

lemma exampleCall_address: "\<exists>w. encodeAddress (callTarget (exampleCall d)) = Inr w \<and> length w = 32"
proof -
  have "(case encodeAddress ''0x0000000000000000000000000000000000000001'' of Inl _ \<Rightarrow> False | Inr w \<Rightarrow> length w = 32)"
    by code_simp
  then show ?thesis by (auto simp: exampleCall_def split: sum.splits)
qed

lemma example_payload:
  assumes "encodeTryAggregate zeroKeccak False chunk = Inr payload" "length chunk < 2 ^ 63"
  shows "take 32 (drop 68 payload) = encodeUint64 (length chunk)"
proof -
  obtain es where "payload = (replicate 4 0 @ boolWord False @ encodeUint64 64) @ encodeUint64 (length chunk) @
      offsetWords (length chunk * 32) es @ concat es"
    using assms(1) by (auto simp: encodeTryAggregate_def Selector_def zeroKeccak_def wordSize_def Let_def split: sum.splits)
  moreover have "length (replicate 4 0 @ boolWord False @ encodeUint64 64) = 68"
    using word_len(1)[of 64] by (simp add: boolWord_word)
  ultimately show ?thesis using word_len(1)[OF assms(2)] by simp
qed

theorem encodeTryAggregate_layout_witness:
  "\<exists>enc. encodeTryAggregate zeroKeccak False [exampleCall [7, 8]] = Inr enc \<and> decodeUint (drop 4 enc) 2 = Inr 1"
proof -
  obtain w where w: "encodeAddress (callTarget (exampleCall [7, 8])) = Inr w" "length w = 32"
    using exampleCall_address by blast
  define enc where "enc = replicate 4 (0 :: byte) @ boolWord False @ encodeUint64 64 @ encodeUint64 1 @
      encodeUint64 32 @ tupleBytes w [7, 8]"
  have enc: "encodeTryAggregate zeroKeccak False [exampleCall [7, 8]] = Inr enc"
    using w(1) by (simp add: enc_def encodeTryAggregate_def encodeCallTuple_def tupleBytes_def Selector_def zeroKeccak_def
        wordSize_def exampleCall_def Let_def)
  moreover have "length enc < 2 ^ 63"
    using w(2) word_len(1) by (simp add: enc_def boolWord_word tupleBytes_def padRight_def wordSize_def)
  ultimately show ?thesis using encodeTryAggregate_layout[OF enc] by (auto simp: zeroKeccak_def)
qed

text \<open>Batching is transparent: if every request of at most a batch is answered with the ABI encoding
  of the calls' answers, \<^verbatim>\<open>Aggregate\<close> returns the answer of every call, in order, whatever the batch
  size; results line up one to one with calls.\<close>

theorem Aggregate_transparent:
  assumes "0 < mcBatchSize m" "\<forall>c \<in> set calls. \<exists>w. encodeAddress (callTarget c) = Inr w"
    and "\<And>chunk payload. set chunk \<subseteq> set calls \<Longrightarrow> int (length chunk) \<le> mcBatchSize m \<Longrightarrow>
           encodeTryAggregate keccak False chunk = Inr payload \<Longrightarrow>
           request (EncodeHex payload) = Ok (EncodeHex (encodeResults (map ans chunk)))
           \<and> length (encodeResults (map ans chunk)) < 2 ^ 63"
  shows "Aggregate keccak request m calls = Ok (map ans calls)"
proof -
  have "aggregateFrom keccak request (nat (mcBatchSize m)) calls = Ok (map ans calls)"
    by (rule aggregateFrom_batches) (use assms in \<open>auto simp: le_nat_iff\<close>)
  then show ?thesis by (simp add: Aggregate_def)
qed

definition exampleNode :: "string \<Rightarrow> (mc_error, string) outcome" where
  "exampleNode hex =
     (case DecodeHex hex of
        Inl e \<Rightarrow> Err RequestError
      | Inr b \<Rightarrow> Ok (EncodeHex (encodeResults (replicate (nat (bytesToInt (take 32 (drop 68 b)))) \<lparr>resSuccess = True, resReturnData = []\<rparr>))))"

lemma exampleResults_length:
  assumes "n \<le> 2"
  shows "length (encodeResults (replicate n \<lparr>resSuccess = True, resReturnData = []\<rparr>)) < 2 ^ 63"
proof -
  let ?r = "\<lparr>resSuccess = True, resReturnData = []\<rparr>"
  have "n = 0 \<or> n = Suc 0 \<or> n = Suc (Suc 0)" using assms by auto
  then have "replicate n ?r = [] \<or> replicate n ?r = [?r] \<or> replicate n ?r = [?r, ?r]" by auto
  moreover have "length (encodeResults []) < 2 ^ 63" "length (encodeResults [?r]) < 2 ^ 63" "length (encodeResults [?r, ?r]) < 2 ^ 63"
    by (simp_all add: encodeResults_def resultTuple_def tupleBytes_def boolWord_word(1) word_len(1) padRight_def
        wordSize_def Let_def)
  ultimately show ?thesis by metis
qed

definition exampleAnswer :: "mcall \<Rightarrow> mresult" where
  "exampleAnswer c = \<lparr>resSuccess = True, resReturnData = []\<rparr>"

lemma exampleNode_answers:
  assumes "length chunk \<le> 2" "encodeTryAggregate zeroKeccak False chunk = Inr payload"
  shows "exampleNode (EncodeHex payload) = Ok (EncodeHex (encodeResults (map exampleAnswer chunk)))
    \<and> length (encodeResults (map exampleAnswer chunk)) < 2 ^ 63"
proof -
  have small: "length chunk < 2 ^ 63" using assms(1) by simp
  have "map exampleAnswer chunk = replicate (length chunk) \<lparr>resSuccess = True, resReturnData = []\<rparr>"
    by (induction chunk) (simp_all add: exampleAnswer_def)
  then show ?thesis
    using example_payload[OF assms(2) small] word_len(2)[OF small] exampleResults_length[OF assms(1)]
    by (simp add: exampleNode_def DecodeHex_EncodeHex)
qed

theorem Aggregate_transparent_witness:
  "Aggregate zeroKeccak exampleNode (NewMulticaller [] 2) [exampleCall [1], exampleCall [2], exampleCall [3]]
     = Ok (replicate 3 \<lparr>resSuccess = True, resReturnData = []\<rparr>)"
proof -
  have "Aggregate zeroKeccak exampleNode (NewMulticaller [] 2) [exampleCall [1], exampleCall [2], exampleCall [3]]
     = Ok (map exampleAnswer [exampleCall [1], exampleCall [2], exampleCall [3]])"
  proof (rule Aggregate_transparent)
    show "0 < mcBatchSize (NewMulticaller [] 2)" by (simp add: NewMulticaller_def)
    show "\<forall>c \<in> set [exampleCall [1], exampleCall [2], exampleCall [3]]. \<exists>w. encodeAddress (callTarget c) = Inr w"
      using exampleCall_address by fastforce
  qed (rule exampleNode_answers, simp_all add: NewMulticaller_def)
  then show ?thesis by (simp add: numeral_3_eq_3 exampleAnswer_def)
qed

text \<open>A flaw: the decoder trusts the sign of an offset. A 64-byte answer whose array offset has bit
  63 set is converted to a negative \<^verbatim>\<open>int\<close>, passes the length test and panics in the slice expression,
  instead of being reported as short data.\<close>

theorem decodeTryAggregate_negative_offset:
  "decodeTryAggregate (EncodeHex (encodeUint (2 ^ 63) @ encodeUint 0)) want = Panic"
proof -
  have "decodeTryAggregate (EncodeHex (encodeUint k @ encodeUint 0)) want = Panic" if k: "2 ^ 63 \<le> k" "k < 2 ^ 64" for k
  proof -
    have "k < 2 ^ 256" using k(2) by (rule order_less_trans) simp
    then have w: "length (encodeUint k) = 32" "bytesToInt (encodeUint k) = k" "length (encodeUint 0) = 32"
      using k(1) encodeUint_word[of k] encodeUint_word[of 0] by simp_all
    have "decodeUint (encodeUint k @ encodeUint 0) 0 = Inr k"
      using abiWord_at[of "[]" 0 "encodeUint k" "encodeUint 0"] w(1,2) by (simp add: decodeUint_def)
    moreover have "wrap64 k = k - 2 ^ 64"
    proof -
      have "(k + 2 ^ 63) mod 2 ^ 64 = (k - 2 ^ 63 + 2 ^ 64) mod 2 ^ 64" by (rule arg_cong[of _ _ "\<lambda>x. x mod 2 ^ 64"]) simp
      also have "\<dots> = (k - 2 ^ 63) mod 2 ^ 64" by (rule mod_add_self2)
      also have "\<dots> = k - 2 ^ 63" using k by (intro mod_pos_pos_trivial) simp_all
      finally show ?thesis unfolding wrap64_def by simp
    qed
    ultimately show ?thesis
      using w k by (simp add: decodeTryAggregate_def DecodeHex_EncodeHex wordSize_def Let_def int64At_def slice_def wrap_small wrap64_def)
  qed
  then show ?thesis by simp
qed

end
