(* ===== verification/Dex_Onchain.thy ===== *)
theory Dex_Onchain
  imports Dex_Pool Rpc_Multicall "HOL-Library.List_Lexorder" "HOL-Library.Char_ord"
begin

section \<open>Reading pools from a node (\<^verbatim>\<open>internal/dex/onchain\<close>)\<close>

text \<open>
  Pool addresses are derived with CREATE2, pool state is read in batches and decoded. The batch call
  \<^verbatim>\<open>Multicaller.Aggregate\<close> is the parameter \<open>aggregate\<close> of the two sources (its model is in
  \<open>Rpc_Multicall\<close>), Keccak-256 the parameter \<open>keccak\<close>. Integers of type \<^verbatim>\<open>int32\<close> wrap. Sorting the
  tokens by address is \<open>sort_key\<close>, the only result \<^verbatim>\<open>sort.Slice\<close> can have when addresses differ.
\<close>

definition UniswapV3Factory :: string where
  "UniswapV3Factory = ''0x1F98431c8aD98523631AE4a59f267346ea31F984''"

definition uniswapV3InitCodeHash :: string where
  "uniswapV3InitCodeHash = ''0xe34f199b19b2b4f47f68442619d555527d244f78a3297ea89325f843f87b8b54''"

definition SushiswapV2Factory :: string where
  "SushiswapV2Factory = ''0xC0AEe478e3658e2610c5F7A4A2E1777cE9e4f2Ac''"

definition sushiswapV2InitCodeHash :: string where
  "sushiswapV2InitCodeHash = ''0xe18a34eb0e04b04f7a0ac29a6e80748dca96319b42c54d679cb821dca90c6303''"

definition DefaultV3FeeTiers :: "nat list" where "DefaultV3FeeTiers = [5, 30, 100]"

datatype onchain_error = OnAbi abi_error | OnCall mc_error | OnBadFactory | OnTickRange | OnResultCount

subsection \<open>Addresses\<close>

definition orderTokens :: "token \<Rightarrow> token \<Rightarrow> token \<times> token" where
  "orderTokens a b = (if toLower (tokAddress a) > toLower (tokAddress b) then (b, a) else (a, b))"

definition create2 :: "(byte list \<Rightarrow> byte list) \<Rightarrow> string \<Rightarrow> byte list \<Rightarrow> byte list \<Rightarrow> onchain_error + string" where
  "create2 keccak factory salt initCodeHash =
     (case DecodeHex factory of
        Inl e \<Rightarrow> Inl (OnAbi e)
      | Inr f \<Rightarrow>
          if length f \<noteq> 20 then Inl OnBadFactory
          else Inr (EncodeHex (drop 12 (Keccak256 keccak [[0xff], f, salt, initCodeHash]))))"

definition leftPad32 :: "byte list \<Rightarrow> byte list" where
  "leftPad32 b = (if length b \<ge> 32 then b else replicate (32 - length b) 0 @ b)"

definition v3PoolAddress :: "(byte list \<Rightarrow> byte list) \<Rightarrow> token \<Rightarrow> token \<Rightarrow> nat \<Rightarrow> onchain_error + string" where
  "v3PoolAddress keccak a b feeBps =
     (case orderTokens a b of (t0, t1) \<Rightarrow>
      case DecodeHex (tokAddress t0) of
        Inl e \<Rightarrow> Inl (OnAbi e)
      | Inr addr0 \<Rightarrow>
        (case DecodeHex (tokAddress t1) of
           Inl e \<Rightarrow> Inl (OnAbi e)
         | Inr addr1 \<Rightarrow>
             let packed = leftPad32 addr0 @ leftPad32 addr1 @ leftPad32 (intBytes (int feeBps * 100));
                 salt = Keccak256 keccak [packed]
             in case DecodeHex uniswapV3InitCodeHash of
                  Inl e \<Rightarrow> Inl (OnAbi e)
                | Inr hash \<Rightarrow> create2 keccak UniswapV3Factory salt hash))"

definition v2PairAddress :: "(byte list \<Rightarrow> byte list) \<Rightarrow> token \<Rightarrow> token \<Rightarrow> onchain_error + string" where
  "v2PairAddress keccak a b =
     (case orderTokens a b of (t0, t1) \<Rightarrow>
      case DecodeHex (tokAddress t0) of
        Inl e \<Rightarrow> Inl (OnAbi e)
      | Inr addr0 \<Rightarrow>
        (case DecodeHex (tokAddress t1) of
           Inl e \<Rightarrow> Inl (OnAbi e)
         | Inr addr1 \<Rightarrow>
             let salt = Keccak256 keccak [addr0, addr1]
             in case DecodeHex sushiswapV2InitCodeHash of
                  Inl e \<Rightarrow> Inl (OnAbi e)
                | Inr hash \<Rightarrow> create2 keccak SushiswapV2Factory salt hash))"

fun allPairs :: "token list \<Rightarrow> (token \<times> token) list" where
  "allPairs [] = []"
| "allPairs (t # ts) = map (Pair t) ts @ allPairs ts"

definition pairsOf :: "token list \<Rightarrow> (token \<times> token) list" where
  "pairsOf tokens = allPairs (sort_key (\<lambda>t. toLower (tokAddress t)) tokens)"

subsection \<open>Decoding contract state\<close>

definition decodeInt24 :: "byte list \<Rightarrow> abi_error + int" where
  "decodeInt24 data =
     (if length data < 32 then Inl ErrShortReturn
      else
        let n = bytesToInt (take 32 data);
            n = n AND (2 ^ 24 - 1);
            n = (if n \<ge> 2 ^ 23 then n - 2 ^ 24 else n)
        in Inr (wrap32 n))"

definition encodeInt24 :: "int \<Rightarrow> onchain_error + byte list" where
  "encodeInt24 tick =
     (if tick < MinTick \<or> tick > MaxTick then Inl OnTickRange
      else
        let n = (if tick < 0 then tick + 2 ^ 256 else tick);
            b = intBytes n
        in Inr (replicate (32 - length b) 0 @ b))"

definition decodeSlot0 :: "byte list \<Rightarrow> abi_error + int \<times> int" where
  "decodeSlot0 data =
     (if length data < 2 * 32 then Inl ErrShortReturn
      else
        let sqrtPrice = bytesToInt (take 32 data)
        in case decodeInt24 (take 32 (drop 32 data)) of
             Inl e \<Rightarrow> Inl e
           | Inr tick \<Rightarrow> Inr (sqrtPrice, tick))"

definition decodeTick :: "byte list \<Rightarrow> abi_error + int \<times> bool" where
  "decodeTick data =
     (if length data < 8 * 32 then Inl ErrShortReturn
      else
        let net = bytesToInt (take 32 (drop 32 data));
            signBit = 2 ^ 127;
            net = (if net \<ge> signBit then net - 2 ^ 128 else net);
            initialized = (bytesToInt (take 32 (drop (7 * 32) data)) \<noteq> 0)
        in Inr (net, initialized))"

definition decodeReserves :: "byte list \<Rightarrow> abi_error + int \<times> int" where
  "decodeReserves data =
     (if length data < 3 * 32 then Inl ErrShortReturn
      else Inr (bytesToInt (take 32 data), bytesToInt (take 32 (drop 32 data))))"

definition tickWindow :: nat where "tickWindow = 8"

definition tickStride :: int where "tickStride = 20"

definition windowTicks :: "int \<Rightarrow> int \<Rightarrow> int list" where
  "windowTicks current spacing =
     (let spacing = (if spacing \<le> 0 then 60 else spacing);
          base = wrap32 (current - current smod spacing);
          lower = filter (\<lambda>idx. idx \<ge> MinTick)
                    (map (\<lambda>i. wrap32 (base - wrap32 (int i * tickStride * spacing))) (rev [1..<Suc tickWindow]));
          upper = filter (\<lambda>idx. idx \<le> MaxTick)
                    (map (\<lambda>i. wrap32 (base + wrap32 (int i * tickStride * spacing))) [1..<Suc tickWindow])
      in lower @ upper)"

subsection \<open>The Sushiswap source\<close>

definition sushiswapFeeBps :: nat where "sushiswapFeeBps = 30"

record sushiswapV2 =
  sushiTokens :: "token list"

definition NewSushiswapV2 :: "token list \<Rightarrow> sushiswapV2" where
  "NewSushiswapV2 tokens = \<lparr>sushiTokens = tokens\<rparr>"

fun v2Candidates :: "(byte list \<Rightarrow> byte list) \<Rightarrow> (token \<times> token) list \<Rightarrow> onchain_error + (string \<times> token \<times> token) list" where
  "v2Candidates keccak [] = Inr []"
| "v2Candidates keccak ((a, b) # ps) =
     (case v2PairAddress keccak a b of
        Inl e \<Rightarrow> Inl e
      | Inr addr \<Rightarrow> map_sum id ((#) (addr, orderTokens a b)) (v2Candidates keccak ps))"

definition sushiPool :: "string \<Rightarrow> token \<Rightarrow> token \<Rightarrow> int \<Rightarrow> int \<Rightarrow> pool" where
  "sushiPool addr t0 t1 r0 r1 =
     \<lparr>poolAddress = addr, poolProtocol = Dex_Pool.SushiswapV2, poolToken0 = t0, poolToken1 = t1,
      poolFeeBps = sushiswapFeeBps, poolSimulated = False, poolReserve0 = Some r0,
      poolReserve1 = Some r1, poolSqrtPriceX96 = None, poolLiquidity = None, poolTick = 0,
      poolTickSpacing = 0, poolTicks = []\<rparr>"

text \<open>One result of \<^verbatim>\<open>getReserves\<close>; \<open>None\<close> is the \<^verbatim>\<open>continue\<close>.\<close>

definition v2Live :: "(string \<times> token \<times> token) \<times> mresult \<Rightarrow> pool option" where
  "v2Live cr =
     (case cr of ((addr, t0, t1), r) \<Rightarrow>
      if \<not> resSuccess r then None
      else case decodeReserves (resReturnData r) of
             Inl _ \<Rightarrow> None
           | Inr (r0, r1) \<Rightarrow>
               if r0 \<le> 0 \<or> r1 \<le> 0 then None
               else Some (sushiPool addr t0 t1 r0 r1))"

definition sushiswapPools :: "(byte list \<Rightarrow> byte list) \<Rightarrow> (mcall list \<Rightarrow> (mc_error, mresult list) outcome) \<Rightarrow> sushiswapV2
                                \<Rightarrow> (onchain_error, pool list) outcome" where
  "sushiswapPools keccak aggregate s =
     (let pairs = pairsOf (sushiTokens s)
      in if pairs = [] then Ok []
         else case v2Candidates keccak pairs of
           Inl e \<Rightarrow> Err e
         | Inr candidates \<Rightarrow>
             let getReserves = Selector keccak ''getReserves()'';
                 calls = map (\<lambda>c. \<lparr>callTarget = fst c, callData = getReserves\<rparr>) candidates
             in case aggregate calls of
                  Panic \<Rightarrow> Panic
                | Err e \<Rightarrow> Err (OnCall e)
                | Ok results \<Rightarrow>
                    if length results \<noteq> length candidates then Err OnResultCount
                    else Ok (List.map_filter v2Live (zip candidates results)))"

subsection \<open>The Uniswap source\<close>

record uniswapV3 =
  uniTokens :: "token list"
  uniFeeTiers :: "nat list"

definition NewUniswapV3 :: "token list \<Rightarrow> nat list \<Rightarrow> uniswapV3" where
  "NewUniswapV3 tokens feeTiers =
     \<lparr>uniTokens = tokens, uniFeeTiers = (if feeTiers = [] then DefaultV3FeeTiers else feeTiers)\<rparr>"

record v3Candidate =
  canAddress :: string
  canToken0 :: token
  canToken1 :: token
  canFeeBps :: nat

fun feeCandidates :: "(byte list \<Rightarrow> byte list) \<Rightarrow> token \<Rightarrow> token \<Rightarrow> nat list \<Rightarrow> onchain_error + v3Candidate list" where
  "feeCandidates keccak t0 t1 [] = Inr []"
| "feeCandidates keccak t0 t1 (fee # fees) =
     (case v3PoolAddress keccak t0 t1 fee of
        Inl e \<Rightarrow> Inl e
      | Inr addr \<Rightarrow>
          map_sum id ((#) \<lparr>canAddress = addr, canToken0 = t0, canToken1 = t1, canFeeBps = fee\<rparr>)
            (feeCandidates keccak t0 t1 fees))"

fun pairCandidates :: "(byte list \<Rightarrow> byte list) \<Rightarrow> nat list \<Rightarrow> (token \<times> token) list \<Rightarrow> onchain_error + v3Candidate list" where
  "pairCandidates keccak feeTiers [] = Inr []"
| "pairCandidates keccak feeTiers ((a, b) # ps) =
     (case orderTokens a b of (t0, t1) \<Rightarrow>
      case feeCandidates keccak t0 t1 feeTiers of
        Inl e \<Rightarrow> Inl e
      | Inr cs \<Rightarrow> map_sum id ((@) cs) (pairCandidates keccak feeTiers ps))"

definition v3candidates :: "(byte list \<Rightarrow> byte list) \<Rightarrow> uniswapV3 \<Rightarrow> onchain_error + v3Candidate list" where
  "v3candidates keccak u = pairCandidates keccak (uniFeeTiers u) (pairsOf (uniTokens u))"

record live =
  liveCandidate :: v3Candidate
  liveSqrtPriceX96 :: int
  liveTick :: int
  liveLiquidity :: int
  liveTickSpacing :: int

text \<open>The three results of one candidate.\<close>

definition v3Live :: "v3Candidate \<Rightarrow> mresult \<Rightarrow> mresult \<Rightarrow> mresult \<Rightarrow> live option" where
  "v3Live c slot0Res liqRes spacingRes =
     (if \<not> resSuccess slot0Res \<or> \<not> resSuccess liqRes then None
      else case decodeSlot0 (resReturnData slot0Res) of
        Inl _ \<Rightarrow> None
      | Inr (sqrtPrice, tick) \<Rightarrow>
          if sqrtPrice \<le> 0 then None
          else
            let liquidity = bytesToInt (resReturnData liqRes)
            in if liquidity \<le> 0 then None
               else
                 let spacing =
                       (if resSuccess spacingRes then
                          (case decodeInt24 (resReturnData spacingRes) of
                             Inl _ \<Rightarrow> 60
                           | Inr n \<Rightarrow> if n \<noteq> 0 then n else 60)
                        else 60)
                 in Some \<lparr>liveCandidate = c, liveSqrtPriceX96 = sqrtPrice, liveTick = tick,
                          liveLiquidity = liquidity, liveTickSpacing = spacing\<rparr>)"

fun v3Found :: "v3Candidate list \<Rightarrow> mresult list \<Rightarrow> live list" where
  "v3Found (c # cs) (r0 # r1 # r2 # rs) =
     (case v3Live c r0 r1 r2 of None \<Rightarrow> v3Found cs rs | Some l \<Rightarrow> l # v3Found cs rs)"
| "v3Found _ _ = []"

fun tickArgs :: "int list \<Rightarrow> onchain_error + byte list list" where
  "tickArgs [] = Inr []"
| "tickArgs (idx # is) =
     (case encodeInt24 idx of Inl e \<Rightarrow> Inl e | Inr arg \<Rightarrow> map_sum id ((#) arg) (tickArgs is))"

fun tickCalls :: "byte list \<Rightarrow> live list \<Rightarrow> onchain_error + mcall list" where
  "tickCalls tickSel [] = Inr []"
| "tickCalls tickSel (f # fs) =
     (case tickArgs (windowTicks (liveTick f) (liveTickSpacing f)) of
        Inl e \<Rightarrow> Inl e
      | Inr args \<Rightarrow>
          map_sum id ((@) (map (\<lambda>arg. \<lparr>callTarget = canAddress (liveCandidate f), callData = tickSel @ arg\<rparr>) args))
            (tickCalls tickSel fs))"

text \<open>One tick of the window (\<open>None\<close> is the \<^verbatim>\<open>continue\<close>); then the ticks of one pool and the results
  left for the next, where running out of results ends the loop.\<close>

definition readTick :: "int \<Rightarrow> mresult \<Rightarrow> v3tick option" where
  "readTick idx r =
     (if \<not> resSuccess r then None
      else case decodeTick (resReturnData r) of
             Inl _ \<Rightarrow> None
           | Inr (net, initialized) \<Rightarrow>
               if \<not> initialized \<or> net = 0 then None
               else Some \<lparr>Index = idx, LiquidityNet = Some net, SqrtRatioX96 = None\<rparr>)"

fun takeTicks :: "int list \<Rightarrow> mresult list \<Rightarrow> v3tick list \<times> mresult list" where
  "takeTicks [] rs = ([], rs)"
| "takeTicks (idx # is) [] = ([], [])"
| "takeTicks (idx # is) (r # rs) =
     (case takeTicks is rs of (ticks, rest) \<Rightarrow>
      case readTick idx r of None \<Rightarrow> (ticks, rest) | Some tick \<Rightarrow> (tick # ticks, rest))"

definition v3Pool :: "live \<Rightarrow> v3tick list \<Rightarrow> pool" where
  "v3Pool f ticks =
     \<lparr>poolAddress = canAddress (liveCandidate f), poolProtocol = Dex_Pool.UniswapV3,
      poolToken0 = canToken0 (liveCandidate f), poolToken1 = canToken1 (liveCandidate f),
      poolFeeBps = canFeeBps (liveCandidate f), poolSimulated = False, poolReserve0 = None, poolReserve1 = None,
      poolSqrtPriceX96 = Some (liveSqrtPriceX96 f), poolLiquidity = Some (liveLiquidity f),
      poolTick = liveTick f, poolTickSpacing = liveTickSpacing f, poolTicks = ticks\<rparr>"

fun v3Assemble :: "live list \<Rightarrow> mresult list \<Rightarrow> pool list" where
  "v3Assemble [] rs = []"
| "v3Assemble (f # fs) rs =
     (case takeTicks (windowTicks (liveTick f) (liveTickSpacing f)) rs of (ticks, rest) \<Rightarrow>
      v3Pool f ticks # v3Assemble fs rest)"

text \<open>The two batched passes may see different states of the chain, so each has its own \<open>aggregate\<close>.\<close>

definition uniswapPools :: "(byte list \<Rightarrow> byte list) \<Rightarrow> (mcall list \<Rightarrow> (mc_error, mresult list) outcome)
                              \<Rightarrow> (mcall list \<Rightarrow> (mc_error, mresult list) outcome) \<Rightarrow> uniswapV3
                              \<Rightarrow> (onchain_error, pool list) outcome" where
  "uniswapPools keccak aggregate aggregate2 u =
     (case v3candidates keccak u of
        Inl e \<Rightarrow> Err e
      | Inr candidates \<Rightarrow>
          if candidates = [] then Ok []
          else
            let sels = [Selector keccak ''slot0()'', Selector keccak ''liquidity()'', Selector keccak ''tickSpacing()''];
                calls = concat (map (\<lambda>c. map (\<lambda>s. \<lparr>callTarget = canAddress c, callData = s\<rparr>) sels) candidates)
            in case aggregate calls of
                 Panic \<Rightarrow> Panic
               | Err e \<Rightarrow> Err (OnCall e)
               | Ok results \<Rightarrow>
                   if length results \<noteq> length calls then Err OnResultCount
                   else
                     let found = v3Found candidates results
                     in if found = [] then Ok []
                        else case tickCalls (Selector keccak ''ticks(int24)'') found of
                          Inl e \<Rightarrow> Err e
                        | Inr tcalls \<Rightarrow>
                            (case aggregate2 tcalls of
                               Panic \<Rightarrow> Panic
                             | Err e \<Rightarrow> Err (OnCall e)
                             | Ok tickResults \<Rightarrow> Ok (v3Assemble found tickResults)))"

subsection \<open>Ticks as words\<close>

lemma encodeInt24_word:
  assumes "MinTick \<le> tick" "tick \<le> MaxTick"
  shows "encodeInt24 tick = Inr (encodeUint (tick mod 2 ^ 256))"
proof -
  have mod: "(if tick < 0 then tick + 2 ^ 256 else tick) = tick mod 2 ^ 256"
  proof (cases "tick < 0")
    case True
    have "tick mod 2 ^ 256 = (tick + 2 ^ 256) mod 2 ^ 256" by simp
    also have "\<dots> = tick + 2 ^ 256"
      by (rule mod_pos_pos_trivial) (use assms True in \<open>simp_all add: MinTick_def\<close>)
    finally show ?thesis using True by simp
  next
    case False
    then have "tick mod 2 ^ 256 = tick" by (intro mod_pos_pos_trivial) (use assms in \<open>simp_all add: MaxTick_def\<close>)
    then show ?thesis using False by simp
  qed
  have "tick mod 2 ^ 256 < 256 ^ 32" using pos_mod_bound[of "2 ^ 256" tick] by simp
  then have "length (intBytes (tick mod 2 ^ 256)) \<le> 32" by (rule length_intBytes)
  then have "replicate (32 - length (intBytes (tick mod 2 ^ 256))) 0 @ intBytes (tick mod 2 ^ 256)
      = encodeUint (tick mod 2 ^ 256)"
    by (simp add: encodeUint_def padLeft_def wordSize_def)
  then show ?thesis using assms by (simp only: encodeInt24_def mod Let_def) simp
qed

lemma word_of:
  obtains w where "encodeUint (n mod 2 ^ 256) = w" "length w = 32" "bytesToInt w = n mod 2 ^ 256"
  by (rule that[OF refl]) (intro encodeUint_word; simp)+

lemma decodeInt24_at:
  assumes "length w = 32" "bytesToInt w = n mod 2 ^ 256" "- (2 ^ 23) \<le> n" "n < 2 ^ 23"
  shows "decodeInt24 (w @ post) = Inr n"
proof -
  have "decodeInt24 (w @ post) = Inr (wrap32 (if 2 ^ 23 \<le> bytesToInt w AND (2 ^ 24 - 1)
      then (bytesToInt w AND (2 ^ 24 - 1)) - 2 ^ 24 else bytesToInt w AND (2 ^ 24 - 1)))"
    using assms(1) by (simp add: decodeInt24_def Let_def)
  also have "\<dots> = Inr (wrap32 n)"
    unfolding assms(2) using signed_bits[of 24 n] assms(3,4) by simp
  also have "wrap32 n = n" using assms(3,4) by (intro wrap32_id) simp_all
  finally show ?thesis .
qed

lemma decodeSlot0_at:
  assumes "length p = 32" "length w = 32"
  shows "decodeSlot0 (p @ w @ rest) = (case decodeInt24 (w @ []) of Inl e \<Rightarrow> Inl e | Inr tick \<Rightarrow> Inr (bytesToInt p, tick))"
  using assms by (simp add: decodeSlot0_def Let_def)

lemma decodeTick_at:
  assumes "length gross = 32" "length w = 32" "length rest = 160" "length flag = 32"
  shows "decodeTick (gross @ w @ rest @ flag)
    = Inr (if 2 ^ 127 \<le> bytesToInt w then bytesToInt w - 2 ^ 128 else bytesToInt w, bytesToInt flag \<noteq> 0)"
  using assms by (simp add: decodeTick_def Let_def)

text \<open>Tick numbers survive the ABI: every tick of the protocol's range is encoded as one word that
  decodes to it, in an argument as well as in the second word of \<^verbatim>\<open>slot0\<close>, and every other number is refused.\<close>

theorem tick_word_roundtrip:
  "(case encodeInt24 tick of
      Inr w \<Rightarrow> MinTick \<le> tick \<and> tick \<le> MaxTick \<and> length w = 32 \<and> decodeInt24 w = Inr tick
               \<and> decodeSlot0 (encodeUint (price mod 2 ^ 256) @ w @ rest) = Inr (price mod 2 ^ 256, tick)
    | Inl e \<Rightarrow> e = OnTickRange \<and> (tick < MinTick \<or> MaxTick < tick))"
proof (cases "MinTick \<le> tick \<and> tick \<le> MaxTick")
  case True
  obtain w where w: "encodeUint (tick mod 2 ^ 256) = w" "length w = 32" "bytesToInt w = tick mod 2 ^ 256" by (rule word_of)
  obtain p where p: "encodeUint (price mod 2 ^ 256) = p" "length p = 32" "bytesToInt p = price mod 2 ^ 256" by (rule word_of)
  have "decodeInt24 (w @ []) = Inr tick"
    by (rule decodeInt24_at[OF w(2,3)]) (use True in \<open>simp_all add: MinTick_def MaxTick_def\<close>)
  moreover from this have "decodeSlot0 (p @ w @ rest) = Inr (price mod 2 ^ 256, tick)"
    by (simp only: decodeSlot0_at[OF p(2) w(2)] sum.case p(3))
  ultimately show ?thesis using True w(2) encodeInt24_word[of tick] unfolding w(1) p(1) by simp
qed (auto simp: encodeInt24_def)

text \<open>A flaw: \<^verbatim>\<open>decodeTick\<close> does not mask the word of \<^verbatim>\<open>liquidityNet\<close> to its 128 bits before it
  sign-extends it. The net liquidity of a tick that removes liquidity is a negative number, which the ABI
  extends over the whole word; it is decoded as \<open>net + 2\<^sup>2\<^sup>5\<^sup>6 - 2\<^sup>1\<^sup>2\<^sup>8\<close>, a huge positive amount. Nonnegative
  numbers are decoded correctly, and \<^verbatim>\<open>rpc\<close>'s own \<^verbatim>\<open>decodeInt\<close> gets all of them right.\<close>

theorem decodeTick_negative_net:
  assumes "- (2 ^ 127) \<le> net" "net < 2 ^ 127" "length gross = 32" "length rest = 160" "length flag = 32"
  shows "decodeTick (gross @ encodeUint (net mod 2 ^ 256) @ rest @ flag)
           = Inr (if net < 0 then net + 2 ^ 256 - 2 ^ 128 else net, bytesToInt flag \<noteq> 0)
       \<and> decodeInt (gross @ encodeUint (net mod 2 ^ 256) @ rest @ flag) 1 128 = Inr net"
proof -
  obtain w where w: "encodeUint (net mod 2 ^ 256) = w" "length w = 32" "bytesToInt w = net mod 2 ^ 256" by (rule word_of)
  have m: "bytesToInt w = (if net < 0 then net + 2 ^ 256 else net)"
  proof (cases "net < 0")
    case True
    have "net mod 2 ^ 256 = (net + 2 ^ 256) mod 2 ^ 256" by simp
    also have "\<dots> = net + 2 ^ 256" by (rule mod_pos_pos_trivial) (use assms True in simp_all)
    finally show ?thesis using True w(3) by simp
  next
    case False
    then have "net mod 2 ^ 256 = net" by (intro mod_pos_pos_trivial) (use assms in simp_all)
    then show ?thesis using False w(3) by simp
  qed
  have "decodeTick (gross @ w @ rest @ flag)
           = Inr (if net < 0 then net + 2 ^ 256 - 2 ^ 128 else net, bytesToInt flag \<noteq> 0)"
    using assms(1,2) m unfolding decodeTick_at[OF assms(3) w(2) assms(4,5)] by simp
  moreover have "abiWord (gross @ w @ rest @ flag) 1 = Inr w" using abiWord_at[of gross 1 w] assms(3) w(2) by simp
  then have "decodeInt (gross @ w @ rest @ flag) 1 128 = Inr net"
    using signed_bits[of 128 net] assms(1,2) unfolding decodeInt_def Let_def by (simp add: w(3) split: if_splits)
  ultimately show ?thesis unfolding w(1) by simp
qed

theorem decodeTick_negative_net_witness:
  "decodeTick (encodeUint 5 @ encodeUint ((- 5) mod 2 ^ 256) @ replicate 160 0 @ encodeUint 1)
     = Inr (2 ^ 256 - 2 ^ 128 - 5, True)"
  using decodeTick_negative_net[of "- 5" "encodeUint 5" "replicate 160 0" "encodeUint 1"]
    encodeUint_word[of 5] encodeUint_word[of 1] by simp

subsection \<open>The tick window\<close>

definition windowBase :: "int \<Rightarrow> int \<Rightarrow> int" where
  "windowBase current spacing = current - current smod spacing"

lemma windowBase_facts:
  assumes "0 < spacing"
  shows "spacing dvd windowBase current spacing"
    and "0 \<le> current \<Longrightarrow> 0 \<le> windowBase current spacing \<and> windowBase current spacing \<le> current"
    and "current < 0 \<Longrightarrow> current \<le> windowBase current spacing \<and> windowBase current spacing \<le> 0"
proof -
  have eq: "windowBase current spacing = current sdiv spacing * spacing"
    by (simp add: windowBase_def minus_smod_eq_sdiv_mult)
  then show "spacing dvd windowBase current spacing" by simp
  have up: "0 \<le> a div spacing * spacing \<and> a div spacing * spacing \<le> a" if "0 \<le> a" for a
    using that assms pos_imp_zdiv_nonneg_iff[OF assms, of a] le_div_iff[OF assms, of "a div spacing" a] by simp
  show "0 \<le> windowBase current spacing \<and> windowBase current spacing \<le> current" if "0 \<le> current"
    using up[OF that] that assms by (simp add: eq sdiv_pos)
  show "current \<le> windowBase current spacing \<and> windowBase current spacing \<le> 0" if "current < 0"
    using up[of "- current"] that assms by (simp add: eq signed_divide_int_def)
qed

definition windowOffsets :: "int list" where
  "windowOffsets = [-8, -7, -6, -5, -4, -3, -2, -1, 1, 2, 3, 4, 5, 6, 7, 8]"

lemma windowBase_range:
  assumes "MinTick \<le> current" "current \<le> MaxTick" "0 < spacing"
  shows "- 887272 \<le> windowBase current spacing" "windowBase current spacing \<le> 887272"
  using assms(1,2) windowBase_facts(2,3)[OF assms(3), of current] by (cases "0 \<le> current"; simp add: MinTick_def MaxTick_def)+

text \<open>The distance of a position from the base, and the positions on both sides: none wraps around.\<close>

lemma window_position:
  assumes b: "- 887272 \<le> b" "b \<le> 887272" and s: "0 < spacing" "spacing < 2 ^ 23" and i: "i \<in> set [1..<Suc tickWindow]"
  shows "wrap32 (b - wrap32 (int i * tickStride * spacing)) = b + - int i * 20 * spacing"
    "wrap32 (b + wrap32 (int i * tickStride * spacing)) = b + int i * 20 * spacing"
    "b + int i * 20 * spacing \<ge> MinTick" "b + - int i * 20 * spacing \<le> MaxTick"
proof -
  have i8: "1 \<le> int i" "int i \<le> 8" using i by (simp_all add: tickWindow_def)
  define x where "x = int i * 20 * spacing"
  have x20: "x = 20 * (int i * spacing)" by (simp add: x_def)
  have "0 \<le> int i * spacing" "int i * spacing \<le> 8 * spacing" using i8 s(1) by (simp_all add: mult_right_mono)
  moreover have "spacing < 8388608" using s(2) by simp
  ultimately have x: "0 \<le> x" "x < 2146596375" unfolding x20 by linarith+
  have "int i * tickStride * spacing = x" by (simp add: x_def tickStride_def)
  moreover have "wrap32 x = x" using x by (simp add: wrap32_id)
  moreover have "wrap32 (b - x) = b - x" "wrap32 (b + x) = b + x" using b x by (simp_all add: wrap32_id)
  ultimately show "wrap32 (b - wrap32 (int i * tickStride * spacing)) = b + - int i * 20 * spacing"
    "wrap32 (b + wrap32 (int i * tickStride * spacing)) = b + int i * 20 * spacing"
    "b + int i * 20 * spacing \<ge> MinTick" "b + - int i * 20 * spacing \<le> MaxTick"
    using b x by (simp_all add: x_def[symmetric] MinTick_def MaxTick_def)
qed

text \<open>Without wrap-around: the sixteen positions around the current tick, those in range kept.\<close>

lemma windowTicks_eq:
  assumes "MinTick \<le> current" "current \<le> MaxTick" "0 < spacing" "spacing < 2 ^ 23"
  shows "windowTicks current spacing =
    filter (\<lambda>idx. MinTick \<le> idx \<and> idx \<le> MaxTick) (map (\<lambda>k. windowBase current spacing + k * 20 * spacing) windowOffsets)"
proof -
  let ?b = "windowBase current spacing"
  note b = windowBase_range[OF assms(1-3)]
  have base: "wrap32 (current - current smod spacing) = ?b" using b by (simp add: windowBase_def wrap32_id)
  note pos = window_position[OF b assms(3,4)]
  have "map (\<lambda>i. wrap32 (?b - wrap32 (int i * tickStride * spacing))) (rev [1..<Suc tickWindow])
      = map (\<lambda>i. ?b + - int i * 20 * spacing) (rev [1..<Suc tickWindow])"
    "map (\<lambda>i. wrap32 (?b + wrap32 (int i * tickStride * spacing))) [1..<Suc tickWindow]
      = map (\<lambda>i. ?b + int i * 20 * spacing) [1..<Suc tickWindow]"
    using pos(1,2) by (auto intro!: map_cong simp del: upt_Suc)
  moreover have "filter (\<lambda>idx. MinTick \<le> idx) (map (\<lambda>i. ?b + - int i * 20 * spacing) (rev [1..<Suc tickWindow]))
      = filter (\<lambda>idx. MinTick \<le> idx \<and> idx \<le> MaxTick) (map (\<lambda>i. ?b + - int i * 20 * spacing) (rev [1..<Suc tickWindow]))"
    "filter (\<lambda>idx. idx \<le> MaxTick) (map (\<lambda>i. ?b + int i * 20 * spacing) [1..<Suc tickWindow])
      = filter (\<lambda>idx. MinTick \<le> idx \<and> idx \<le> MaxTick) (map (\<lambda>i. ?b + int i * 20 * spacing) [1..<Suc tickWindow])"
    using pos(3,4) by (auto intro!: filter_cong simp del: upt_Suc)
  moreover have "map (\<lambda>i. ?b + - int i * 20 * spacing) (rev [1..<Suc tickWindow]) @ map (\<lambda>i. ?b + int i * 20 * spacing) [1..<Suc tickWindow]
      = map (\<lambda>k. ?b + k * 20 * spacing) windowOffsets"
    by (simp add: windowOffsets_def tickWindow_def upt_rec)
  ultimately show ?thesis
    using assms(3) by (simp only: windowTicks_def Let_def base not_le[symmetric] if_not_P if_False flip: filter_append)
qed

text \<open>The tick window of a pool: for a tick in range and any tick spacing the ABI can carry (an unset or
  negative one counts as 60), the sampled indexes are strictly increasing, in the protocol's range, multiples
  of the spacing and at most sixteen; no arithmetic wraps and every one of them can be encoded.\<close>

theorem windowTicks_window:
  assumes "MinTick \<le> current" "current \<le> MaxTick" "spacing < 2 ^ 23"
  shows "sorted_wrt (<) (windowTicks current spacing) \<and> length (windowTicks current spacing) \<le> 16
    \<and> (\<forall>idx \<in> set (windowTicks current spacing). MinTick \<le> idx \<and> idx \<le> MaxTick
         \<and> (if spacing \<le> 0 then 60 else spacing) dvd idx \<and> idx \<noteq> windowBase current (if spacing \<le> 0 then 60 else spacing))"
proof -
  define sp where "sp = (if spacing \<le> 0 then 60 else spacing)"
  have sp: "0 < sp" "sp < 2 ^ 23" using assms(3) by (simp_all add: sp_def)
  have "windowTicks current spacing = windowTicks current sp" by (simp add: windowTicks_def sp_def)
  then have eq: "windowTicks current spacing = filter (\<lambda>idx. MinTick \<le> idx \<and> idx \<le> MaxTick)
      (map (\<lambda>k. windowBase current sp + k * 20 * sp) windowOffsets)"
    using windowTicks_eq[OF assms(1,2) sp] by simp
  have "sorted_wrt (<) (map (\<lambda>k. windowBase current sp + k * 20 * sp) windowOffsets)"
    using sp(1) by (simp add: windowOffsets_def)
  then have "sorted_wrt (<) (windowTicks current spacing)" unfolding eq by (rule sorted_wrt_filter)
  moreover have "length (windowTicks current spacing) \<le> 16"
    unfolding eq using length_filter_le[of _ "map (\<lambda>k. windowBase current sp + k * 20 * sp) windowOffsets"]
    by (rule order_trans) (simp add: windowOffsets_def)
  moreover have "\<forall>idx \<in> set (windowTicks current spacing). MinTick \<le> idx \<and> idx \<le> MaxTick \<and> sp dvd idx \<and> idx \<noteq> windowBase current sp"
    unfolding eq using windowBase_facts(1)[OF sp(1), of current] sp(1) by (auto simp: windowOffsets_def)
  ultimately show ?thesis unfolding sp_def by simp
qed

theorem windowTicks_window_witness:
  "sorted_wrt (<) (windowTicks (- 199999) 10) \<and> length (windowTicks (- 199999) 10) \<le> 16 \<and> -201590 \<in> set (windowTicks (- 199999) 10)"
proof -
  have "-201590 \<in> set (windowTicks (- 199999) 10)" by code_simp
  then show ?thesis using windowTicks_window[of "- 199999" 10] by (simp add: MinTick_def MaxTick_def)
qed

subsection \<open>Batched reads and single reads\<close>

lemma decodeInt24_range:
  assumes "decodeInt24 data = Inr n"
  shows "- (2 ^ 23) \<le> n \<and> n < 2 ^ 23"
proof -
  define m where "m = bytesToInt (take 32 data) AND (2 ^ 24 - 1)"
  have "m = bytesToInt (take 32 data) mod 2 ^ 24"
    unfolding m_def by (simp only: mask_eq_exp_minus_1[symmetric] take_bit_eq_mask[symmetric] take_bit_eq_mod)
  then have m: "0 \<le> m" "m < 2 ^ 24" by simp_all
  have "n = wrap32 (if m \<ge> 2 ^ 23 then m - 2 ^ 24 else m)"
    using assms by (simp add: decodeInt24_def m_def Let_def split: if_splits)
  moreover have "wrap32 (if m \<ge> 2 ^ 23 then m - 2 ^ 24 else m) = (if m \<ge> 2 ^ 23 then m - 2 ^ 24 else m)"
    using m by (intro wrap32_id) auto
  ultimately show ?thesis using m by auto
qed

lemma v3Live_spacing:
  assumes "v3Live c r0 r1 r2 = Some f"
  shows "liveTickSpacing f < 2 ^ 23" "0 < liveSqrtPriceX96 f" "0 < liveLiquidity f" "liveCandidate f = c"
proof -
  show "liveTickSpacing f < 2 ^ 23" "0 < liveSqrtPriceX96 f" "0 < liveLiquidity f" "liveCandidate f = c"
    using assms by (auto simp: v3Live_def Let_def split: if_splits sum.splits dest!: decodeInt24_range)
qed

lemma windowTicks_range:
  assumes "MinTick \<le> current" "current \<le> MaxTick" "spacing < 2 ^ 23" "idx \<in> set (windowTicks current spacing)"
  shows "MinTick \<le> idx \<and> idx \<le> MaxTick"
proof -
  define sp where "sp = (if spacing \<le> 0 then 60 else spacing)"
  have "windowTicks current spacing = windowTicks current sp" by (simp add: windowTicks_def sp_def)
  moreover have "0 < sp" "sp < 2 ^ 23" using assms(3) by (simp_all add: sp_def)
  ultimately show ?thesis using windowTicks_eq[OF assms(1,2), of sp] assms(4) by auto
qed

text \<open>What a single read of one candidate gives, with \<open>node\<close> and \<open>node2\<close> the contracts' answers at the
  times of the two passes.\<close>

definition readV2 :: "(byte list \<Rightarrow> byte list) \<Rightarrow> (mcall \<Rightarrow> mresult) \<Rightarrow> string \<times> token \<times> token \<Rightarrow> pool option" where
  "readV2 keccak node c = v2Live (c, node \<lparr>callTarget = fst c, callData = Selector keccak ''getReserves()''\<rparr>)"

definition tickWord :: "int \<Rightarrow> byte list" where
  "tickWord idx = encodeUint (idx mod 2 ^ 256)"

definition tickCall :: "(byte list \<Rightarrow> byte list) \<Rightarrow> live \<Rightarrow> int \<Rightarrow> mcall" where
  "tickCall keccak f idx = \<lparr>callTarget = canAddress (liveCandidate f),
     callData = Selector keccak ''ticks(int24)'' @ tickWord idx\<rparr>"

definition readLive :: "(byte list \<Rightarrow> byte list) \<Rightarrow> (mcall \<Rightarrow> mresult) \<Rightarrow> v3Candidate \<Rightarrow> live option" where
  "readLive keccak node c =
     (let read = (\<lambda>sig. node \<lparr>callTarget = canAddress c, callData = Selector keccak sig\<rparr>)
      in v3Live c (read ''slot0()'') (read ''liquidity()'') (read ''tickSpacing()''))"

definition readTicks :: "(byte list \<Rightarrow> byte list) \<Rightarrow> (mcall \<Rightarrow> mresult) \<Rightarrow> live \<Rightarrow> v3tick list" where
  "readTicks keccak node2 f =
     List.map_filter (\<lambda>idx. readTick idx (node2 (tickCall keccak f idx))) (windowTicks (liveTick f) (liveTickSpacing f))"

definition readV3 :: "(byte list \<Rightarrow> byte list) \<Rightarrow> (mcall \<Rightarrow> mresult) \<Rightarrow> (mcall \<Rightarrow> mresult) \<Rightarrow> v3Candidate \<Rightarrow> pool option" where
  "readV3 keccak node node2 c = map_option (\<lambda>f. v3Pool f (readTicks keccak node2 f)) (readLive keccak node c)"

lemma tickArgs_Inr:
  "(\<And>idx. idx \<in> set is \<Longrightarrow> MinTick \<le> idx \<and> idx \<le> MaxTick) \<Longrightarrow>
   tickArgs is = Inr (map tickWord is)"
  by (induction "is") (simp_all add: encodeInt24_word[folded tickWord_def])

lemma tickCalls_Inr:
  assumes "\<And>f idx. f \<in> set fs \<Longrightarrow> idx \<in> set (windowTicks (liveTick f) (liveTickSpacing f)) \<Longrightarrow> MinTick \<le> idx \<and> idx \<le> MaxTick"
  shows "tickCalls (Selector keccak ''ticks(int24)'') fs
    = Inr (concat (map (\<lambda>f. map (tickCall keccak f) (windowTicks (liveTick f) (liveTickSpacing f))) fs))"
  using assms
proof (induction fs)
  case (Cons f fs)
  then have "tickArgs (windowTicks (liveTick f) (liveTickSpacing f))
      = Inr (map tickWord (windowTicks (liveTick f) (liveTickSpacing f)))"
    by (intro tickArgs_Inr) auto
  moreover have "tickCalls (Selector keccak ''ticks(int24)'') fs
      = Inr (concat (map (\<lambda>f. map (tickCall keccak f) (windowTicks (liveTick f) (liveTickSpacing f))) fs))"
    using Cons by auto
  ultimately show ?case by (simp add: tickCall_def[abs_def] comp_def)
qed simp

lemma takeTicks_map:
  "takeTicks is (map g is @ rest) = (List.map_filter (\<lambda>idx. readTick idx (g idx)) is, rest)"
  by (induction "is") (simp_all add: map_filter_simps split: option.split)

lemma v3Assemble_concat:
  "v3Assemble fs (concat (map (\<lambda>f. map (g f) (windowTicks (liveTick f) (liveTickSpacing f))) fs))
   = map (\<lambda>f. v3Pool f (List.map_filter (\<lambda>idx. readTick idx (g f idx)) (windowTicks (liveTick f) (liveTickSpacing f)))) fs"
  by (induction fs) (simp_all add: takeTicks_map)

lemma v3Found_concat:
  "v3Found cs (concat (map (\<lambda>c. [a c, b c, d c]) cs)) = List.map_filter (\<lambda>c. v3Live c (a c) (b c) (d c)) cs"
  by (induction cs) (simp_all add: map_filter_simps split: option.split)

lemma map_filter_map_option: "map h (List.map_filter g xs) = List.map_filter (\<lambda>x. map_option h (g x)) xs"
  by (induction xs) (simp_all add: map_filter_simps split: option.split)

lemma set_map_filter_iff: "y \<in> set (List.map_filter g xs) \<longleftrightarrow> (\<exists>x \<in> set xs. g x = Some y)"
  by (induction xs) (auto simp: map_filter_simps split: option.split)

text \<open>C18. Batching the reads of all pools is the same as reading each pool alone: when the two batch calls
  deliver the answer of every call in order, the Uniswap source returns, in candidate order, exactly the
  pools that single reads of each candidate give, every tick of a pool decoded from the answer to that
  pool's own call; and likewise the Sushiswap source. The hypothesis is that live pools report ticks in
  the protocol's range.\<close>

theorem sources_read_each_pool:
  assumes "v3candidates keccak u = Inr cs"
    and "\<forall>c \<in> set cs. \<forall>f. readLive keccak node c = Some f \<longrightarrow> MinTick \<le> liveTick f \<and> liveTick f \<le> MaxTick"
    and "v2Candidates keccak (pairsOf (sushiTokens s)) = Inr ds"
  shows "uniswapPools keccak (\<lambda>calls. Ok (map node calls)) (\<lambda>calls. Ok (map node2 calls)) u
           = Ok (List.map_filter (readV3 keccak node node2) cs)
       \<and> sushiswapPools keccak (\<lambda>calls. Ok (map node calls)) s = Ok (List.map_filter (readV2 keccak node) ds)"
proof
  let ?sels = "[Selector keccak ''slot0()'', Selector keccak ''liquidity()'', Selector keccak ''tickSpacing()'']"
  let ?calls = "concat (map (\<lambda>c. map (\<lambda>s. \<lparr>callTarget = canAddress c, callData = s\<rparr>) ?sels) cs)"
  have found: "v3Found cs (map node ?calls) = List.map_filter (readLive keccak node) cs"
    using v3Found_concat[of cs "\<lambda>c. node \<lparr>callTarget = canAddress c, callData = Selector keccak ''slot0()''\<rparr>"
        "\<lambda>c. node \<lparr>callTarget = canAddress c, callData = Selector keccak ''liquidity()''\<rparr>"
        "\<lambda>c. node \<lparr>callTarget = canAddress c, callData = Selector keccak ''tickSpacing()''\<rparr>"]
    by (simp add: map_concat comp_def readLive_def[abs_def] Let_def)
  define fs where "fs = List.map_filter (readLive keccak node) cs"
  have rng: "MinTick \<le> idx \<and> idx \<le> MaxTick" if f: "f \<in> set fs" and idx: "idx \<in> set (windowTicks (liveTick f) (liveTickSpacing f))" for f idx
  proof -
    obtain c where c: "c \<in> set cs" "readLive keccak node c = Some f" using f unfolding fs_def set_map_filter_iff by blast
    then have "liveTickSpacing f < 2 ^ 23" by (auto simp: readLive_def Let_def dest: v3Live_spacing(1))
    then show ?thesis using windowTicks_range[OF _ _ _ idx] assms(2) c by auto
  qed
  have tcalls: "tickCalls (Selector keccak ''ticks(int24)'') fs
      = Inr (concat (map (\<lambda>f. map (tickCall keccak f) (windowTicks (liveTick f) (liveTickSpacing f))) fs))"
    by (rule tickCalls_Inr) (rule rng)
  have "v3Assemble fs (map node2 (concat (map (\<lambda>f. map (tickCall keccak f) (windowTicks (liveTick f) (liveTickSpacing f))) fs)))
      = map (\<lambda>f. v3Pool f (readTicks keccak node2 f)) fs"
    using v3Assemble_concat[of fs "\<lambda>f idx. node2 (tickCall keccak f idx)"]
    by (simp add: map_concat comp_def readTicks_def)
  also have "\<dots> = List.map_filter (readV3 keccak node node2) cs"
    by (simp add: fs_def map_filter_map_option readV3_def[abs_def])
  finally have assembled: "v3Assemble fs (map node2 (concat (map (\<lambda>f. map (tickCall keccak f)
      (windowTicks (liveTick f) (liveTickSpacing f))) fs))) = List.map_filter (readV3 keccak node node2) cs" .
  have empty: "fs = [] \<Longrightarrow> List.map_filter (readV3 keccak node node2) cs = []"
    by (simp add: fs_def readV3_def[abs_def] flip: map_filter_map_option)
  show "uniswapPools keccak (\<lambda>calls. Ok (map node calls)) (\<lambda>calls. Ok (map node2 calls)) u
           = Ok (List.map_filter (readV3 keccak node node2) cs)"
    using assms(1) found tcalls assembled empty
    by (simp add: uniswapPools_def Let_def map_filter_simps flip: fs_def)
  have "List.map_filter v2Live (zip ds (map (\<lambda>c. node \<lparr>callTarget = fst c, callData = Selector keccak ''getReserves()''\<rparr>) ds))
      = List.map_filter (readV2 keccak node) ds"
    by (induction ds) (simp_all add: map_filter_simps readV2_def split: option.split)
  then show "sushiswapPools keccak (\<lambda>calls. Ok (map node calls)) s = Ok (List.map_filter (readV2 keccak node) ds)"
    using assms(3) by (auto simp: sushiswapPools_def Let_def comp_def map_filter_simps)
qed

definition exampleTokens :: "token list" where
  "exampleTokens = [\<lparr>tokAddress = ''0x02'', tokSymbol = ''B'', tokDecimals = 18\<rparr>, \<lparr>tokAddress = ''0x01'', tokSymbol = ''A'', tokDecimals = 6\<rparr>]"

definition exampleAnswer :: "mcall \<Rightarrow> mresult" where
  "exampleAnswer c = \<lparr>resSuccess = True, resReturnData = concat (map encodeUint [1, 5, 0, 0, 0, 0, 0, 1])\<rparr>"

definition zeroAddress :: string where "zeroAddress = ''0x0000000000000000000000000000000000000000''"

lemma exampleAnswer_slot0: "decodeSlot0 (resReturnData (exampleAnswer c)) = Inr (1, 5)"
  by code_simp

lemma example_candidates:
  "v3candidates zeroKeccak (NewUniswapV3 exampleTokens [30])
     = Inr [\<lparr>canAddress = zeroAddress, canToken0 = exampleTokens ! 1, canToken1 = exampleTokens ! 0, canFeeBps = 30\<rparr>]"
  "v2Candidates zeroKeccak (pairsOf (sushiTokens (NewSushiswapV2 exampleTokens)))
     = Inr [(zeroAddress, exampleTokens ! 1, exampleTokens ! 0)]"
  by code_simp+

theorem sources_read_each_pool_witness:
  "uniswapPools zeroKeccak (\<lambda>calls. Ok (map exampleAnswer calls)) (\<lambda>calls. Ok (map exampleAnswer calls)) (NewUniswapV3 exampleTokens [30])
     = Ok (List.map_filter (readV3 zeroKeccak exampleAnswer exampleAnswer)
         [\<lparr>canAddress = zeroAddress, canToken0 = exampleTokens ! 1, canToken1 = exampleTokens ! 0, canFeeBps = 30\<rparr>])
   \<and> sushiswapPools zeroKeccak (\<lambda>calls. Ok (map exampleAnswer calls)) (NewSushiswapV2 exampleTokens)
     = Ok [sushiPool zeroAddress (exampleTokens ! 1) (exampleTokens ! 0) 1 5]"
proof -
  have "MinTick \<le> liveTick f \<and> liveTick f \<le> MaxTick" if "readLive zeroKeccak exampleAnswer c = Some f" for c f
    using that exampleAnswer_slot0 by (auto simp: readLive_def v3Live_def Let_def MinTick_def MaxTick_def split: if_splits)
  moreover have "readV2 zeroKeccak exampleAnswer (zeroAddress, exampleTokens ! 1, exampleTokens ! 0)
      = Some (sushiPool zeroAddress (exampleTokens ! 1) (exampleTokens ! 0) 1 5)"
    by code_simp
  ultimately show ?thesis
    using sources_read_each_pool[OF example_candidates(1) _ example_candidates(2), of exampleAnswer exampleAnswer]
    by (auto simp: map_filter_simps)
qed

end
