(* ===== verification/Indexer.thy ===== *)
theory Indexer
  imports Cache_Store Graph_Router Dex_Onchain
begin

section \<open>The indexer (\<^verbatim>\<open>internal/indexer/indexer.go\<close>)\<close>

text \<open>
  A refresh polls every source, merges the pools of those that answered, publishes a snapshot and saves
  the pools. The goroutines write to separate cells and are awaited, so what the loop sees is one answer
  per source in source order: \<open>polled\<close>, an error text or the pools. The times are arguments, the store is
  the one of \<open>Cache_Store\<close> over the client's state. Logging is left out. The interface \<^verbatim>\<open>dex.PoolSource\<close> is
  the locale \<open>pool_source\<close>, with the two on-chain sources as its instances.
\<close>

record status =
  sRefreshes :: int
  sPools :: nat
  sTokens :: nat
  sEdges :: nat
  sHealthySources :: nat
  sTotalSources :: nat
  sSourceNames :: "string list"
  sLastDuration :: int
  sLastDurationMs :: int
  sLastError :: string

record indexer =
  ixSources :: "string list"
  ixHolder :: holder
  ixStore :: poolStore
  ixInterval :: int
  ixStatus :: status
  ixLastErr :: "string option"

definition NewIndexer :: "string list \<Rightarrow> holder \<Rightarrow> poolStore option \<Rightarrow> int \<Rightarrow> indexer" where
  "NewIndexer sources h store interval =
     \<lparr>ixSources = sources, ixHolder = h, ixStore = (case store of None \<Rightarrow> NewNoopStore | Some s \<Rightarrow> s),
      ixInterval = (if interval \<le> 0 then 6 * 1000000000 else interval),
      ixStatus = \<lparr>sRefreshes = 0, sPools = 0, sTokens = 0, sEdges = 0, sHealthySources = 0,
                  sTotalSources = length sources, sSourceNames = sources, sLastDuration = 0, sLastDurationMs = 0,
                  sLastError = []\<rparr>,
      ixLastErr = None\<rparr>"

definition recordSuccess :: "snapshot \<Rightarrow> nat \<Rightarrow> string list \<Rightarrow> int \<Rightarrow> indexer \<Rightarrow> indexer" where
  "recordSuccess s healthy failed elapsed ix =
     (let st = ixStatus ix;
          st = st\<lparr>sRefreshes := sRefreshes st + 1, sPools := length (snapshotPools s), sTokens := TokenCount s,
                  sEdges := EdgeCount s, sHealthySources := healthy, sLastDuration := elapsed,
                  sLastDurationMs := elapsed sdiv 1000000\<rparr>
      in if failed = [] then ix\<lparr>ixLastErr := None, ixStatus := st\<lparr>sLastError := []\<rparr>\<rparr>
         else let e = joinStrings ''; '' failed
              in ix\<lparr>ixLastErr := Some e, ixStatus := st\<lparr>sLastError := e\<rparr>\<rparr>)"

definition recordFailure :: "string \<Rightarrow> nat \<Rightarrow> int \<Rightarrow> indexer \<Rightarrow> indexer" where
  "recordFailure err healthy elapsed ix =
     ix\<lparr>ixLastErr := Some err,
        ixStatus := (ixStatus ix)\<lparr>sLastError := err, sHealthySources := healthy, sLastDuration := elapsed,
                                  sLastDurationMs := elapsed sdiv 1000000\<rparr>\<rparr>"

fun mergeResults :: "(string \<times> (string + pool list)) list \<Rightarrow> pool list \<times> nat \<times> string list" where
  "mergeResults [] = ([], 0, [])"
| "mergeResults ((name, r) # rs) =
     (case mergeResults rs of (merged, healthy, failed) \<Rightarrow>
      case r of
        Inl err \<Rightarrow> (merged, healthy, (name @ '': '' @ err) # failed)
      | Inr pools \<Rightarrow> (pools @ merged, Suc healthy, failed))"

definition RefreshOnce :: "'st redisClient \<Rightarrow> int \<Rightarrow> (string + pool list) list \<Rightarrow> int \<Rightarrow> int \<Rightarrow> indexer \<times> 'st
                             \<Rightarrow> string option \<times> indexer \<times> 'st" where
  "RefreshOnce client start polled afterPoll now ixs =
     (case ixs of (ix, st) \<Rightarrow>
      if ixSources ix = [] then (Some ''indexer: no pool sources configured'', ix, st)
      else case mergeResults (zip (ixSources ix) polled) of (merged, healthy, failed) \<Rightarrow>
        let elapsed = afterPoll - start
        in if healthy = 0 then
             let err = ''indexer: all '' @ natString (length (ixSources ix)) @ '' sources failed: '' @ joinStrings ''; '' failed
             in (Some err, recordFailure err healthy elapsed ix, st)
           else
             let snap = BuildSnapshot merged now;
                 ix = ix\<lparr>ixHolder := holderSet (Some snap) (ixHolder ix)\<rparr>;
                 ix = recordSuccess snap healthy failed elapsed ix;
                 st = snd (SavePools client (ixStore ix) merged st)
             in (None, ix, st))"

definition WarmStart :: "'st redisClient \<Rightarrow> int \<Rightarrow> indexer \<times> 'st \<Rightarrow> store_error option \<times> indexer \<times> 'st" where
  "WarmStart client now ixs =
     (case ixs of (ix, st) \<Rightarrow>
      case LoadPools client (ixStore ix) st of
        Inl e \<Rightarrow> (Some e, ix, st)
      | Inr pools \<Rightarrow>
          if pools = [] then (None, ix, st)
          else (None, ix\<lparr>ixHolder := holderSet (Some (BuildSnapshot pools now)) (ixHolder ix)\<rparr>, st))"

definition LastError :: "indexer \<Rightarrow> string option" where "LastError ix = ixLastErr ix"

definition Status :: "indexer \<Rightarrow> status" where "Status ix = ixStatus ix"

definition Interval :: "indexer \<Rightarrow> int" where "Interval ix = ixInterval ix"

text \<open>The life of an indexer: a warm start or a refresh at any time, in any environment. \<^verbatim>\<open>Run\<close> is such a
  sequence of refreshes, one at once and one per tick.\<close>

inductive ix_step :: "'st redisClient \<Rightarrow> indexer \<times> 'st \<Rightarrow> indexer \<times> 'st \<Rightarrow> bool" for client where
  step_warm: "WarmStart client now (ix, st) = (e, ix', st') \<Longrightarrow> ix_step client (ix, st) (ix', st')"
| step_refresh: "length polled = length (ixSources ix) \<Longrightarrow>
    RefreshOnce client start polled afterPoll now (ix, st) = (e, ix', st') \<Longrightarrow> ix_step client (ix, st) (ix', st')"
| step_store: "ix_step client (ix, st) (ix, st')"

lemmas ix_step_cases = ix_step.cases

inductive_cases ix_stepE: "ix_step client ixs ixs'"

subsection \<open>One refresh\<close>

definition healthyPools :: "(string + pool list) list \<Rightarrow> pool list" where
  "healthyPools polled = concat (map (case_sum (\<lambda>_. []) id) polled)"

definition healthyCount :: "(string + pool list) list \<Rightarrow> nat" where
  "healthyCount polled = length (filter (case_sum (\<lambda>_. False) (\<lambda>_. True)) polled)"

lemma filter_not_Suc [simp]: "length (filter P xs) \<noteq> Suc (length xs)"
  by (metis length_filter_le not_less_eq_eq order_refl)

lemma mergeResults_merged:
  assumes "length names = length polled"
  shows "fst (mergeResults (zip names polled)) = healthyPools polled"
    "fst (snd (mergeResults (zip names polled))) = healthyCount polled"
    "snd (snd (mergeResults (zip names polled))) = [] \<longleftrightarrow> healthyCount polled = length polled"
  using assms
proof (induction names polled rule: list_induct2)
  case (Cons n names r polled)
  {
    case 1
    then show ?case using Cons by (simp add: healthyPools_def split: prod.split sum.split) (metis fst_conv)
  next
    case 2
    then show ?case using Cons by (simp add: healthyCount_def split: prod.split sum.split) (metis fst_conv snd_conv)
  next
    case 3
    then show ?case using Cons by (auto simp: healthyCount_def split: prod.split sum.split)
  }
qed (simp_all add: healthyPools_def healthyCount_def)

lemma healthyCount_0: "healthyCount polled = 0 \<longleftrightarrow> (\<forall>r \<in> set polled. \<exists>e. r = Inl e)"
  by (induction polled) (auto simp: healthyCount_def split: sum.split)

lemma joinStrings_Nil: "joinStrings sep xs = [] \<Longrightarrow> xs \<noteq> [] \<Longrightarrow> hd xs = []"
  by (induction sep xs rule: joinStrings.induct) auto

lemma mergeResults_failed_text: "x \<in> set (snd (snd (mergeResults rs))) \<Longrightarrow> x \<noteq> []"
  by (induction rs rule: mergeResults.induct) (auto split: prod.splits sum.splits)

lemma recordSuccess_fields [simp]:
  "ixHolder (recordSuccess s h f e ix) = ixHolder ix" "ixStore (recordSuccess s h f e ix) = ixStore ix"
  "ixSources (recordSuccess s h f e ix) = ixSources ix" "ixInterval (recordSuccess s h f e ix) = ixInterval ix"
  "sRefreshes (ixStatus (recordSuccess s h f e ix)) = sRefreshes (ixStatus ix) + 1"
  "sPools (ixStatus (recordSuccess s h f e ix)) = length (snPools s)"
  "sTokens (ixStatus (recordSuccess s h f e ix)) = length (snTokens s)"
  "sEdges (ixStatus (recordSuccess s h f e ix)) = snEdges s"
  "sHealthySources (ixStatus (recordSuccess s h f e ix)) = h"
  "sTotalSources (ixStatus (recordSuccess s h f e ix)) = sTotalSources (ixStatus ix)"
  "ixLastErr (recordSuccess s h f e ix) = (if f = [] then None else Some (joinStrings ''; '' f))"
  "sLastError (ixStatus (recordSuccess s h f e ix)) = (if f = [] then [] else joinStrings ''; '' f)"
  by (simp_all add: recordSuccess_def Let_def snapshotPools_def TokenCount_def EdgeCount_def)

lemma recordFailure_fields [simp]:
  "ixHolder (recordFailure err h e ix) = ixHolder ix" "ixStore (recordFailure err h e ix) = ixStore ix"
  "ixSources (recordFailure err h e ix) = ixSources ix" "ixInterval (recordFailure err h e ix) = ixInterval ix"
  "sRefreshes (ixStatus (recordFailure err h e ix)) = sRefreshes (ixStatus ix)"
  "sHealthySources (ixStatus (recordFailure err h e ix)) = h"
  "sTotalSources (ixStatus (recordFailure err h e ix)) = sTotalSources (ixStatus ix)"
  "ixLastErr (recordFailure err h e ix) = Some err"
  "sLastError (ixStatus (recordFailure err h e ix)) = err"
  by (simp_all add: recordFailure_def)

lemma RefreshOnce_success:
  assumes "RefreshOnce client start polled afterPoll now (ix, st) = (None, ix', st')" "length polled = length (ixSources ix)"
  shows "0 < healthyCount polled"
    and "\<exists>failed. (failed = [] \<longleftrightarrow> healthyCount polled = length polled) \<and> (\<forall>x \<in> set failed. x \<noteq> [])
           \<and> ix' = recordSuccess (BuildSnapshot (healthyPools polled) now) (healthyCount polled) failed (afterPoll - start)
               (ix\<lparr>ixHolder := holderSet (Some (BuildSnapshot (healthyPools polled) now)) (ixHolder ix)\<rparr>)"
    and "st' = snd (SavePools client (ixStore ix) (healthyPools polled) st)"
proof -
  obtain merged healthy failed where m: "mergeResults (zip (ixSources ix) polled) = (merged, healthy, failed)"
    using prod_cases3 by blast
  have eq: "merged = healthyPools polled" "healthy = healthyCount polled" "failed = [] \<longleftrightarrow> healthyCount polled = length polled"
    using mergeResults_merged[of "ixSources ix" polled] assms(2) m by simp_all
  have nonempty: "\<forall>x \<in> set failed. x \<noteq> []" using mergeResults_failed_text[of _ "zip (ixSources ix) polled"] m by simp
  show "0 < healthyCount polled" "st' = snd (SavePools client (ixStore ix) (healthyPools polled) st)"
    using assms(1) m eq by (auto simp: RefreshOnce_def Let_def split: if_splits)
  show "\<exists>failed. (failed = [] \<longleftrightarrow> healthyCount polled = length polled) \<and> (\<forall>x \<in> set failed. x \<noteq> [])
           \<and> ix' = recordSuccess (BuildSnapshot (healthyPools polled) now) (healthyCount polled) failed (afterPoll - start)
               (ix\<lparr>ixHolder := holderSet (Some (BuildSnapshot (healthyPools polled) now)) (ixHolder ix)\<rparr>)"
    using assms(1) m eq nonempty by (auto simp: RefreshOnce_def Let_def split: if_splits)
qed

lemma RefreshOnce_failure:
  assumes "RefreshOnce client start polled afterPoll now (ix, st) = (Some e, ix', st')" "length polled = length (ixSources ix)"
  shows "healthyCount polled = 0" "st' = st" "ixHolder ix' = ixHolder ix" "e \<noteq> []"
    and "ixSources ix \<noteq> [] \<Longrightarrow> ix' = recordFailure e 0 (afterPoll - start) ix" "ixSources ix = [] \<Longrightarrow> ix' = ix"
proof -
  obtain merged healthy failed where m: "mergeResults (zip (ixSources ix) polled) = (merged, healthy, failed)"
    using prod_cases3 by blast
  have eq: "healthy = healthyCount polled"
    using mergeResults_merged(2)[of "ixSources ix" polled] assms(2) m by simp
  show "healthyCount polled = 0"
    using assms m eq by (cases "ixSources ix = []") (auto simp: RefreshOnce_def Let_def healthyCount_def split: if_splits)
  show "st' = st" "ixHolder ix' = ixHolder ix" "e \<noteq> []" "ixSources ix = [] \<Longrightarrow> ix' = ix"
    "ixSources ix \<noteq> [] \<Longrightarrow> ix' = recordFailure e 0 (afterPoll - start) ix"
    using assms(1) m by (auto simp: RefreshOnce_def Let_def split: if_splits)
qed

subsection \<open>The interface of a source\<close>

text \<open>What the rest of the system relies on: a source hands out pools whose ticks carry their net liquidity
  and cache no price.\<close>

definition ticks_uncached :: "pool \<Rightarrow> bool" where
  "ticks_uncached p \<longleftrightarrow> list_all (\<lambda>t. SqrtRatioX96 t = None) (poolTicks p)"

locale pool_source =
  fixes poolsFrom :: "'env \<Rightarrow> ('e, pool list) outcome"
  assumes complete: "poolsFrom env = Ok ps \<Longrightarrow> list_all ticks_complete ps"
    and fresh: "poolsFrom env = Ok ps \<Longrightarrow> list_all ticks_uncached ps"
begin

lemma stored_exactly: "poolsFrom env = Ok ps \<Longrightarrow> map uncached ps = ps"
  using fresh[of env ps] by (intro map_idI) (auto simp: ticks_uncached_def list_all_iff intro: uncached_id)

lemma routes_safely:
  assumes "poolsFrom env = Ok ps" "list_all ticks_complete qs"
  shows "FindBestRoute (Some (BuildSnapshot (ps @ qs) builtAt)) tokenIn tokenOut amountIn maxHops \<noteq> Panic"
    "FindBestRoute (Some (BuildSnapshot (qs @ ps) builtAt)) tokenIn tokenOut amountIn maxHops \<noteq> Panic"
  using complete[OF assms(1)] assms(2)
  by (auto intro!: built.route_no_panic BuildSnapshot_ticks_complete)

end

lemma readTick_net: "readTick idx r = Some t \<Longrightarrow> LiquidityNet t \<noteq> None \<and> SqrtRatioX96 t = None"
  by (auto simp: readTick_def split: if_splits sum.splits)

lemma takeTicks_net:
  "t \<in> set (fst (takeTicks is rs)) \<Longrightarrow> LiquidityNet t \<noteq> None \<and> SqrtRatioX96 t = None"
proof (induction "is" rs rule: takeTicks.induct)
  case (3 idx "is" r rs)
  then show ?case using readTick_net[of idx r] by (fastforce split: prod.splits option.splits)
qed auto

lemma v3Assemble_ticks:
  "p \<in> set (v3Assemble fs rs) \<Longrightarrow> ticks_complete p \<and> ticks_uncached p"
proof (induction fs rs rule: v3Assemble.induct)
  case (2 f fs rs)
  obtain ticks rest where tr: "takeTicks (windowTicks (liveTick f) (liveTickSpacing f)) rs = (ticks, rest)" by fastforce
  have "ticks_complete (v3Pool f ticks) \<and> ticks_uncached (v3Pool f ticks)"
    using takeTicks_net[of _ "windowTicks (liveTick f) (liveTickSpacing f)" rs] tr
    by (auto simp: ticks_complete_def ticks_uncached_def v3Pool_def list_all_iff)
  then show ?case using 2 tr by auto
qed simp

interpretation uni: pool_source "\<lambda>env. uniswapPools (fst env) (fst (snd env)) (snd (snd env)) u" for u
  by unfold_locales
    (auto simp: uniswapPools_def Let_def list_all_iff dest: v3Assemble_ticks split: sum.splits if_splits outcome.splits)

lemma v2Live_pool: "v2Live x = Some p \<Longrightarrow> poolProtocol p = Dex_Pool.SushiswapV2 \<and> poolTicks p = []"
  by (auto simp: v2Live_def sushiPool_def split: prod.splits if_splits sum.splits)

interpretation sushi: pool_source "\<lambda>env. sushiswapPools (fst env) (snd env) s" for s
  by unfold_locales
    (auto simp: sushiswapPools_def Let_def list_all_iff set_map_filter_iff ticks_complete_def ticks_uncached_def
      dest!: v2Live_pool split: sum.splits if_splits outcome.splits)

text \<open>What a poll of a source leaves in its cell. A panic in a source ends the process; the function is only applied to
  sources that return.\<close>

definition pollResult :: "('e \<Rightarrow> string) \<Rightarrow> ('e, pool list) outcome \<Rightarrow> string + pool list" where
  "pollResult msg r = (case r of Ok ps \<Rightarrow> Inr ps | Err e \<Rightarrow> Inl (msg e) | Panic \<Rightarrow> Inl [])"

subsection \<open>Reachable states\<close>

definition published_ok :: "holder \<Rightarrow> bool" where
  "published_ok h \<longleftrightarrow> (\<forall>s. holderGet h = Some s \<longrightarrow> (\<exists>ps t. s = BuildSnapshot ps t))"

definition ix_inv :: "indexer \<Rightarrow> bool" where
  "ix_inv ix \<longleftrightarrow> published_ok (ixHolder ix) \<and> sTotalSources (ixStatus ix) = length (ixSources ix)
     \<and> sHealthySources (ixStatus ix) \<le> sTotalSources (ixStatus ix) \<and> 0 < ixInterval ix
     \<and> sLastError (ixStatus ix) = (case ixLastErr ix of None \<Rightarrow> [] | Some e \<Rightarrow> e) \<and> ixLastErr ix \<noteq> Some []"

lemma NewIndexer_inv: "published_ok h \<Longrightarrow> ix_inv (NewIndexer sources h store interval)"
  by (simp add: ix_inv_def NewIndexer_def)

lemma holderSet_simps [simp]:
  "holderGet (holderSet (Some s) h) = Some s" "published_ok (holderSet (Some (BuildSnapshot ps t)) h)"
  by (auto simp: holderGet_def holderSet_def published_ok_def)

lemma healthyCount_le: "healthyCount polled \<le> length polled"
  by (simp add: healthyCount_def)

lemma healthyCount_all: "healthyCount polled = length polled \<longleftrightarrow> (\<nexists>err. Inl err \<in> set polled)"
proof (induction polled)
  case (Cons r polled)
  then show ?case by (cases r) (auto simp: healthyCount_def)
qed (simp add: healthyCount_def)

lemma joinStrings_nonempty: "xs \<noteq> [] \<Longrightarrow> \<forall>x \<in> set xs. x \<noteq> [] \<Longrightarrow> joinStrings sep xs \<noteq> []"
  using joinStrings_Nil[of sep xs] by (cases xs) auto

text \<open>One step keeps the invariant, the configuration, and never empties the holder.\<close>

lemma ix_step_inv:
  assumes "ix_step client ixs ixs'" "ix_inv (fst ixs)"
  shows "ix_inv (fst ixs') \<and> ixSources (fst ixs') = ixSources (fst ixs) \<and> ixStore (fst ixs') = ixStore (fst ixs)
    \<and> sRefreshes (ixStatus (fst ixs)) \<le> sRefreshes (ixStatus (fst ixs'))
    \<and> (holderGet (ixHolder (fst ixs)) \<noteq> None \<longrightarrow> holderGet (ixHolder (fst ixs')) \<noteq> None)"
  using assms
proof (induction rule: ix_step.induct)
  case (step_warm now ix st e ix' st')
  then show ?case
    by (auto simp: WarmStart_def ix_inv_def split: sum.splits if_splits)
next
  case (step_refresh polled ix start afterPoll now st e ix' st')
  show ?case
  proof (cases e)
    case None
    from RefreshOnce_success(2)[OF step_refresh(2)[unfolded None] step_refresh(1)]
    obtain failed where failed: "\<forall>x \<in> set failed. x \<noteq> []"
      and ix': "ix' = recordSuccess (BuildSnapshot (healthyPools polled) now) (healthyCount polled) failed (afterPoll - start)
               (ix\<lparr>ixHolder := holderSet (Some (BuildSnapshot (healthyPools polled) now)) (ixHolder ix)\<rparr>)" by blast
    show ?thesis
      using step_refresh(1,3) healthyCount_le[of polled] joinStrings_nonempty[of failed "''; ''"] failed
      by (auto simp: ix' ix_inv_def)
  next
    case (Some err)
    note f = RefreshOnce_failure[OF step_refresh(2)[unfolded Some] step_refresh(1)]
    show ?thesis
      using step_refresh(3) f(4) by (cases "ixSources ix = []") (auto simp: f(5,6) ix_inv_def)
  qed
qed simp

definition ix_since :: "indexer \<times> 'st \<Rightarrow> indexer \<times> 'st \<Rightarrow> bool" where
  "ix_since s t \<longleftrightarrow> ixSources (fst t) = ixSources (fst s) \<and> sRefreshes (ixStatus (fst s)) \<le> sRefreshes (ixStatus (fst t))
     \<and> (holderGet (ixHolder (fst s)) \<noteq> None \<longrightarrow> holderGet (ixHolder (fst t)) \<noteq> None)"

definition ix_initial :: "indexer \<times> 'st \<Rightarrow> bool" where
  "ix_initial s \<longleftrightarrow> (\<exists>sources store interval. fst s = NewIndexer sources NewHolder store interval)"

lemma ix_initial_inv: "ix_initial s \<Longrightarrow> ix_inv (fst s)"
  unfolding ix_initial_def by (elim exE, simp) (rule NewIndexer_inv, simp add: published_ok_def holderGet_def NewHolder_def)

interpretation ixm: machine "ix_step client" "\<lambda>s. ix_inv (fst s)" ix_since ix_initial for client
  by unfold_locales (auto dest: ix_step_inv ix_initial_inv simp: ix_since_def)

subsection \<open>Properties\<close>

text \<open>C6. A refresh publishes what the healthy sources delivered, and only that: with at least one source
  answering, the new snapshot is built from the pools of exactly the sources that answered, in source order,
  the refresh counts as successful and a partial failure stays visible; with none answering, the snapshot
  being served and the store are left alone and the error is reported.\<close>

theorem RefreshOnce_outcome:
  assumes "RefreshOnce client start polled afterPoll now (ix, st) = (e, ix', st')" "length polled = length (ixSources ix)"
  shows "if \<exists>ps. Inr ps \<in> set polled
         then e = None \<and> holderGet (ixHolder ix') = Some (BuildSnapshot (healthyPools polled) now)
            \<and> sRefreshes (Status ix') = sRefreshes (Status ix) + 1 \<and> sHealthySources (Status ix') = healthyCount polled
            \<and> sPools (Status ix') = length (snapshotPools (BuildSnapshot (healthyPools polled) now))
            \<and> sEdges (Status ix') = 2 * sPools (Status ix')
            \<and> (LastError ix' = None \<longleftrightarrow> (\<nexists>err. Inl err \<in> set polled))
         else e \<noteq> None \<and> ixHolder ix' = ixHolder ix \<and> st' = st \<and> sRefreshes (Status ix') = sRefreshes (Status ix)
            \<and> (ixSources ix \<noteq> [] \<longrightarrow> LastError ix' = e \<and> sHealthySources (Status ix') = 0)"
proof (cases e)
  case None
  note s = RefreshOnce_success[OF assms(1)[unfolded None] assms(2)]
  from s(2) obtain failed where failed: "failed = [] \<longleftrightarrow> healthyCount polled = length polled"
    and ix': "ix' = recordSuccess (BuildSnapshot (healthyPools polled) now) (healthyCount polled) failed (afterPoll - start)
               (ix\<lparr>ixHolder := holderSet (Some (BuildSnapshot (healthyPools polled) now)) (ixHolder ix)\<rparr>)" by blast
  have some: "\<exists>ps. Inr ps \<in> set polled" using s(1) healthyCount_0[of polled] by (metis less_numeral_extra(3) sum.exhaust)
  have all: "healthyCount polled = length polled \<longleftrightarrow> (\<nexists>err. Inl err \<in> set polled)"
    by (rule healthyCount_all)
  have "snEdges (BuildSnapshot (healthyPools polled) now) = 2 * length (snPools (BuildSnapshot (healthyPools polled) now))"
    using BuildSnapshot_invariant[of "healthyPools polled" now] by (simp add: snapshot_wf_def count_ok_def)
  then show ?thesis using None some all failed by (simp add: ix' Status_def LastError_def snapshotPools_def)
next
  case (Some err)
  note f = RefreshOnce_failure[OF assms(1)[unfolded Some] assms(2)]
  have "\<nexists>ps. Inr ps \<in> set polled" using f(1) healthyCount_0[of polled] by auto
  then show ?thesis using Some f(2,3) by (cases "ixSources ix = []") (simp_all add: f(5,6) Status_def LastError_def)
qed


definition exampleIndexer :: indexer where
  "exampleIndexer = NewIndexer [''a'', ''b''] NewHolder (Some (RedisStore 60)) 0"

lemma exampleRefresh:
  obtains ix' st' where "RefreshOnce exampleRedis 0 [Inl ''down'', Inr [storedPool]] 3 7 (exampleIndexer, None) = (None, ix', st')"
    "ixSources ix' = [''a'', ''b'']"
proof -
  obtain ix' st' where "RefreshOnce exampleRedis 0 [Inl ''down'', Inr [storedPool]] 3 7 (exampleIndexer, None) = (None, ix', st')"
    "ixSources ix' = [''a'', ''b'']"
    by (simp add: RefreshOnce_def exampleIndexer_def NewIndexer_def Let_def)
  then show ?thesis by (rule that)
qed

theorem RefreshOnce_outcome_witness:
  "\<exists>ix' st'. RefreshOnce exampleRedis 0 [Inl ''down'', Inr [storedPool]] 3 7 (exampleIndexer, None) = (None, ix', st')
     \<and> holderGet (ixHolder ix') = Some (BuildSnapshot [storedPool] 7) \<and> sHealthySources (Status ix') = 1 \<and> LastError ix' \<noteq> None"
proof -
  obtain ix' st' where run: "RefreshOnce exampleRedis 0 [Inl ''down'', Inr [storedPool]] 3 7 (exampleIndexer, None) = (None, ix', st')"
    by (rule exampleRefresh)
  have "length [Inl ''down'', Inr [storedPool]] = length (ixSources exampleIndexer)" by (simp add: exampleIndexer_def NewIndexer_def)
  from RefreshOnce_outcome[OF run this] run show ?thesis by (auto simp: healthyPools_def healthyCount_def)
qed


text \<open>C17. A restarted instance serves the graph its predecessor served: after a refresh whose pools the Redis
  store acknowledged, the warm start of a new indexer on that store publishes the snapshot of exactly the same
  pools. The pools are those of sources (nothing cached, integers within their Go types).\<close>

theorem warm_restart:
  assumes "RefreshOnce client start polled afterPoll now (ix, st) = (None, ix', st')" "length polled = length (ixSources ix)"
    and "ixStore ix = RedisStore ttl" "fst (SavePools client (ixStore ix) (healthyPools polled) st) = Inr ()"
    and "\<And>blob ttl st st'. rcSet client poolsKey blob ttl st = (True, st') \<Longrightarrow> rcGet client poolsKey st' = RedisBlob blob"
    and "list_all pool_in_range (healthyPools polled)" "list_all ticks_uncached (healthyPools polled)" "healthyPools polled \<noteq> []"
  shows "\<exists>ix2. WarmStart client now2 (NewIndexer sources NewHolder (Some (RedisStore ttl)) interval, st') = (None, ix2, st')
    \<and> holderGet (ixHolder ix2) = Some (BuildSnapshot (healthyPools polled) now2)
    \<and> holderGet (ixHolder ix') = Some (BuildSnapshot (healthyPools polled) now)"
proof -
  note s = RefreshOnce_success[OF assms(1,2)]
  have "map uncached (healthyPools polled) = healthyPools polled"
    using assms(7) by (intro map_idI) (auto simp: ticks_uncached_def list_all_iff intro: uncached_id)
  moreover have "rcGet client poolsKey st' = RedisBlob (encodePools (healthyPools polled))"
    using s(3) assms(3,4,5) by (auto split: prod.splits if_splits)
  ultimately have "LoadPools client (RedisStore ttl) st' = Inr (healthyPools polled)"
    using decodePools_encodePools[OF assms(6)] by simp
  then show ?thesis
    using assms(8) s(2) by (auto simp: WarmStart_def NewIndexer_def)
qed

theorem warm_restart_witness:
  "\<exists>ix' st' ix2. RefreshOnce exampleRedis 0 [Inl ''down'', Inr [storedPool]] 3 7 (exampleIndexer, None) = (None, ix', st')
     \<and> WarmStart exampleRedis 9 (NewIndexer [''c''] NewHolder (Some (RedisStore 60)) 5, st') = (None, ix2, st')
     \<and> holderGet (ixHolder ix2) = Some (BuildSnapshot [storedPool] 9)"
proof -
  obtain ix' st' where run: "RefreshOnce exampleRedis 0 [Inl ''down'', Inr [storedPool]] 3 7 (exampleIndexer, None) = (None, ix', st')"
    by (rule exampleRefresh)
  have "healthyPools [Inl ''down'', Inr [storedPool]] = [storedPool]" by (simp add: healthyPools_def)
  moreover have "ixStore exampleIndexer = RedisStore 60" "length (ixSources exampleIndexer) = 2"
    by (simp_all add: exampleIndexer_def NewIndexer_def)
  moreover have "pool_in_range storedPool" "ticks_uncached storedPool"
    by (simp_all add: pool_in_range_def ticks_uncached_def storedPool_def)
  ultimately show ?thesis
    using warm_restart[OF run, of 60 9 "[''c'']" 5] run by (auto simp: exampleRedis_def)
qed

text \<open>C16. In live mode no quote can crash the service: after a refresh of the two on-chain sources, whatever the
  node answered, the published snapshot routes every request to a result or an error value.\<close>

theorem live_refresh_routes:
  assumes "uniswapPools keccak agg agg2 u \<noteq> Panic" "sushiswapPools keccak agg3 s \<noteq> Panic"
    and "RefreshOnce client start [pollResult msg (uniswapPools keccak agg agg2 u), pollResult msg (sushiswapPools keccak agg3 s)]
             afterPoll now (NewIndexer [''uniswap-v3'', ''sushiswap-v2''] h store interval, st) = (None, ix', st')"
  shows "\<exists>snap. holderGet (ixHolder ix') = Some snap \<and> FindBestRoute (Some snap) tokenIn tokenOut amountIn maxHops \<noteq> Panic"
proof -
  let ?u = "uniswapPools keccak agg agg2 u" and ?s = "sushiswapPools keccak agg3 s"
  let ?polled = "[pollResult msg ?u, pollResult msg ?s]"
  have "holderGet (ixHolder ix') = Some (BuildSnapshot (healthyPools ?polled) now)"
    using RefreshOnce_success(2)[OF assms(3)] by (auto simp: NewIndexer_def)
  moreover have "list_all ticks_complete (healthyPools ?polled)"
    using uni.complete[of "(keccak, agg, agg2)" u] sushi.complete[of "(keccak, agg3)" s]
    by (cases ?u; cases ?s) (auto simp: healthyPools_def pollResult_def)
  ultimately show ?thesis using built.route_no_panic[OF BuildSnapshot_ticks_complete] by blast
qed

theorem live_refresh_routes_witness:
  "\<exists>ix' st' snap. RefreshOnce exampleRedis 0
       [pollResult (\<lambda>_. ''no node'') (uniswapPools zeroKeccak (\<lambda>_. Err RequestError) (\<lambda>_. Err RequestError) (NewUniswapV3 exampleTokens [30])),
        pollResult (\<lambda>_. ''no node'') (sushiswapPools zeroKeccak (\<lambda>calls. Ok (map exampleAnswer calls)) (NewSushiswapV2 exampleTokens))]
       1 2 (NewIndexer [''uniswap-v3'', ''sushiswap-v2''] NewHolder None 0, None) = (None, ix', st')
     \<and> holderGet (ixHolder ix') = Some snap \<and> FindBestRoute (Some snap) ''0x01'' ''0x02'' (Some 3) 2 \<noteq> Panic"
proof -
  let ?u = "uniswapPools zeroKeccak (\<lambda>_. Err RequestError) (\<lambda>_. Err RequestError) (NewUniswapV3 exampleTokens [30])"
  let ?s = "sushiswapPools zeroKeccak (\<lambda>calls. Ok (map exampleAnswer calls)) (NewSushiswapV2 exampleTokens)"
  let ?polled = "[pollResult (\<lambda>_. ''no node'') ?u, pollResult (\<lambda>_. ''no node'') ?s]"
  have r: "?u = Err (OnCall RequestError)" "?s = Ok [sushiPool zeroAddress (exampleTokens ! 1) (exampleTokens ! 0) 1 5]" by code_simp+
  obtain ix' st' where run: "RefreshOnce exampleRedis 0 ?polled 1 2 (NewIndexer [''uniswap-v3'', ''sushiswap-v2''] NewHolder None 0, None)
      = (None, ix', st')"
    unfolding r by (simp add: RefreshOnce_def NewIndexer_def pollResult_def Let_def)
  show ?thesis using live_refresh_routes[OF _ _ run, of "''0x01''" "''0x02''" "Some 3" 2] run r by auto
qed

end
