(* ===== verification/Config.thy ===== *)
theory Config
  imports Go_Decimal Go_Float
begin

section \<open>Configuration (\<^verbatim>\<open>internal/config/config.go\<close>)\<close>

text \<open>
  \<open>Load\<close> reads the environment \<open>env\<close>, a partial map from variable names to their texts. Integers are
  parsed by \<open>parseInt64\<close>. The texts of floating-point numbers and durations are parsed by the standard
  library; the results \<open>pFloat\<close> and \<open>pDuration\<close> of that are a parameter, so that what is shown holds for
  every text. A duration is its nanosecond count.
\<close>

record config =
  cHTTPAddr :: string
  cRedisURL :: string
  cETHRPCURL :: string
  cRPCWorkers :: int
  cRPCRatePerSec :: gofloat
  cRPCBurst :: int
  cRefreshInterval :: int
  cMaxHops :: int
  cSimSeed :: int

datatype config_error = NotInteger string | NotNumber string | NotDuration string | OutOfRange string

record parsers =
  pFloat :: "string \<Rightarrow> gofloat option"
  pDuration :: "string \<Rightarrow> int option"

definition lookup :: "(string \<Rightarrow> string option) \<Rightarrow> string \<Rightarrow> string option" where
  "lookup env key =
     (case env key of
        None \<Rightarrow> None
      | Some v \<Rightarrow> let v = trimSpace v in if v = [] then None else Some v)"

definition envString :: "(string \<Rightarrow> string option) \<Rightarrow> string \<Rightarrow> string \<Rightarrow> string" where
  "envString env key def = (case lookup env key of Some v \<Rightarrow> v | None \<Rightarrow> def)"

definition envInt :: "(string \<Rightarrow> string option) \<Rightarrow> string \<Rightarrow> int \<Rightarrow> config_error + int" where
  "envInt env key def =
     (case lookup env key of
        None \<Rightarrow> Inr def
      | Some v \<Rightarrow> (case parseInt64 v of None \<Rightarrow> Inl (NotInteger key) | Some n \<Rightarrow> Inr n))"

definition envInt64 :: "(string \<Rightarrow> string option) \<Rightarrow> string \<Rightarrow> int \<Rightarrow> config_error + int" where
  "envInt64 env key def =
     (case lookup env key of
        None \<Rightarrow> Inr def
      | Some v \<Rightarrow> (case parseInt64 v of None \<Rightarrow> Inl (NotInteger key) | Some n \<Rightarrow> Inr n))"

definition envFloat :: "parsers \<Rightarrow> (string \<Rightarrow> string option) \<Rightarrow> string \<Rightarrow> gofloat \<Rightarrow> config_error + gofloat" where
  "envFloat ps env key def =
     (case lookup env key of
        None \<Rightarrow> Inr def
      | Some v \<Rightarrow> (case pFloat ps v of None \<Rightarrow> Inl (NotNumber key) | Some f \<Rightarrow> Inr f))"

definition envDuration :: "parsers \<Rightarrow> (string \<Rightarrow> string option) \<Rightarrow> string \<Rightarrow> int \<Rightarrow> config_error + int" where
  "envDuration ps env key def =
     (case lookup env key of
        None \<Rightarrow> Inr def
      | Some v \<Rightarrow> (case pDuration ps v of None \<Rightarrow> Inl (NotDuration key) | Some d \<Rightarrow> Inr d))"

definition LiveMode :: "config \<Rightarrow> bool" where
  "LiveMode c = (trimSpace (cETHRPCURL c) \<noteq> [])"

definition validate :: "config \<Rightarrow> config_error option" where
  "validate c =
     (if cRPCWorkers c < 1 then Some (OutOfRange ''RPC_WORKERS'')
      else if cRPCBurst c < 1 then Some (OutOfRange ''RPC_BURST'')
      else if nonPositive (cRPCRatePerSec c) then Some (OutOfRange ''RPC_RATE_PER_SEC'')
      else if cRefreshInterval c \<le> 0 then Some (OutOfRange ''REFRESH_INTERVAL'')
      else if cMaxHops c < 1 \<or> cMaxHops c > 6 then Some (OutOfRange ''MAX_HOPS'')
      else None)"

definition defaultConfig :: config where
  "defaultConfig = \<lparr>cHTTPAddr = '':8080'', cRedisURL = [], cETHRPCURL = [], cRPCWorkers = 16, cRPCRatePerSec = Fin 10,
     cRPCBurst = 20, cRefreshInterval = 6 * 1000000000, cMaxHops = 3, cSimSeed = 1337\<rparr>"

definition Load :: "parsers \<Rightarrow> (string \<Rightarrow> string option) \<Rightarrow> config_error + config" where
  "Load ps env =
     (let cfg = defaultConfig\<lparr>cHTTPAddr := envString env ''HTTP_ADDR'' '':8080'', cRedisURL := envString env ''REDIS_URL'' [],
                              cETHRPCURL := envString env ''ETH_RPC_URL'' []\<rparr>
      in case envInt env ''RPC_WORKERS'' (cRPCWorkers cfg) of Inl e \<Rightarrow> Inl e | Inr workers \<Rightarrow>
         case envInt env ''RPC_BURST'' (cRPCBurst cfg) of Inl e \<Rightarrow> Inl e | Inr burst \<Rightarrow>
         case envInt env ''MAX_HOPS'' (cMaxHops cfg) of Inl e \<Rightarrow> Inl e | Inr hops \<Rightarrow>
         case envFloat ps env ''RPC_RATE_PER_SEC'' (cRPCRatePerSec cfg) of Inl e \<Rightarrow> Inl e | Inr rate \<Rightarrow>
         case envDuration ps env ''REFRESH_INTERVAL'' (cRefreshInterval cfg) of Inl e \<Rightarrow> Inl e | Inr interval \<Rightarrow>
         case envInt64 env ''SIM_SEED'' (cSimSeed cfg) of Inl e \<Rightarrow> Inl e | Inr seed \<Rightarrow>
           let cfg = cfg\<lparr>cRPCWorkers := workers, cRPCBurst := burst, cMaxHops := hops, cRPCRatePerSec := rate,
                         cRefreshInterval := interval, cSimSeed := seed\<rparr>
           in case validate cfg of Some e \<Rightarrow> Inl e | None \<Rightarrow> Inr cfg)"

subsection \<open>Properties\<close>

text \<open>The value of a setting: the default when the variable is unset or blank, else its text parsed.\<close>

definition setting :: "(string \<Rightarrow> 'a option) \<Rightarrow> (string \<Rightarrow> string option) \<Rightarrow> string \<Rightarrow> 'a \<Rightarrow> 'a option" where
  "setting parse env key def = (case lookup env key of None \<Rightarrow> Some def | Some v \<Rightarrow> parse v)"

lemma env_setting:
  "envInt env key def = (case setting parseInt64 env key def of None \<Rightarrow> Inl (NotInteger key) | Some n \<Rightarrow> Inr n)"
  "envInt64 env key def = (case setting parseInt64 env key def of None \<Rightarrow> Inl (NotInteger key) | Some n \<Rightarrow> Inr n)"
  "envFloat ps env key f = (case setting (pFloat ps) env key f of None \<Rightarrow> Inl (NotNumber key) | Some n \<Rightarrow> Inr n)"
  "envDuration ps env key def = (case setting (pDuration ps) env key def of None \<Rightarrow> Inl (NotDuration key) | Some n \<Rightarrow> Inr n)"
  by (simp_all add: envInt_def envInt64_def envFloat_def envDuration_def setting_def split: option.split)

text \<open>C34. \<^verbatim>\<open>Load\<close> yields a configuration exactly when every setting parses and is in its range, and then with
  exactly those values; blank variables count as unset, and with nothing set at all the service starts, in
  simulated mode. The ranges are enforced, with one gap: \<^verbatim>\<open>RPC_RATE_PER_SEC=NaN\<close> passes, because every
  comparison with a NaN is false.\<close>

theorem Load_settings:
  "(Load ps env = Inr c \<longleftrightarrow>
      c = c\<lparr>cHTTPAddr := envString env ''HTTP_ADDR'' '':8080'', cRedisURL := envString env ''REDIS_URL'' [],
            cETHRPCURL := envString env ''ETH_RPC_URL'' []\<rparr>
      \<and> setting parseInt64 env ''RPC_WORKERS'' 16 = Some (cRPCWorkers c) \<and> 1 \<le> cRPCWorkers c
      \<and> setting parseInt64 env ''RPC_BURST'' 20 = Some (cRPCBurst c) \<and> 1 \<le> cRPCBurst c
      \<and> setting parseInt64 env ''MAX_HOPS'' 3 = Some (cMaxHops c) \<and> 1 \<le> cMaxHops c \<and> cMaxHops c \<le> 6
      \<and> setting (pFloat ps) env ''RPC_RATE_PER_SEC'' (Fin 10) = Some (cRPCRatePerSec c)
      \<and> ((\<exists>r > 0. cRPCRatePerSec c = Fin r) \<or> cRPCRatePerSec c = PosInf \<or> cRPCRatePerSec c = NaN)
      \<and> setting (pDuration ps) env ''REFRESH_INTERVAL'' 6000000000 = Some (cRefreshInterval c) \<and> 0 < cRefreshInterval c
      \<and> setting parseInt64 env ''SIM_SEED'' 1337 = Some (cSimSeed c))
   \<and> Load ps (\<lambda>_. None) = Inr defaultConfig \<and> \<not> LiveMode defaultConfig"
proof -
  have np: "\<not> nonPositive f \<longleftrightarrow> (\<exists>r > 0. f = Fin r) \<or> f = PosInf \<or> f = NaN" for f
    by (cases f) auto
  have "Load ps (\<lambda>_. None) = Inr defaultConfig"
    by (simp add: Load_def envString_def envInt_def envInt64_def envFloat_def envDuration_def lookup_def validate_def
        defaultConfig_def)
  moreover have "\<not> LiveMode defaultConfig" by (simp add: LiveMode_def defaultConfig_def trimSpace_def)
  moreover note np
  ultimately show ?thesis
    by (cases c) (auto simp: Load_def env_setting Let_def validate_def defaultConfig_def not_le
        split: option.splits if_splits)
qed

end
