(* ===== verification/Graph_Arbitrage.thy ===== *)
theory Graph_Arbitrage
  imports Graph_Router "HOL-Library.Product_Lexorder" "HOL-Library.List_Lexorder" "HOL-Library.Char_ord"
begin

section \<open>Arbitrage detection (\<^verbatim>\<open>internal/graph/arbitrage.go\<close>)\<close>

text \<open>
  \<open>FindArbitrage\<close> runs the router's relaxation from every probed token with \<open>closedLoops\<close> and reports
  the entries that came back to their start with a gain. A Go map is iterated in an unspecified
  order, so the probe is the list of its entries in whatever order the iteration takes; every theorem
  holds for each order. The result is \<open>None\<close> for a panic, \<open>Some None\<close> for the \<^verbatim>\<open>nil\<close> slice, and
  otherwise the slice. \<^verbatim>\<open>sort.Slice\<close> is given a strict order in which no two reported cycles are
  equal (their keys differ), so its result is the sorted list. Strings are compared bytewise.
\<close>

record cycle =
  cyTokens :: "string list"
  cySymbols :: "string list"
  cyPools :: "string list"
  cyAmountIn :: int
  cyAmountOut :: int
  cyProfitBps :: int

definition buildCycle :: "hop list \<Rightarrow> int \<Rightarrow> int \<Rightarrow> cycle" where
  "buildCycle hops amountIn amountOut =
     (let gain = go_div ((amountOut - amountIn) * bpsScale) amountIn
      in \<lparr>cyTokens = hopTokenIn (hd hops) # map hopTokenOut hops,
          cySymbols = hopTokenInSymbol (hd hops) # map hopTokenOutSymbol hops,
          cyPools = map hopPoolAddress hops,
          cyAmountIn = amountIn, cyAmountOut = amountOut,
          cyProfitBps = (if isInt64 gain then gain else maxInt64)\<rparr>)"

definition cycleKey :: "string list \<Rightarrow> string" where
  "cycleKey pools = joinStrings ''|'' (sort (map toLower pools))"

text \<open>The loop over the hop counts of one table; the state is \<^verbatim>\<open>found\<close> and \<^verbatim>\<open>seen\<close>.\<close>

definition collectCycle :: "snapshot \<Rightarrow> relaxTable \<Rightarrow> nat \<Rightarrow> int \<Rightarrow> cycle list \<times> string list \<Rightarrow> nat \<Rightarrow> cycle list \<times> string list" where
  "collectCycle s table src amount st k =
     (case st of (found, seen) \<Rightarrow>
      if \<not> rtSeen table ! k ! src then (found, seen)
      else
        let out = the (rtAmount table ! k ! src)
        in if out \<le> amount then (found, seen)
           else
             let hops = reconstruct s table src k;
                 c = buildCycle hops amount out;
                 key = cycleKey (cyPools c)
             in if key \<in> set seen then (found, seen)
                else (found @ [c], key # seen))"

definition probeToken :: "snapshot \<Rightarrow> nat \<Rightarrow> string \<times> int option \<Rightarrow> cycle list \<times> string list \<Rightarrow> (cycle list \<times> string list) option" where
  "probeToken s maxHops entry st =
     (case entry of (address, amount) \<Rightarrow>
      if \<not> isPositive amount then Some st
      else case tokenIndex s address of
        None \<Rightarrow> Some st
      | Some src \<Rightarrow>
          (case relax s src amount maxHops closedLoops of
             None \<Rightarrow> None
           | Some table \<Rightarrow> Some (foldl (collectCycle s table src (the amount)) st [2..<Suc maxHops])))"

definition FindArbitrage :: "snapshot option \<Rightarrow> (string \<times> int option) list \<Rightarrow> int \<Rightarrow> cycle list option option" where
  "FindArbitrage snap probe maxHops =
     (case snap of
        None \<Rightarrow> Some None
      | Some s \<Rightarrow>
          if probe = [] \<or> maxHops < 2 then Some (Some [])
          else case foldM (probeToken s (nat maxHops)) probe ([], []) of
                 None \<Rightarrow> None
               | Some (found, seen) \<Rightarrow>
                   Some (Some (sort_key (\<lambda>c. (- cyProfitBps c, cycleKey (cyPools c))) found)))"

subsection \<open>Every reported cycle is real\<close>

text \<open>\<open>c\<close> is the loop along the edges \<open>es\<close> from \<open>src\<close>, executed with \<open>a\<close>.\<close>

definition cycle_along :: "snapshot \<Rightarrow> nat \<Rightarrow> nat \<Rightarrow> int \<Rightarrow> edgeRef list \<Rightarrow> cycle \<Rightarrow> bool" where
  "cycle_along s R src a es c \<longleftrightarrow> 0 < a \<and> src < length (snTokens s) \<and> 2 \<le> length es \<and> length es \<le> R \<and> walk s src es src
     \<and> (\<exists>out. runPath (edgeQuote s) es a = Some out \<and> a < out \<and> c = buildCycle (hopsOf s es a) a out)"

definition found_ok :: "snapshot \<Rightarrow> nat \<Rightarrow> (string \<times> int option) list \<Rightarrow> cycle list \<times> string list \<Rightarrow> bool" where
  "found_ok s R probe st \<longleftrightarrow>
     (case st of (found, seen) \<Rightarrow>
        (\<forall>c \<in> set found. \<exists>address a src es. (address, Some a) \<in> set probe \<and> tokenIndex s address = Some src
            \<and> cycle_along s R src a es c)
        \<and> distinct (map (cycleKey \<circ> cyPools) found) \<and> set seen = (cycleKey \<circ> cyPools) ` set found)"

context routable
begin

lemma table_cycle:
  assumes t: "table_ok s src closedLoops (Some a) R t" and "0 < a" "src < length (snTokens s)"
    and k: "2 \<le> k" "k \<le> R" "rtSeen t ! k ! src" and gain: "a < the (rtAmount t ! k ! src)"
  shows "cycle_along s R src a (pathEdges t k src)
      (buildCycle (reconstruct s t src k) a (the (rtAmount t ! k ! src)))"
  using table_path[OF edges t k(2) assms(3) k(3)] reconstruct_hopsOf[OF edges t k(2) assms(3) k(3)] assms
  by (auto simp: cycle_along_def)

lemma collect_ok:
  assumes t: "table_ok s src closedLoops (Some a) R t" and "0 < a" "tokenIndex s address = Some src"
    and "(address, Some a) \<in> set probe" and k: "2 \<le> k" "k \<le> R" and st: "found_ok s R probe st"
  shows "found_ok s R probe (collectCycle s t src a st k)"
proof -
  obtain found seen where f: "st = (found, seen)" by (cases st)
  let ?out = "the (rtAmount t ! k ! src)"
  let ?c = "buildCycle (reconstruct s t src k) a ?out"
  show ?thesis
  proof (cases "\<not> rtSeen t ! k ! src \<or> ?out \<le> a \<or> cycleKey (cyPools ?c) \<in> set seen")
    case True
    then have "collectCycle s t src a st k = st" by (auto simp: collectCycle_def f Let_def)
    then show ?thesis using st by simp
  next
    case False
    then have "cycle_along s R src a (pathEdges t k src) ?c"
      using table_cycle[OF t assms(2) index[OF assms(3)] k] by simp
    then show ?thesis using False st assms(3,4) by (fastforce simp: collectCycle_def f Let_def found_ok_def)
  qed
qed

lemma probe_ok:
  assumes "probeToken s R entry st = Some st'" "entry \<in> set probe" "found_ok s R probe st"
  shows "found_ok s R probe st'"
proof -
  obtain address amount where e: "entry = (address, amount)" by (cases entry)
  show ?thesis
  proof (cases "isPositive amount \<and> tokenIndex s address \<noteq> None")
    case False
    then have "st' = st" using assms(1) e by (auto simp: probeToken_def split: if_splits option.splits)
    then show ?thesis using assms(3) by simp
  next
    case True
    then obtain a src where a: "amount = Some a" "0 < a" "tokenIndex s address = Some src"
      by (cases amount) (auto simp: isPositive_def)
    then obtain t where t: "relax s src (Some a) R closedLoops = Some t"
      and st': "st' = foldl (collectCycle s t src a) st [2..<Suc R]"
      using assms(1) True e by (auto simp: probeToken_def split: if_splits option.splits)
    show ?thesis unfolding st'
      by (rule foldl_invariant[where I = "found_ok s R probe"])
        (use assms(2,3) e a collect_ok[OF relax_table[OF t index[OF a(3)]] a(2,3)] in auto)
  qed
qed

lemma arbitrage_found:
  assumes "FindArbitrage (Some s) probe maxHops = Some (Some cs)"
  obtains found seen where "found_ok s (nat maxHops) probe (found, seen)"
    "cs = sort_key (\<lambda>c. (- cyProfitBps c, cycleKey (cyPools c))) found"
proof (cases "probe = [] \<or> maxHops < 2")
  case True
  then have "cs = []" using assms by (simp add: FindArbitrage_def)
  then show thesis using that[of "[]" "[]"] by (simp add: found_ok_def)
next
  case False
  then obtain found seen where run: "foldM (probeToken s (nat maxHops)) probe ([], []) = Some (found, seen)"
    "cs = sort_key (\<lambda>c. (- cyProfitBps c, cycleKey (cyPools c))) found"
    using assms by (auto simp: FindArbitrage_def split: option.splits)
  have "found_ok s (nat maxHops) probe (found, seen)"
    by (rule foldM_invariant[OF run(1)]) (auto simp: found_ok_def[of s _ probe "([], [])"] intro: probe_ok)
  then show thesis using that run(2) by blast
qed

lemma loop2_found:
  assumes t: "table_ok s src closedLoops (Some a) R t" and w: "walk s src [e, f] src" "eTo e \<noteq> src" "2 \<le> R"
    and v2: "poolProtocol (snPools s ! ePool f) = SushiswapV2" and run: "runPath (edgeQuote s) [e, f] a = Some v"
  shows "rtSeen t ! 2 ! src \<and> v \<le> the (rtAmount t ! 2 ! src)"
proof -
  have e: "src < length (snTokens s)" "e \<in> set (snAdj s ! src)" "eTo e < length (snTokens s)" "f \<in> set (snAdj s ! eTo e)" "eTo f = src"
    using w by auto
  obtain u where u: "edgeQuote s e a = Some u" "edgeQuote s f u = Some v" using run by (auto split: option.splits)
  have "rtSeen t ! 0 ! src" "rtAmount t ! 0 ! src = Some a" using t e by (auto simp: table_ok_def)
  then have one: "rtSeen t ! Suc 0 ! eTo e \<and> u \<le> the (rtAmount t ! Suc 0 ! eTo e)"
    using extend[OF t _ e(1,2) _ _ u(1)] w(2,3) by (simp add: mayVisit_def)
  obtain y where y: "rtAmount t ! Suc 0 ! eTo e = Some y"
    using table_path[OF edges t _ e(3), of "Suc 0"] one w(3) by auto
  obtain z where z: "edgeQuote s f y = Some z" "v \<le> z" using v2market.quote_mono[OF v2 u(2), of y] one y by auto
  have "rtSeen t ! Suc (Suc 0) ! eTo f \<and> z \<le> the (rtAmount t ! Suc (Suc 0) ! eTo f)"
    using extend[OF t _ e(3,4) _ y z(1)] one w(3) e(5) by (simp add: mayVisit_def)
  then show ?thesis using z(2) e(5) by (simp add: numeral_2_eq_2)
qed

lemma collect_nonempty: "fst st \<noteq> [] \<Longrightarrow> fst (collectCycle s t src a st k) \<noteq> []"
  by (cases st) (auto simp: collectCycle_def Let_def)

lemma collect_gain:
  assumes "rtSeen t ! k ! src" "a < the (rtAmount t ! k ! src)" "found_ok s R probe st"
  shows "fst (collectCycle s t src a st k) \<noteq> []"
  using assms by (cases st) (auto simp: collectCycle_def Let_def found_ok_def)

lemma collects_nonempty: "fst st \<noteq> [] \<Longrightarrow> fst (foldl (collectCycle s t src a) st ks) \<noteq> []"
  by (induction ks arbitrary: st) (simp_all add: collect_nonempty)

lemma probe_nonempty: "probeToken s R entry st = Some st' \<Longrightarrow> fst st \<noteq> [] \<Longrightarrow> fst st' \<noteq> []"
  using collects_nonempty[of st]
  by (auto simp: probeToken_def simp del: upt_Suc split_paired_All split: prod.splits if_splits option.splits)

lemma probe_gain:
  assumes run: "probeToken s R (address, Some a) st = Some st'" and ok: "found_ok s R probe st"
    and a: "0 < a" "tokenIndex s address = Some src" and w: "walk s src [e, f] src" "eTo e \<noteq> src" "2 \<le> R"
    and v2: "poolProtocol (snPools s ! ePool f) = SushiswapV2" and v: "runPath (edgeQuote s) [e, f] a = Some v" "a < v"
  shows "fst st' \<noteq> []"
proof -
  obtain t where t: "relax s src (Some a) R closedLoops = Some t"
    and st': "st' = foldl (collectCycle s t src a) st [2..<Suc R]"
    using run a by (auto simp: probeToken_def isPositive_def split: option.splits)
  have "rtSeen t ! 2 ! src" "a < the (rtAmount t ! 2 ! src)"
    using loop2_found[OF relax_table[OF t index[OF a(2)]] w v2 v(1)] v(2) by auto
  then have "fst (collectCycle s t src a st 2) \<noteq> []" using collect_gain ok by blast
  moreover have "[2..<Suc R] = 2 # [3..<Suc R]" using w(3) by (simp add: upt_rec[of 2])
  ultimately show ?thesis
    unfolding st' by (simp add: collects_nonempty del: upt_Suc)
qed

lemma probe_no_panic: "list_all ticks_complete (snPools s) \<Longrightarrow> probeToken s R entry st \<noteq> None"
  by (auto simp: probeToken_def relax_refines relaxP_no_panic[OF _ edges] split: prod.split option.split)

lemma probe_fold_no_panic:
  "list_all ticks_complete (snPools s) \<Longrightarrow> foldM (probeToken s R) es st \<noteq> None"
  by (induction es arbitrary: st) (auto simp: probe_no_panic simp del: not_None_eq split: option.split)

lemma probe_fold_gain:
  assumes "list_all ticks_complete (snPools s)" and "(address, Some a) \<in> set probe"
    and "0 < a" "tokenIndex s address = Some src" "walk s src [e, f] src" "eTo e \<noteq> src" "2 \<le> R"
    and "poolProtocol (snPools s ! ePool f) = SushiswapV2" "runPath (edgeQuote s) [e, f] a = Some v" "a < v"
    and run: "foldM (probeToken s R) probe ([], []) = Some (found, seen)"
  shows "found \<noteq> []"
proof -
  obtain ps qs where sp: "probe = ps @ (address, Some a) # qs" using assms(2) by (meson split_list)
  obtain st where st: "foldM (probeToken s R) ps ([], []) = Some st"
    using probe_fold_no_panic[OF assms(1)] by blast
  obtain st' where st': "probeToken s R (address, Some a) st = Some st'"
    using probe_no_panic[OF assms(1)] by blast
  have rest: "foldM (probeToken s R) qs st' = Some (found, seen)" using run st st' by (simp add: sp foldM_append)
  have "found_ok s R probe st"
    by (rule foldM_invariant[OF st]) (auto simp: found_ok_def[of s _ _ "([], [])"] sp intro: probe_ok)
  from probe_gain[OF st' this assms(3-10)] have "fst st' \<noteq> []" .
  then have "fst (found, seen) \<noteq> []" by (rule foldM_invariant[OF rest, where I = "\<lambda>st. fst st \<noteq> []"]) (rule probe_nonempty)
  then show ?thesis by simp
qed

lemma hop_first: "walk s src es b \<Longrightarrow> es \<noteq> [] \<Longrightarrow> hopTokenIn (hd (hopsOf s es a)) = tokAddress (snTokens s ! src)"
  using edges by (cases es) (auto simp: edges_ok_def edge_ok_def Let_def hopAt_def)

lemma hop_outs: "map hopTokenOut (hopsOf s es a) = map (\<lambda>e. tokAddress (snTokens s ! eTo e)) es"
  by (induction es arbitrary: a) (auto simp: Let_def hopAt_def)

lemma walk_last: "walk s src es b \<Longrightarrow> es \<noteq> [] \<Longrightarrow> eTo (last es) = b"
  by (induction es arbitrary: src) auto

lemma cycle_closed:
  assumes "cycle_along s R src a es c"
  shows "hd (cyTokens c) = tokAddress (snTokens s ! src) \<and> last (cyTokens c) = tokAddress (snTokens s ! src)
    \<and> length (cyPools c) = length es \<and> cyAmountIn c = a \<and> a < cyAmountOut c \<and> 0 \<le> cyProfitBps c"
proof -
  obtain out where c: "runPath (edgeQuote s) es a = Some out" "a < out" "c = buildCycle (hopsOf s es a) a out"
    and w: "walk s src es src" "2 \<le> length es" "0 < a"
    using assms by (auto simp: cycle_along_def)
  have ne: "es \<noteq> []" using w(2) by auto
  have "length (hopsOf s es a) = length es" using arg_cong[OF hop_outs[of es a], of length] by simp
  moreover have "0 \<le> (out - a) * 10000 div a" using c(2) w(3) by (simp add: pos_imp_zdiv_nonneg_iff)
  ultimately show ?thesis
    using hop_first[OF w(1) ne, of a] hop_outs[of es a] walk_last[OF w(1) ne] ne w(3) c(2)
    by (auto simp: c(3) buildCycle_def Let_def bpsScale_def go_arith maxInt64_def last_map)
qed

end

subsection \<open>Properties\<close>

text \<open>C9. Every cycle \<^verbatim>\<open>FindArbitrage\<close> reports is real: for one of the probed tokens and its probe size
  there is a closed walk of the graph, of at least two and at most \<^verbatim>\<open>maxHops\<close> edges, whose fresh
  quotes, each fed with the output of the one before, return more than was put in; the reported
  tokens start and end at that token, and the reported profit is not negative.\<close>

theorem FindArbitrage_sound:
  assumes "FindArbitrage (Some (BuildSnapshot pools builtAt)) probe maxHops = Some (Some cs)" "c \<in> set cs"
  shows "\<exists>address a src es out. (address, Some a) \<in> set probe
    \<and> tokenIndex (BuildSnapshot pools builtAt) address = Some src
    \<and> walk (BuildSnapshot pools builtAt) src es src \<and> 2 \<le> length es \<and> int (length es) \<le> maxHops
    \<and> runPath (edgeQuote (BuildSnapshot pools builtAt)) es a = Some out \<and> 0 < a \<and> a < out
    \<and> c = buildCycle (hopsOf (BuildSnapshot pools builtAt) es a) a out
    \<and> hd (cyTokens c) = last (cyTokens c) \<and> length (cyPools c) = length es \<and> 0 \<le> cyProfitBps c"
proof -
  let ?s = "BuildSnapshot pools builtAt"
  obtain found seen where f: "found_ok ?s (nat maxHops) probe (found, seen)"
    "cs = sort_key (\<lambda>c. (- cyProfitBps c, cycleKey (cyPools c))) found"
    by (rule built.arbitrage_found[OF assms(1)])
  then obtain address a src es where c: "(address, Some a) \<in> set probe" "tokenIndex ?s address = Some src"
    "cycle_along ?s (nat maxHops) src a es c"
    using assms(2) by (fastforce simp: found_ok_def)
  have "2 \<le> length es" "length es \<le> nat maxHops" using c(3) by (auto simp: cycle_along_def)
  then have "int (length es) \<le> maxHops" by linarith
  moreover obtain out where "walk ?s src es src" "runPath (edgeQuote ?s) es a = Some out" "0 < a" "a < out"
    "c = buildCycle (hopsOf ?s es a) a out"
    using c(3) by (auto simp: cycle_along_def)
  moreover have "hd (cyTokens c) = last (cyTokens c)" "length (cyPools c) = length es" "0 \<le> cyProfitBps c"
    using built.cycle_closed[OF c(3)] by simp_all
  ultimately show ?thesis using c(1,2) \<open>2 \<le> length es\<close> by blast
qed

text \<open>The report is ordered and free of duplicates: profits do not increase along it, cycles of
  equal profit come in the order of their keys, and no two reported cycles use the same set of pools
  up to case and order.\<close>

theorem FindArbitrage_sorted:
  assumes "FindArbitrage (Some (BuildSnapshot pools builtAt)) probe maxHops = Some (Some cs)"
  shows "sorted_wrt (\<lambda>c d. cyProfitBps d < cyProfitBps c
      \<or> cyProfitBps c = cyProfitBps d \<and> cycleKey (cyPools c) < cycleKey (cyPools d)) cs
    \<and> distinct (map (\<lambda>c. cycleKey (cyPools c)) cs)"
proof -
  let ?key = "\<lambda>c. (- cyProfitBps c, cycleKey (cyPools c))"
  obtain found seen where f: "found_ok (BuildSnapshot pools builtAt) (nat maxHops) probe (found, seen)"
    "cs = sort_key ?key found" by (rule built.arbitrage_found[OF assms])
  have "distinct (map (\<lambda>c. cycleKey (cyPools c)) found)" using f(1) by (simp add: found_ok_def comp_def)
  then have d: "distinct (map (\<lambda>c. cycleKey (cyPools c)) cs)"
    unfolding f(2) by (simp add: distinct_map)
  have "sorted (map ?key cs)" unfolding f(2) by simp
  moreover have "distinct (map ?key cs)" using d by (auto simp: distinct_map inj_on_def)
  ultimately have "sorted_wrt (<) (map ?key cs)" by (simp add: strict_sorted_iff)
  then have "sorted_wrt (\<lambda>c d. ?key c < ?key d) cs" by (simp add: sorted_wrt_map)
  then show ?thesis using d by (auto elim!: sorted_wrt_mono_rel[rotated] simp: less_prod_def)
qed


definition arbPools :: "pool list" where
  "arbPools = [v2Pool ''p1'' ''S'' ''D'' 1000000 1000000, v2Pool ''p2'' ''D'' ''S'' 1000000 1100000]"

lemma arbPools_facts:
  "list_all ticks_complete arbPools" "tokenIndex (BuildSnapshot arbPools 0) ''s'' = Some 0"
  "walk (BuildSnapshot arbPools 0) 0 [\<lparr>ePool = 0, eFrom = 0, eTo = 1\<rparr>, \<lparr>ePool = 1, eFrom = 1, eTo = 0\<rparr>] 0"
  "poolProtocol (snPools (BuildSnapshot arbPools 0) ! 1) = SushiswapV2"
  "runPath (edgeQuote (BuildSnapshot arbPools 0))
     [\<lparr>ePool = 0, eFrom = 0, eTo = 1\<rparr>, \<lparr>ePool = 1, eFrom = 1, eTo = 0\<rparr>] 1000 = Some 1091"
  by code_simp+

lemma arbPools_report:
  "\<exists>c cs. FindArbitrage (Some (BuildSnapshot arbPools 0)) [(''s'', Some 1000), (''d'', None)] 2 = Some (Some (c # cs))"
proof -
  have "(case FindArbitrage (Some (BuildSnapshot arbPools 0)) [(''s'', Some 1000), (''d'', None)] 2 of
      Some (Some cs) \<Rightarrow> length cs | _ \<Rightarrow> 0) = 1" by code_simp
  then show ?thesis by (auto split: option.splits simp: length_Suc_conv)
qed

theorem FindArbitrage_sound_witness:
  "\<exists>c. hd (cyTokens c) = last (cyTokens c) \<and> length (cyPools c) \<ge> 2
     \<and> (\<exists>cs. FindArbitrage (Some (BuildSnapshot arbPools 0)) [(''s'', Some 1000), (''d'', None)] 2 = Some (Some (c # cs)))"
proof -
  obtain c cs where r: "FindArbitrage (Some (BuildSnapshot arbPools 0)) [(''s'', Some 1000), (''d'', None)] 2 = Some (Some (c # cs))"
    using arbPools_report by blast
  then show ?thesis using FindArbitrage_sound[OF r, of c] by auto
qed

theorem FindArbitrage_sorted_witness:
  "\<exists>cs. FindArbitrage (Some (BuildSnapshot arbPools 0)) [(''s'', Some 1000), (''d'', None)] 2 = Some (Some cs)
     \<and> distinct (map (\<lambda>c. cycleKey (cyPools c)) cs)"
  using FindArbitrage_sorted arbPools_report by blast


end
