(* ===== verification/Rpc_Breaker.thy ===== *)
theory Rpc_Breaker
  imports Prelude
begin

section \<open>The circuit breaker (\<^verbatim>\<open>internal/rpc/breaker.go\<close>)\<close>

text \<open>
  Every method runs under the breaker's mutex, so any interleaving of goroutines is a sequence of
  method calls; \<open>brun\<close> executes such a sequence and collects what \<open>Allow\<close> answered. The clock is read
  inside a method; its reading is an argument. Times and durations are nanosecond counts
  (\<^verbatim>\<open>Time.Sub\<close> saturates, which no comparison with a \<^verbatim>\<open>Duration\<close> can observe). \<^verbatim>\<open>State\<close> is a
  string type of which only the three named values are ever stored, so its \<^verbatim>\<open>default\<close> case has no
  counterpart. The consecutive-failure counter is a mathematical integer: it would need \<open>2 ^ 63\<close>
  calls to wrap.

  \<open>abreaker\<close> is the automaton the comments describe, and \<open>breaker_abs\<close> the refinement onto it.
\<close>

datatype brState = StateClosed | StateOpen | StateHalfOpen

record breaker =
  brThreshold :: int
  brCooldown :: int
  brSt :: brState
  brFailures :: int
  brOpenedAt :: int
  brProbeInFlig :: bool

definition newBreakerWithClock :: "int \<Rightarrow> int \<Rightarrow> breaker" where
  "newBreakerWithClock threshold cooldown =
     (let cooldown = (if cooldown \<le> 0 then 5 * 1000000000 else cooldown)
      in \<lparr>brThreshold = threshold, brCooldown = cooldown, brSt = StateClosed, brFailures = 0,
          brOpenedAt = 0, brProbeInFlig = False\<rparr>)"

definition NewBreaker :: "int \<Rightarrow> int \<Rightarrow> breaker" where
  "NewBreaker threshold cooldown = newBreakerWithClock threshold cooldown"

definition Allow :: "int \<Rightarrow> breaker \<Rightarrow> bool \<times> breaker" where
  "Allow now b =
     (if brThreshold b \<le> 0 then (True, b)
      else case brSt b of
        StateClosed \<Rightarrow> (True, b)
      | StateOpen \<Rightarrow>
          if now - brOpenedAt b < brCooldown b then (False, b)
          else (True, b\<lparr>brSt := StateHalfOpen, brProbeInFlig := True\<rparr>)
      | StateHalfOpen \<Rightarrow>
          if brProbeInFlig b then (False, b)
          else (True, b\<lparr>brProbeInFlig := True\<rparr>))"

definition Success :: "breaker \<Rightarrow> breaker" where
  "Success b =
     (if brThreshold b \<le> 0 then b
      else b\<lparr>brFailures := 0, brSt := StateClosed, brProbeInFlig := False\<rparr>)"

definition Failure :: "int \<Rightarrow> breaker \<Rightarrow> breaker" where
  "Failure now b =
     (if brThreshold b \<le> 0 then b
      else if brSt b = StateHalfOpen then
        b\<lparr>brSt := StateOpen, brOpenedAt := now, brProbeInFlig := False\<rparr>
      else
        let b = b\<lparr>brFailures := brFailures b + 1\<rparr>
        in if brFailures b \<ge> brThreshold b then
             b\<lparr>brSt := StateOpen, brOpenedAt := now, brProbeInFlig := False\<rparr>
           else b)"

definition State :: "breaker \<Rightarrow> brState" where
  "State b = (if brThreshold b \<le> 0 then StateClosed else brSt b)"

subsection \<open>Sequences of calls\<close>

datatype bop = OpAllow int | OpSuccess | OpFailure int

primrec bstep :: "bop \<Rightarrow> breaker \<Rightarrow> bool list \<times> breaker" where
  "bstep (OpAllow now) b = (case Allow now b of (r, b) \<Rightarrow> ([r], b))"
| "bstep OpSuccess b = ([], Success b)"
| "bstep (OpFailure now) b = ([], Failure now b)"

primrec brun :: "bop list \<Rightarrow> breaker \<Rightarrow> bool list \<times> breaker" where
  "brun [] b = ([], b)"
| "brun (op # ops) b = (case bstep op b of (rs, b) \<Rightarrow> case brun ops b of (rs', b) \<Rightarrow> (rs @ rs', b))"

lemma brun_append:
  "brun (xs @ ys) b = (fst (brun xs b) @ fst (brun ys (snd (brun xs b))), snd (brun ys (snd (brun xs b))))"
  by (induction xs arbitrary: b) (simp_all add: case_prod_beta)

subsection \<open>Invariant\<close>

definition breaker_inv :: "breaker \<Rightarrow> bool" where
  "breaker_inv b \<longleftrightarrow> 0 < brCooldown b \<and> 0 \<le> brFailures b
     \<and> (brProbeInFlig b \<longleftrightarrow> brSt b = StateHalfOpen)
     \<and> (brThreshold b \<le> 0 \<longrightarrow> brSt b = StateClosed)
     \<and> (0 < brThreshold b \<longrightarrow> (brSt b = StateClosed \<longleftrightarrow> brFailures b < brThreshold b))"

lemma newBreaker_inv: "breaker_inv (newBreakerWithClock threshold cooldown)"
  by (simp add: breaker_inv_def newBreakerWithClock_def Let_def)

lemma Allow_inv: "breaker_inv b \<Longrightarrow> breaker_inv (snd (Allow now b))"
  by (auto simp: breaker_inv_def Allow_def split: brState.splits)

lemma Success_inv: "breaker_inv b \<Longrightarrow> breaker_inv (Success b)"
  by (auto simp: breaker_inv_def Success_def)

lemma Success_closes: "State (Success b) = StateClosed" "fst (Allow now (Success b))"
  by (simp_all add: State_def Success_def Allow_def)

lemma Failure_inv: "breaker_inv b \<Longrightarrow> breaker_inv (Failure now b)"
  by (cases "brSt b") (auto simp: breaker_inv_def Failure_def Let_def)

lemma bstep_inv: "breaker_inv b \<Longrightarrow> breaker_inv (snd (bstep op b))"
  by (cases op) (simp_all add: case_prod_beta Allow_inv Success_inv Failure_inv)

lemma brun_inv: "breaker_inv b \<Longrightarrow> breaker_inv (snd (brun ops b))"
  by (induction ops arbitrary: b) (simp_all add: case_prod_beta bstep_inv)

lemma ops_config:
  "brThreshold (snd (Allow now b)) = brThreshold b" "brCooldown (snd (Allow now b)) = brCooldown b"
  "brThreshold (Success b) = brThreshold b" "brCooldown (Success b) = brCooldown b"
  "brThreshold (Failure now b) = brThreshold b" "brCooldown (Failure now b) = brCooldown b"
  by (auto simp: Allow_def Success_def Failure_def Let_def split: brState.splits)

lemma bstep_config: "brThreshold (snd (bstep op b)) = brThreshold b" "brCooldown (snd (bstep op b)) = brCooldown b"
  by (cases op; simp add: case_prod_beta ops_config)+

subsection \<open>The automaton\<close>

text \<open>Closed with the current run of failures, open since a time, or probing.\<close>

datatype abreaker = AClosed int | AOpen int | AProbing

definition aAllow :: "int \<Rightarrow> int \<Rightarrow> abreaker \<Rightarrow> bool \<times> abreaker" where
  "aAllow cooldown now a =
     (case a of
        AClosed n \<Rightarrow> (True, a)
      | AOpen t \<Rightarrow> if now < t + cooldown then (False, a) else (True, AProbing)
      | AProbing \<Rightarrow> (False, a))"

definition aFailure :: "int \<Rightarrow> int \<Rightarrow> abreaker \<Rightarrow> abreaker" where
  "aFailure threshold now a =
     (case a of AClosed n \<Rightarrow> if n + 1 < threshold then AClosed (n + 1) else AOpen now | _ \<Rightarrow> AOpen now)"

primrec astep :: "int \<Rightarrow> int \<Rightarrow> bop \<Rightarrow> abreaker \<Rightarrow> bool list \<times> abreaker" where
  "astep th cd (OpAllow now) a = (case aAllow cd now a of (r, a) \<Rightarrow> ([r], a))"
| "astep th cd OpSuccess a = ([], AClosed 0)"
| "astep th cd (OpFailure now) a = ([], aFailure th now a)"

primrec arun :: "int \<Rightarrow> int \<Rightarrow> bop list \<Rightarrow> abreaker \<Rightarrow> bool list \<times> abreaker" where
  "arun th cd [] a = ([], a)"
| "arun th cd (op # ops) a = (case astep th cd op a of (rs, a) \<Rightarrow> case arun th cd ops a of (rs', a) \<Rightarrow> (rs @ rs', a))"

definition breaker_abs :: "breaker \<Rightarrow> abreaker" where
  "breaker_abs b = (case brSt b of StateClosed \<Rightarrow> AClosed (brFailures b) | StateOpen \<Rightarrow> AOpen (brOpenedAt b)
                    | StateHalfOpen \<Rightarrow> AProbing)"

lemma Allow_abs:
  assumes "breaker_inv b" "0 < brThreshold b"
  shows "fst (Allow now b) = fst (aAllow (brCooldown b) now (breaker_abs b))"
    and "breaker_abs (snd (Allow now b)) = snd (aAllow (brCooldown b) now (breaker_abs b))"
  using assms by (cases "brSt b"; auto simp: Allow_def aAllow_def breaker_abs_def breaker_inv_def)+

lemma Success_abs: "0 < brThreshold b \<Longrightarrow> breaker_abs (Success b) = AClosed 0"
  by (simp add: Success_def breaker_abs_def)

lemma Failure_abs:
  assumes "breaker_inv b" "0 < brThreshold b"
  shows "breaker_abs (Failure now b) = aFailure (brThreshold b) now (breaker_abs b)"
  using assms by (cases "brSt b") (auto simp: Failure_def aFailure_def breaker_abs_def breaker_inv_def Let_def)

lemma bstep_abs:
  assumes "breaker_inv b" "0 < brThreshold b"
  shows "astep (brThreshold b) (brCooldown b) op (breaker_abs b) = (fst (bstep op b), breaker_abs (snd (bstep op b)))"
  using Allow_abs[OF assms] Success_abs[OF assms(2)] Failure_abs[OF assms]
  by (cases op) (simp_all add: case_prod_beta)

lemma brun_refines:
  assumes "breaker_inv b" "0 < brThreshold b"
  shows "arun (brThreshold b) (brCooldown b) ops (breaker_abs b) = (fst (brun ops b), breaker_abs (snd (brun ops b)))"
  using assms
proof (induction ops arbitrary: b)
  case (Cons op ops)
  have "arun (brThreshold b) (brCooldown b) ops (breaker_abs (snd (bstep op b)))
      = (fst (brun ops (snd (bstep op b))), breaker_abs (snd (brun ops (snd (bstep op b)))))"
    using Cons.IH[of "snd (bstep op b)"] Cons.prems bstep_inv[of b op] bstep_config[of op b] by simp
  then show ?case using bstep_abs[OF Cons.prems, of op] by (simp add: case_prod_beta)
qed simp

subsection \<open>The interface a caller relies on\<close>

text \<open>A guard answers whether a call may go ahead and is told how the call ended. Its laws: every
  operation keeps the invariant, a success makes the next call go ahead, and while the guard is
  blocked no time that passes before its release lets a call through.\<close>

locale call_guard =
  fixes allow :: "int \<Rightarrow> 'b \<Rightarrow> bool \<times> 'b"
    and success :: "'b \<Rightarrow> 'b"
    and failure :: "int \<Rightarrow> 'b \<Rightarrow> 'b"
    and inv :: "'b \<Rightarrow> bool"
    and blocked_until :: "'b \<Rightarrow> int option"
  assumes inv_allow: "inv b \<Longrightarrow> inv (snd (allow now b))"
    and inv_success: "inv b \<Longrightarrow> inv (success b)"
    and inv_failure: "inv b \<Longrightarrow> inv (failure now b)"
    and success_admits: "inv b \<Longrightarrow> fst (allow now (success b))"
    and blocked: "inv b \<Longrightarrow> blocked_until b = Some t \<Longrightarrow> now < t \<Longrightarrow> allow now b = (False, b)"
begin

lemma blocked_run:
  assumes "inv b" "blocked_until b = Some t" "\<forall>now \<in> set nows. now < t"
  shows "foldl (\<lambda>(rs, b) now. let (r, b') = allow now b in (rs @ [r], b')) (rs, b) nows
           = (rs @ replicate (length nows) False, b)"
  using assms(3)
proof (induction nows arbitrary: rs)
  case (Cons now nows)
  then show ?case using blocked[OF assms(1,2), of now] by simp
qed simp

end

definition openUntil :: "breaker \<Rightarrow> int option" where
  "openUntil b = (if 0 < brThreshold b \<and> brSt b = StateOpen then Some (brOpenedAt b + brCooldown b) else None)"

interpretation cb: call_guard Allow Success Failure breaker_inv openUntil
proof unfold_locales
  fix b :: breaker and now t :: int
  assume inv: "breaker_inv b"
  show "breaker_inv (snd (Allow now b))" "breaker_inv (Success b)" "breaker_inv (Failure now b)"
    using inv by (simp_all add: Allow_inv Success_inv Failure_inv)
  show "fst (Allow now (Success b))" by (simp add: Allow_def Success_def)
  show "Allow now b = (False, b)" if "openUntil b = Some t" "now < t"
    using that by (auto simp: openUntil_def Allow_def split: if_splits)
qed

subsection \<open>Properties\<close>

text \<open>C7. The breaker is the documented automaton: for every sequence of calls on a new breaker with a
  positive threshold, in any interleaving and at any times, \<^verbatim>\<open>Allow\<close> answers as the automaton does,
  and the states correspond. In particular the branch of \<^verbatim>\<open>Allow\<close> that admits a call in the
  half-open state is never taken: exactly one probe is out.\<close>

theorem breaker_refines_automaton:
  assumes "0 < threshold"
  shows "let b = NewBreaker threshold cooldown; cd = brCooldown b
         in fst (brun ops b) = fst (arun threshold cd ops (AClosed 0))
            \<and> breaker_abs (snd (brun ops b)) = snd (arun threshold cd ops (AClosed 0))"
proof -
  have "brThreshold (NewBreaker threshold cooldown) = threshold"
    "breaker_abs (NewBreaker threshold cooldown) = AClosed 0"
    by (simp_all add: NewBreaker_def newBreakerWithClock_def breaker_abs_def Let_def)
  then show ?thesis
    using brun_refines[of "NewBreaker threshold cooldown" ops] assms newBreaker_inv[of threshold cooldown]
    by (simp add: NewBreaker_def)
qed

theorem breaker_refines_automaton_witness:
  "fst (brun [OpFailure 1, OpFailure 2, OpAllow 3, OpAllow 12, OpAllow 13, OpSuccess, OpAllow 14] (NewBreaker 2 10))
     = [False, True, False, True]"
  using breaker_refines_automaton[of 2 10 "[OpFailure 1, OpFailure 2, OpAllow 3, OpAllow 12, OpAllow 13, OpSuccess, OpAllow 14]"]
  by (simp add: Let_def NewBreaker_def newBreakerWithClock_def aAllow_def aFailure_def)

text \<open>The invariant of the breaker, over all call sequences: a probe is in flight exactly in the
  half-open state; with a positive threshold the breaker is closed exactly while fewer than
  \<^verbatim>\<open>threshold\<close> consecutive failures have been counted; a disabled breaker never leaves the closed
  state.\<close>

theorem breaker_reachable_inv: "breaker_inv (snd (brun ops (NewBreaker threshold cooldown)))"
  unfolding NewBreaker_def by (rule brun_inv[OF newBreaker_inv])

text \<open>A tripped breaker sheds load and then admits a single probe: from an open breaker that any
  sequence of calls has led to, every \<^verbatim>\<open>Allow\<close> before the end of the cooldown is refused and changes
  nothing; the first one after it is admitted, and every one that follows is refused until the probe
  reports, at whatever times they come.\<close>

theorem breaker_single_probe:
  assumes "b = snd (brun ops (NewBreaker threshold cooldown))" "State b = StateOpen"
    and "\<forall>t \<in> set early. t < brOpenedAt b + brCooldown b" "brOpenedAt b + brCooldown b \<le> now"
  shows "fst (brun (map OpAllow early @ OpAllow now # map OpAllow late) b)
           = replicate (length early) False @ True # replicate (length late) False
    \<and> State (snd (brun (map OpAllow early @ OpAllow now # map OpAllow late) b)) = StateHalfOpen"
proof -
  have inv: "breaker_inv b" unfolding assms(1) NewBreaker_def by (rule brun_inv[OF newBreaker_inv])
  have th: "0 < brThreshold b" "brSt b = StateOpen" using assms(2) by (auto simp: State_def split: if_splits)
  have early: "brun (map OpAllow early) b = (replicate (length early) False, b)"
    using assms(3) th cb.blocked[OF inv, of "brOpenedAt b + brCooldown b"]
    by (induction early) (simp_all add: openUntil_def)
  let ?h = "b\<lparr>brSt := StateHalfOpen, brProbeInFlig := True\<rparr>"
  have probe: "Allow now b = (True, ?h)" using th assms(4) by (simp add: Allow_def)
  have late: "brun (map OpAllow late) ?h = (replicate (length late) False, ?h)"
    using th by (induction late) (simp_all add: Allow_def)
  show ?thesis using th by (simp add: brun_append early probe late State_def)
qed

theorem breaker_single_probe_witness:
  "fst (brun (map OpAllow [3, 5] @ OpAllow 12 # map OpAllow [12, 99]) (snd (brun [OpFailure 1, OpFailure 2] (NewBreaker 2 10))))
     = [False, False, True, False, False]"
  using breaker_single_probe[of _ "[OpFailure 1, OpFailure 2]" 2 10 "[3, 5]" 12 "[12, 99]", OF refl]
  by (simp add: NewBreaker_def newBreakerWithClock_def Failure_def State_def Let_def)

end
