(* ===== verification/Rpc_Limiter.thy ===== *)
theory Rpc_Limiter
  imports Go_Float
begin

section \<open>The rate limiter (\<^verbatim>\<open>internal/rpc/limiter.go\<close>)\<close>

text \<open>
  A token bucket over \<^verbatim>\<open>float64\<close>. Instants and durations are nanosecond counts; the clock's readings are
  arguments. The mutex makes \<open>reserve\<close> atomic, so that concurrent callers are a sequence of its calls.
  \<open>Wait\<close> runs in an environment that says, for each turn of its loop, what the context and the clock
  answered; when the environment ends it is still waiting.
\<close>

record limiter =
  liRatePerSec :: gofloat
  liBurst :: gofloat
  liTokens :: gofloat
  liLast :: int

definition newLimiterWithClock :: "gofloat \<Rightarrow> int \<Rightarrow> int \<Rightarrow> limiter" where
  "newLimiterWithClock ratePerSec burst now =
     (let ratePerSec = (if nonPositive ratePerSec then Fin 1 else ratePerSec);
          burst = (if burst < 1 then 1 else burst)
      in \<lparr>liRatePerSec = ratePerSec, liBurst = floatOfInt burst, liTokens = floatOfInt burst, liLast = now\<rparr>)"

definition NewLimiter :: "gofloat \<Rightarrow> int \<Rightarrow> int \<Rightarrow> limiter" where
  "NewLimiter ratePerSec burst now = newLimiterWithClock ratePerSec burst now"

definition accrue :: "int \<Rightarrow> limiter \<Rightarrow> limiter" where
  "accrue now l =
     (let elapsed = now - liLast l
      in if elapsed > 0 then
           let tokens = liTokens l + durationSeconds elapsed * liRatePerSec l;
               tokens = (if tokens > liBurst l then liBurst l else tokens)
           in l\<lparr>liTokens := tokens, liLast := now\<rparr>
         else l)"

definition reserve :: "(gofloat \<Rightarrow> int) \<Rightarrow> int \<Rightarrow> limiter \<Rightarrow> (int \<times> bool) \<times> limiter" where
  "reserve conv now l =
     (let l = accrue now l
      in if liTokens l \<ge> 1 then ((0, True), l\<lparr>liTokens := liTokens l - 1\<rparr>)
         else
           let needed = 1 - liTokens l;
               wait = floatToInt isInt64 conv (needed / liRatePerSec l * Fin 1000000000);
               wait = (if wait < 1000000 then 1000000 else wait)
           in ((wait, False), l))"

datatype ctxErr = Canceled | DeadlineExceeded

datatype wait_error = ContextErr ctxErr | WaitExceedsDeadline int

text \<open>Callers in some order: how many of the calls of \<open>reserve\<close> were admitted.\<close>

fun reserves :: "(gofloat \<Rightarrow> int) \<Rightarrow> int list \<Rightarrow> limiter \<Rightarrow> nat \<times> limiter" where
  "reserves conv [] l = (0, l)"
| "reserves conv (now # ts) l =
     (case reserve conv now l of ((_, ok), l) \<Rightarrow>
      case reserves conv ts l of (k, l) \<Rightarrow> ((if ok then 1 else 0) + k, l))"

text \<open>One turn of the loop of \<open>Wait\<close>: \<^verbatim>\<open>ctx.Err\<close> at its start, the clock readings of the other callers that
  reserve before this one does, the clock in \<open>reserve\<close>, the clock at the deadline test, and the error of the
  context if it ends before the timer fires.\<close>

record waitTurn =
  wtErr :: "ctxErr option"
  wtOthers :: "int list"
  wtNow :: int
  wtCheck :: int
  wtDone :: "ctxErr option"

fun Wait :: "(gofloat \<Rightarrow> int) \<Rightarrow> int option \<Rightarrow> waitTurn list \<Rightarrow> limiter \<Rightarrow> (wait_error + unit) option \<times> limiter" where
  "Wait conv deadline [] l = (None, l)"
| "Wait conv deadline (e # es) l =
     (case wtErr e of
        Some err \<Rightarrow> (Some (Inl (ContextErr err)), l)
      | None \<Rightarrow>
          (case reserve conv (wtNow e) (snd (reserves conv (wtOthers e) l)) of ((delay, ok), l) \<Rightarrow>
           if ok then (Some (Inr ()), l)
           else if (case deadline of None \<Rightarrow> False | Some d \<Rightarrow> wtCheck e + delay > d)
             then (Some (Inl (WaitExceedsDeadline delay)), l)
           else case wtDone e of
                  Some err \<Rightarrow> (Some (Inl (ContextErr err)), l)
                | None \<Rightarrow> Wait conv deadline es l))"

subsection \<open>What one call may add\<close>

text \<open>Relative errors of nested roundings.\<close>

lemma relative_le:
  assumes "\<bar>y - x\<bar> \<le> x * ulp" "x \<le> z * (1 + ulp) ^ k"
  shows "y \<le> z * (1 + ulp) ^ Suc k"
proof -
  have "y \<le> x * (1 + ulp)" using abs_le_D1[OF assms(1)] by (simp add: algebra_simps)
  also have "\<dots> \<le> z * (1 + ulp) ^ k * (1 + ulp)" using assms(2) ulp_small(1) by (intro mult_right_mono) simp_all
  finally show ?thesis by (simp add: mult_ac)
qed

lemma normal_range:
  assumes "1 / 2 ^ 1000 \<le> x" "x \<le> 2 ^ 1000"
  shows "minNormal \<le> x" "x \<le> 2 ^ 1023"
proof -
  have "minNormal \<le> 1 / 2 ^ 1000" unfolding minNormal_def by (intro divide_left_mono power_increasing mult_pos_pos) simp_all
  then show "minNormal \<le> x" using assms(1) by (rule order_trans)
  have "(2 :: rat) ^ 1000 \<le> 2 ^ 1023" by (intro power_increasing) simp_all
  with assms(2) show "x \<le> 2 ^ 1023" by (rule order_trans)
qed

lemma relative_ge:
  assumes "\<bar>y - x\<bar> \<le> x * ulp" "0 \<le> x"
  shows "x / 2 \<le> y"
proof -
  have "x * ulp \<le> x * (1 / 8)" using assms(2) ulp_small(2) by (rule mult_left_mono[rotated])
  then show ?thesis using abs_le_D2[OF assms(1)] assms(2) by linarith
qed

text \<open>Powers of two far inside the range, for the numbers at hand.\<close>

lemma pow2_bounds: "1 / (2 :: rat) ^ 1000 \<le> 1 / 2 ^ 40" "(2 :: rat) ^ 40 \<le> 2 ^ 1000"
proof -
  show "(2 :: rat) ^ 40 \<le> 2 ^ 1000" by (intro power_increasing) simp_all
  then show "1 / (2 :: rat) ^ 1000 \<le> 1 / 2 ^ 40" by (intro divide_left_mono mult_pos_pos) simp_all
qed

lemma durationSeconds_bounds:
  assumes "0 < d" "d < 2 ^ 63"
  obtains s where "durationSeconds d = Fin s" "of_int d / 1000000000 / 4 \<le> s" "s \<le> of_int d / 1000000000 * (1 + ulp) ^ 2"
proof -
  define q m where "q = d div 1000000000" and "m = d mod 1000000000"
  define a b :: rat where "a = of_int q" and "b = of_int m / 1000000000"
  have qm: "0 \<le> q" "q < 2 ^ 34" "0 \<le> m" "m < 1000000000" "d = 1000000000 * q + m" using assms by (auto simp: q_def m_def)
  have sum: "a + b = of_int d / 1000000000" by (simp add: a_def b_def qm(5) add_divide_distrib)
  have le: "rat_of_int x \<le> of_int y" if "x \<le> y" for x y using that by simp
  have ab: "0 \<le> a" "a \<le> 2 ^ 34" "0 \<le> b" "b \<le> 1"
    using qm le[of q "2 ^ 34"] le[of m 1000000000] by (simp_all add: a_def b_def)
  have part: "m = 0 \<or> 1 / 1000000000 \<le> b" using qm(3) le[of 1 m] by (auto simp: b_def)
  have whole: "1 / 1000000000 \<le> a + b" using assms(1) le[of 1 d] unfolding sum by simp
  have parts: "d sdiv 1000000000 = q" "d smod 1000000000 = m"
    using assms(1) by (simp_all add: q_def m_def signed_divide_int_def signed_modulo_int_def minus_div_mult_eq_mod)
  have "q < 2 ^ 53" "m < 2 ^ 53" using qm by simp_all
  then have exact: "floatOfInt (d sdiv 1000000000) = Fin a" "floatOfInt (d smod 1000000000) = Fin (of_int m)"
    unfolding parts a_def using qm(1,3) by (simp_all only: floatOfInt_exact)
  obtain f where f: "roundFloat b = Fin f" "b / 2 \<le> f" "f \<le> b * (1 + ulp) ^ 1"
  proof (cases "m = 0")
    case True
    then show thesis using that[of 0] by (simp add: b_def roundFloat_def)
  next
    case False
    then have "1 / 2 ^ 40 \<le> b" "b \<le> 2 ^ 40" using ab(4) part by simp_all
    then have "1 / 2 ^ 1000 \<le> b" "b \<le> 2 ^ 1000" using pow2_bounds by (metis order_trans)+
    from roundFloat_normal[OF normal_range[OF this]] obtain y where "roundFloat b = Fin y" "\<bar>y - b\<bar> \<le> b * ulp" by blast
    then show thesis using that[of y] relative_le[of y b b 0] relative_ge[of y b] ab(3) by simp
  qed
  have "a + f \<le> a * (1 + ulp) ^ 1 + b * (1 + ulp) ^ 1" using f(3) mult_nonneg_nonneg[OF less_imp_le[OF ulp_small(1)] ab(1)] by (simp add: algebra_simps)
  then have hi: "a + f \<le> (a + b) * (1 + ulp) ^ 1" by (simp add: algebra_simps)
  have lo: "(a + b) / 2 \<le> a + f" using f(2) ab(1) by simp
  have "1 / 2 ^ 40 \<le> a + f" using lo whole by simp
  moreover have "b * (1 + ulp) ^ 1 \<le> 1 * (1 + 1) ^ 1" using ab(3,4) ulp_small by (intro mult_mono) auto
  then have "a + f \<le> 2 ^ 40" using f(3) ab(2) by simp
  ultimately have "1 / 2 ^ 1000 \<le> a + f" "a + f \<le> 2 ^ 1000" using pow2_bounds by (metis order_trans)+
  from roundFloat_normal[OF normal_range[OF this]] obtain s where s: "roundFloat (a + f) = Fin s" "\<bar>s - (a + f)\<bar> \<le> (a + f) * ulp" by blast
  have "durationSeconds d = Fin s" unfolding durationSeconds_def exact using f(1) s(1) by (simp add: b_def)
  moreover have "s \<le> (a + b) * (1 + ulp) ^ 2" using relative_le[OF s(2) hi] by (simp add: numeral_2_eq_2)
  moreover have "0 \<le> a + f" using f(2) ab(1,3) by simp
  from relative_ge[OF s(2) this] have "(a + b) / 4 \<le> s" using lo unfolding add_divide_distrib by linarith
  ultimately show thesis using that sum by simp
qed

text \<open>The state of a bucket of rate \<open>r\<close> and size \<open>b\<close>; the bounds keep every intermediate result in the range of
  \<^verbatim>\<open>float64\<close>.\<close>

definition bucket :: "rat \<Rightarrow> rat \<Rightarrow> rat \<Rightarrow> limiter \<Rightarrow> bool" where
  "bucket r b t l \<longleftrightarrow> liRatePerSec l = Fin r \<and> liBurst l = Fin b \<and> liTokens l = Fin t \<and> 0 \<le> t \<and> t \<le> b"

definition in_scale :: "rat \<Rightarrow> rat \<Rightarrow> bool" where
  "in_scale r b \<longleftrightarrow> 1 / 2 ^ 900 \<le> r \<and> r \<le> 2 ^ 900 \<and> 1 \<le> b \<and> b \<le> 2 ^ 52"

lemma ulp_burst:
  assumes "in_scale r b"
  shows "tiny \<le> ulp * b" "2 * (ulp * b) \<le> 1" "0 < ulp * b"
proof -
  have b: "1 \<le> b" "b \<le> 2 ^ 52" using assms by (simp_all add: in_scale_def)
  have "ulp * 1 \<le> ulp * b" using b(1) ulp_small(1) by (intro mult_left_mono) simp_all
  then show "tiny \<le> ulp * b" "0 < ulp * b" using ulp_small by linarith+
  have "ulp * b \<le> ulp * 2 ^ 52" using b(2) ulp_small(1) by (intro mult_left_mono) simp_all
  then show "2 * (ulp * b) \<le> 1" by (simp add: ulp_def)
qed

lemma accrual_bounds:
  assumes "in_scale r b" "0 < d" "d < 2 ^ 63"
  obtains a where "fmul (durationSeconds d) (Fin r) = Fin a" "0 \<le> a" "a \<le> of_int d / 1000000000 * r * (1 + ulp) ^ 3" "a \<le> 2 ^ 1000"
proof -
  obtain s where s: "durationSeconds d = Fin s" "of_int d / 1000000000 / 4 \<le> s" "s \<le> of_int d / 1000000000 * (1 + ulp) ^ 2"
    using durationSeconds_bounds[OF assms(2,3)] .
  have r: "1 / 2 ^ 900 \<le> r" "r \<le> 2 ^ 900" using assms(1) by (simp_all add: in_scale_def)
  have r0: "0 \<le> r" using r(1) by (rule order_trans[rotated]) simp
  have d: "1 \<le> rat_of_int d" "rat_of_int d \<le> 2 ^ 63"
    using assms(2,3) of_int_le_iff[of 1 d, where ?'a = rat] of_int_le_iff[of d "2 ^ 63", where ?'a = rat] by simp_all
  have "1 / 2 ^ 40 \<le> s" using s(2) d(1) by simp
  moreover have "s \<le> 2 ^ 40"
  proof -
    have "(1 + ulp) ^ 2 \<le> 2 ^ 2" using ulp_small by (intro power_mono) auto
    then have "of_int d / 1000000000 * (1 + ulp) ^ 2 \<le> 2 ^ 63 / 1000000000 * 2 ^ 2" using d ulp_small(1) by (intro mult_mono divide_right_mono) simp_all
    then show ?thesis using s(3) by simp
  qed
  ultimately have sr: "1 / 2 ^ 40 * (1 / 2 ^ 900) \<le> s * r" "s * r \<le> 2 ^ 40 * 2 ^ 900"
    using r r0 by (intro mult_mono; simp)+
  have "1 / 2 ^ 1000 \<le> s * r" "s * r \<le> 2 ^ 940"
  proof -
    have "(1 :: rat) / 2 ^ 1000 \<le> 1 / 2 ^ (40 + 900)" by (intro divide_left_mono power_increasing mult_pos_pos) simp_all
    also have "\<dots> = 1 / 2 ^ 40 * (1 / 2 ^ 900)" by (simp only: power_add) (simp only: times_divide_times_eq mult_1)
    finally show "1 / 2 ^ 1000 \<le> s * r" using sr(1) by (rule order_trans)
    show "s * r \<le> 2 ^ 940" using sr(2) by (simp only: power_add[symmetric]) simp
  qed
  moreover have "(2 :: rat) ^ 940 \<le> 2 ^ 1000" by (intro power_increasing) simp_all
  ultimately have range: "minNormal \<le> s * r" "s * r \<le> 2 ^ 1023" using normal_range[of "s * r"] by (meson order_trans)+
  obtain a where a: "roundFloat (s * r) = Fin a" "0 < a" "\<bar>a - s * r\<bar> \<le> s * r * ulp" using roundFloat_normal[OF range] .
  have "s * r \<le> of_int d / 1000000000 * r * (1 + ulp) ^ 2" using mult_right_mono[OF s(3) r0] by (simp add: mult_ac)
  from relative_le[OF a(3) this] have "a \<le> of_int d / 1000000000 * r * (1 + ulp) ^ 3" by (simp add: numeral_eq_Suc)
  moreover have "a \<le> 2 ^ 1000"
  proof -
    have "a \<le> 2 ^ 940 * (1 + ulp) ^ Suc 0" using a(3) \<open>s * r \<le> 2 ^ 940\<close> by (intro relative_le) simp_all
    also have "\<dots> \<le> 2 ^ 940 * 2 ^ 1" using ulp_small by (intro mult_left_mono) simp_all
    also have "\<dots> \<le> 2 ^ 1000" by (simp only: power_add[symmetric]) (intro power_increasing; simp)
    finally show ?thesis .
  qed
  ultimately show thesis using that s(1) a(1,2) by simp
qed

text \<open>One call: what it admits and keeps is at most what was there, what has accrued, and a rounding error.\<close>

lemma accrue_step:
  assumes "bucket r b t l" "in_scale r b" "now - liLast l < 2 ^ 63"
  obtains t' where "bucket r b t' (accrue now l)" "liLast (accrue now l) = max (liLast l) now"
    "t' \<le> t + of_int (max (liLast l) now - liLast l) / 1000000000 * r * (1 + ulp) ^ 3 + 3 * (ulp * b)"
proof (cases "now - liLast l > 0")
  case False
  then show thesis using that[of t] assms(1) ulp_burst[OF assms(2)] by (auto simp: accrue_def Let_def max_def)
next
  case True
  have l: "liRatePerSec l = Fin r" "liBurst l = Fin b" "liTokens l = Fin t" "0 \<le> t" "t \<le> b" using assms(1) by (simp_all add: bucket_def)
  have b: "1 \<le> b" "b \<le> 2 ^ 52" using assms(2) by (simp_all add: in_scale_def)
  obtain a where a: "fmul (durationSeconds (now - liLast l)) (Fin r) = Fin a" "0 \<le> a" "a \<le> 2 ^ 1000"
    "a \<le> of_int (now - liLast l) / 1000000000 * r * (1 + ulp) ^ 3"
    using accrual_bounds[OF assms(2) True assms(3)] by blast
  have "(2 :: rat) ^ 52 + 2 ^ 1000 \<le> 2 ^ 1000 + 2 ^ 1000" by (intro add_mono power_increasing) simp_all
  also have "(2 :: rat) ^ 1000 + 2 ^ 1000 = 2 ^ 1001" by (simp only: power_Suc mult_2 numeral_eq_Suc(1) flip: power_Suc) simp
  also have "(2 :: rat) ^ 1001 \<le> 2 ^ 1023" by (intro power_increasing) simp_all
  finally have "t + a \<le> 2 ^ 1023" using l(5) b(2) a(3) by (meson add_mono order_trans)
  then obtain y where y: "roundFloat (t + a) = Fin y" "0 \<le> y" "\<bar>y - (t + a)\<bar> \<le> (t + a) * ulp + tiny"
    using roundFloat_error[of "t + a"] l(4) a(2) by (metis add_nonneg_nonneg)
  define t' where "t' = (if b < y then b else y)"
  have "accrue now l = l\<lparr>liTokens := Fin t', liLast := now\<rparr>" using True a(1) y(1) l by (simp add: accrue_def Let_def t'_def)
  moreover have "t' \<le> t + a + 3 * (ulp * b)"
  proof (rule ccontr)
    assume "\<not> ?thesis"
    then have lt: "t + a + 3 * (ulp * b) < y" "t + a + 3 * (ulp * b) < b" by (auto simp: t'_def split: if_splits)
    then have "t + a \<le> b" using ulp_burst(3)[OF assms(2)] by linarith
    then have "(t + a) * ulp \<le> ulp * b" using ulp_small(1) by (simp add: mult.commute)
    then show False using lt(1) abs_le_D1[OF y(3)] ulp_burst[OF assms(2)] by linarith
  qed
  ultimately show thesis using that[of t'] l True y(2) b a(4) by (simp add: bucket_def t'_def max_def)
qed

lemma reserve_step:
  assumes "bucket r b t l" "in_scale r b" "now - liLast l < 2 ^ 63" "reserve conv now l = ((wait, ok), l')"
  obtains t' where "bucket r b t' l'" "liLast l' = max (liLast l) now"
    "(if ok then 1 else 0) + t' \<le> t + of_int (max (liLast l) now - liLast l) / 1000000000 * r * (1 + ulp) ^ 3 + 5 * (ulp * b)"
proof -
  obtain t1 where t1: "bucket r b t1 (accrue now l)" "liLast (accrue now l) = max (liLast l) now"
    "t1 \<le> t + of_int (max (liLast l) now - liLast l) / 1000000000 * r * (1 + ulp) ^ 3 + 3 * (ulp * b)"
    using accrue_step[OF assms(1,2,3)] .
  have tok: "liTokens (accrue now l) = Fin t1" "0 \<le> t1" "t1 \<le> b" using t1(1) by (simp_all add: bucket_def)
  show thesis
  proof (cases "1 \<le> t1")
    case False
    then have "l' = accrue now l" "\<not> ok" using assms(4) tok(1) by (simp_all add: reserve_def Let_def)
    then show thesis using that[of t1] t1 ulp_burst(3)[OF assms(2)] by simp
  next
    case True
    have "(2 :: rat) ^ 52 \<le> 2 ^ 1023" by (intro power_increasing) simp_all
    moreover have "t1 - 1 \<le> 2 ^ 52" using assms(2) tok(3) by (simp add: in_scale_def)
    ultimately have "t1 - 1 \<le> 2 ^ 1023" by (rule order_trans[rotated])
    then obtain y where y: "roundFloat (t1 - 1) = Fin y" "0 \<le> y" "\<bar>y - (t1 - 1)\<bar> \<le> (t1 - 1) * ulp + tiny"
      using roundFloat_error[of "t1 - 1"] True by (metis diff_ge_0_iff_ge)
    have "(t1 - 1) * ulp \<le> ulp * b" using tok(3) ulp_small(1) by (simp add: mult.commute)
    then have hi: "y \<le> t1 - 1 + 2 * (ulp * b)" using abs_le_D1[OF y(3)] ulp_burst(1)[OF assms(2)] by linarith
    have "l' = (accrue now l)\<lparr>liTokens := Fin y\<rparr>" "ok" using assms(4) tok(1) True y(1) by (auto simp: reserve_def Let_def fsub_def)
    moreover have "y \<le> b" using hi tok(3) ulp_burst(2)[OF assms(2)] by linarith
    ultimately show thesis using that[of y] t1 hi y(2) by (simp add: bucket_def)
  qed
qed

lemma reserves_quota:
  assumes "bucket r b t l" "in_scale r b" "list_all (\<lambda>now. now - liLast l < 2 ^ 63) ts" "reserves conv ts l = (k, l')"
  shows "\<exists>t'. bucket r b t' l' \<and> liLast l \<le> liLast l' \<and>
    of_nat k + t' \<le> t + of_int (liLast l' - liLast l) / 1000000000 * r * (1 + ulp) ^ 3 + of_nat (length ts) * (5 * (ulp * b))"
  using assms(1,3,4)
proof (induction ts arbitrary: l t k)
  case (Cons now ts)
  obtain wait ok l1 where r1: "reserve conv now l = ((wait, ok), l1)" by (metis surj_pair)
  obtain k1 where r2: "reserves conv ts l1 = (k1, l')" "k = (if ok then 1 else 0) + k1"
    using Cons.prems(3) r1 by (auto split: prod.splits)
  define m where "m = max (liLast l) now"
  have "now - liLast l < 2 ^ 63" using Cons.prems(2) by simp
  from reserve_step[OF Cons.prems(1) assms(2) this r1] obtain t1 where t1: "bucket r b t1 l1" "liLast l1 = m"
    "(if ok then 1 else 0) + t1 \<le> t + of_int (m - liLast l) / 1000000000 * r * (1 + ulp) ^ 3 + 5 * (ulp * b)"
    unfolding m_def by blast
  have "list_all (\<lambda>now. now - liLast l1 < 2 ^ 63) ts" using Cons.prems(2) t1(2) by (auto simp: list_all_iff m_def)
  from Cons.IH[OF t1(1) this r2(1)] obtain t' where t': "bucket r b t' l'" "m \<le> liLast l'"
    "of_nat k1 + t' \<le> t1 + of_int (liLast l' - m) / 1000000000 * r * (1 + ulp) ^ 3 + of_nat (length ts) * (5 * (ulp * b))"
    unfolding t1(2) by blast
  have "of_int (liLast l' - liLast l) / 1000000000 * r * (1 + ulp) ^ 3
      = of_int (m - liLast l) / 1000000000 * r * (1 + ulp) ^ 3 + of_int (liLast l' - m) / 1000000000 * r * (1 + ulp) ^ 3"
    by (simp add: ring_distribs diff_divide_distrib)
  moreover have "of_nat k = (if ok then 1 else 0) + rat_of_nat k1" by (simp add: r2(2))
  moreover have "of_nat (length (now # ts)) * (5 * (ulp * b)) = of_nat (length ts) * (5 * (ulp * b)) + 5 * (ulp * b)"
    by (simp add: algebra_simps)
  ultimately have "of_nat k + t' \<le> t + of_int (liLast l' - liLast l) / 1000000000 * r * (1 + ulp) ^ 3
      + of_nat (length (now # ts)) * (5 * (ulp * b))"
    using t1(3) t'(3) by linarith
  then show ?case using t'(1,2) by (intro exI[of _ t']) (simp add: m_def)
qed auto

lemma NewLimiter_bucket:
  assumes "0 < r" "1 \<le> burst" "burst \<le> 2 ^ 52"
  shows "bucket r (of_int burst) (of_int burst) (NewLimiter (Fin r) burst start)" "liLast (NewLimiter (Fin r) burst start) = start"
  using assms floatOfInt_exact[of burst] by (simp_all add: bucket_def NewLimiter_def newLimiterWithClock_def Let_def)

lemma reserves_last: "liLast (snd (reserves conv ts l)) = foldl max (liLast l) ts"
proof (induction ts arbitrary: l)
  case (Cons now ts)
  have "liLast (snd (reserve conv now l)) = max (liLast l) now" by (simp add: reserve_def accrue_def Let_def max_def)
  then show ?case using Cons.IH[of "snd (reserve conv now l)"] by (auto split: prod.splits)
qed simp

text \<open>Not a number is never left again.\<close>

lemma reserves_NaN: "liTokens l = NaN \<Longrightarrow> fst (reserves conv ts l) = 0"
proof (induction ts arbitrary: l)
  case (Cons now ts)
  then have "liTokens (accrue now l) = NaN" by (simp add: accrue_def Let_def)
  then have "\<not> snd (fst (reserve conv now l)) \<and> liTokens (snd (reserve conv now l)) = NaN" by (simp add: reserve_def Let_def)
  then show ?case using Cons.IH[of "snd (reserve conv now l)"] by (auto split: prod.splits)
qed simp

lemma admitted_bound:
  assumes "1 / 2 ^ 900 \<le> r" "r \<le> 2 ^ 900" "1 \<le> burst" "burst \<le> 2 ^ 52"
    and "list_all (\<lambda>now. now - start < 2 ^ 63) ts" "reserves conv ts (NewLimiter (Fin r) burst start) = (k, l')"
  shows "of_nat k \<le> of_int burst * (1 + of_nat (length ts) / 2 ^ 50)
      + of_int (liLast l' - start) / 1000000000 * r * (1 + 1 / 2 ^ 51)
    \<and> (\<exists>t. liTokens l' = Fin t \<and> 0 \<le> t \<and> t \<le> of_int burst)"
proof -
  define b :: rat where "b = of_int burst"
  have b: "1 \<le> b" "b \<le> 2 ^ 52"
    using assms(3,4) of_int_le_iff[of 1 burst, where ?'a = rat] of_int_le_iff[of burst "2 ^ 52", where ?'a = rat] by (simp_all add: b_def)
  then have sc: "in_scale r b" using assms(1,2) by (simp add: in_scale_def)
  have r: "0 < r" using assms(1) by (rule less_le_trans[rotated]) simp
  note new = NewLimiter_bucket[OF r assms(3,4), of start]
  have "list_all (\<lambda>now. now - liLast (NewLimiter (Fin r) burst start) < 2 ^ 63) ts" using assms(5) by (simp only: new(2))
  from reserves_quota[OF new(1)[folded b_def] sc this assms(6)] obtain t where t: "bucket r b t l'" "start \<le> liLast l'"
    "of_nat k + t \<le> b + of_int (liLast l' - start) / 1000000000 * r * (1 + ulp) ^ 3 + of_nat (length ts) * (5 * (ulp * b))"
    unfolding new(2) by blast
  have "(1 + ulp) ^ 3 \<le> 1 + 1 / 2 ^ 51" by (simp add: ulp_def power3_eq_cube)
  then have "of_int (liLast l' - start) / 1000000000 * r * (1 + ulp) ^ 3 \<le> of_int (liLast l' - start) / 1000000000 * r * (1 + 1 / 2 ^ 51)"
    using t(2) r by (intro mult_left_mono) simp_all
  moreover have "5 * (ulp * b) \<le> b / 2 ^ 50" using b(1) by (simp add: ulp_def)
  then have "of_nat (length ts) * (5 * (ulp * b)) \<le> of_nat (length ts) * (b / 2 ^ 50)" by (intro mult_left_mono) simp_all
  moreover have "b * (1 + of_nat (length ts) / 2 ^ 50) = b + of_nat (length ts) * (b / 2 ^ 50)" by (simp add: algebra_simps)
  moreover have "0 \<le> t" using t(1) by (simp add: bucket_def)
  ultimately have "of_nat k \<le> b * (1 + of_nat (length ts) / 2 ^ 50) + of_int (liLast l' - start) / 1000000000 * r * (1 + 1 / 2 ^ 51)"
    using t(3) by linarith
  then show ?thesis using t(1) by (simp add: bucket_def b_def)
qed

subsection \<open>One caller among others\<close>

text \<open>Turns taken to the end: how many calls were admitted of the caller's own and of the others'.\<close>

fun turns :: "(gofloat \<Rightarrow> int) \<Rightarrow> waitTurn list \<Rightarrow> limiter \<Rightarrow> nat \<times> nat \<times> limiter" where
  "turns conv [] l = (0, 0, l)"
| "turns conv (e # es) l =
     (case reserves conv (wtOthers e) l of (k, l) \<Rightarrow>
      case reserve conv (wtNow e) l of ((_, ok), l) \<Rightarrow>
      case turns conv es l of (own, others, l) \<Rightarrow> ((if ok then 1 else 0) + own, k + others, l))"

definition turnReadings :: "waitTurn \<Rightarrow> int list" where "turnReadings e = wtOthers e @ [wtNow e]"

lemma reserves_append:
  "reserves conv (xs @ ys) l = (case reserves conv xs l of (k, l) \<Rightarrow> case reserves conv ys l of (m, l) \<Rightarrow> (k + m, l))"
  by (induction xs arbitrary: l) (auto split: prod.splits)

lemma turns_reserves:
  "turns conv es l = (own, others, l') \<Longrightarrow> reserves conv (concat (map turnReadings es)) l = (own + others, l')"
proof (induction es arbitrary: l own others)
  case (Cons e es)
  obtain k l0 where o: "reserves conv (wtOthers e) l = (k, l0)" by fastforce
  obtain delay ok l1 where r: "reserve conv (wtNow e) l0 = ((delay, ok), l1)" by (metis surj_pair)
  obtain own' others' where t: "turns conv es l1 = (own', others', l')" "own = (if ok then 1 else 0) + own'" "others = k + others'"
    using Cons.prems by (auto simp: o r split: prod.splits)
  show ?case using Cons.IH[OF t(1)] by (simp add: turnReadings_def reserves_append o r t(2,3))
qed simp

lemma Wait_turns:
  "\<exists>n \<le> length es. \<exists>others. turns conv (take n es) l
     = (if fst (Wait conv deadline es l) = Some (Inr ()) then 1 else 0, others, snd (Wait conv deadline es l))"
proof (induction es arbitrary: l)
  case (Cons e es)
  obtain k l0 where o: "reserves conv (wtOthers e) l = (k, l0)" by fastforce
  obtain delay ok l1 where r: "reserve conv (wtNow e) l0 = ((delay, ok), l1)" by (metis surj_pair)
  show ?case
  proof (cases "wtErr e = None \<and> \<not> ok \<and> \<not> (case deadline of None \<Rightarrow> False | Some d \<Rightarrow> wtCheck e + delay > d) \<and> wtDone e = None")
    case True
    obtain n others where "n \<le> length es" "turns conv (take n es) l1
        = (if fst (Wait conv deadline es l1) = Some (Inr ()) then 1 else 0, others, snd (Wait conv deadline es l1))"
      using Cons.IH by blast
    then show ?thesis using True by (intro exI[of _ "Suc n"]) (simp add: o r)
  next
    case False
    show ?thesis
    proof (cases "wtErr e")
      case None
      then have "fst (Wait conv deadline (e # es) l) = Some (Inr ()) \<longleftrightarrow> ok" "snd (Wait conv deadline (e # es) l) = l1"
        using False by (cases deadline; auto simp: o r split: option.split)+
      then show ?thesis by (intro exI[of _ 1]) (simp add: o r del: Wait.simps)
    qed (auto intro: exI[of _ 0])
  qed
qed (auto intro: exI[of _ 0])

subsection \<open>Properties\<close>

text \<open>The sustained rate stays under the quota: however many callers there are and in whatever order they come,
  the calls admitted from the start up to the last clock reading are at most the burst and the rate times the time
  that passed, up to the rounding of \<^verbatim>\<open>float64\<close>: a relative \<open>2\<^sup>-\<^sup>5\<^sup>1\<close> on the accrued part, and \<open>2\<^sup>-\<^sup>5\<^sup>0\<close> bursts
  for each call, admitted or not; and the bucket always holds between nothing and the burst.\<close>

theorem limiter_quota:
  assumes "1 / 2 ^ 900 \<le> r" "r \<le> 2 ^ 900" "1 \<le> burst" "burst \<le> 2 ^ 52"
    and "list_all (\<lambda>now. now - start < 2 ^ 63) ts" "reserves conv ts (NewLimiter (Fin r) burst start) = (k, l')"
  shows "of_nat k \<le> of_int burst * (1 + of_nat (length ts) / 2 ^ 50)
      + of_int (liLast l' - start) / 1000000000 * r * (1 + 1 / 2 ^ 51)
    \<and> (\<exists>t. liTokens l' = Fin t \<and> 0 \<le> t \<and> t \<le> of_int burst)"
  using assms by (rule admitted_bound)

theorem limiter_quota_witness:
  "\<exists>k l'. reserves (\<lambda>_. 0) [5, 6, 7] (NewLimiter (Fin 10) 2 5) = (k, l') \<and> k < 3"
proof -
  obtain k l' where run: "reserves (\<lambda>_. 0) [5, 6, 7] (NewLimiter (Fin 10) 2 5) = (k, l')" by fastforce
  have last: "liLast l' = 7" using reserves_last[of "\<lambda>_. 0" "[5, 6, 7]" "NewLimiter (Fin 10) 2 5"] unfolding run
    by (simp add: NewLimiter_def newLimiterWithClock_def)
  have "(1 :: rat) / 2 ^ 900 \<le> 10" by (rule order_trans[of _ 1]) simp_all
  moreover have "(10 :: rat) \<le> 2 ^ 900" using power_increasing[of 4 900 "2 :: rat"] by simp
  ultimately have "rat_of_nat k \<le> 2 * (1 + 3 / 2 ^ 50) + 2 / 1000000000 * 10 * (1 + 1 / 2 ^ 51)"
    using limiter_quota[of 10 2 5 "[5, 6, 7]" "\<lambda>_. 0" k l', OF _ _ _ _ _ run] last by simp
  also have "\<dots> < 3" by simp
  finally show ?thesis using run by auto
qed

text \<open>A caller takes one token or none: \<open>Wait\<close> calls \<open>reserve\<close> once per turn of its loop, among the calls of
  others; the call that returns success is the only one of its own that was admitted, and a caller that gives up, by
  its context or because the next token comes after its deadline, has taken none.\<close>

theorem Wait_takes_one:
  "\<exists>n \<le> length es. \<exists>others. turns conv (take n es) l
     = (if fst (Wait conv deadline es l) = Some (Inr ()) then 1 else 0, others, snd (Wait conv deadline es l))"
  by (rule Wait_turns)

text \<open>A flaw: a rate that is not a number, which the configuration lets through, admits nobody. From the first
  call after the clock has moved, the bucket is not a number either, and every call waits for ever.\<close>

theorem limiter_nan_stalls:
  assumes "start < now"
  shows "fst (reserves conv (now # ts) (NewLimiter NaN burst start)) = 0"
proof -
  let ?l = "NewLimiter NaN burst start"
  have "fmul x NaN = NaN" "fadd x NaN = NaN" for x by (cases x; simp)+
  then have "liTokens (accrue now ?l) = NaN" using assms by (simp add: accrue_def NewLimiter_def newLimiterWithClock_def Let_def)
  then have "\<not> snd (fst (reserve conv now ?l)) \<and> liTokens (snd (reserve conv now ?l)) = NaN" by (simp add: reserve_def Let_def)
  then show ?thesis using reserves_NaN[of "snd (reserve conv now ?l)" conv ts] by (auto split: prod.splits)
qed

theorem limiter_nan_stalls_witness: "fst (reserves (\<lambda>_. 0) [1, 2, 3] (NewLimiter NaN 16 0)) = 0"
  using limiter_nan_stalls[of 0 1 "\<lambda>_. 0" "[2, 3]" 16] by simp

end
