(* ===== verification/Rpc_Transport.thy ===== *)
theory Rpc_Transport
  imports Go_Json Go_Decimal
begin

section \<open>The JSON-RPC transport (\<^verbatim>\<open>internal/rpc/transport.go\<close>)\<close>

text \<open>
  One request per call over HTTP. The provider is a parameter: \<open>server\<close> maps the document that was posted to
  what came back, a request that could not be built or sent, or a response with its status, the text of its
  body and the first document in it, if it is one. The counter of request numbers is an atomic
  \<^verbatim>\<open>int64\<close>. \<open>tpSent\<close> is the trace of the documents posted through this transport. Parameters are
  documents already, so that encoding the request cannot fail.
\<close>

record httpTransport =
  tpUrl :: string
  tpTimeout :: int
  tpNextID :: int
  tpSent :: "json list"

definition NewHTTPTransport :: "string \<Rightarrow> int \<Rightarrow> httpTransport" where
  "NewHTTPTransport url timeout =
     \<lparr>tpUrl = url, tpTimeout = (if timeout \<le> 0 then 15 * 1000000000 else timeout), tpNextID = 0, tpSent = []\<rparr>"

record jsonRPCRequest =
  jqJSONRPC :: string
  jqID :: int
  jqMethod :: string
  jqParams :: "json list"

record jsonRPCError =
  jeCode :: int
  jeMessage :: string

record jsonRPCResponse =
  jrJSONRPC :: string
  jrID :: int
  jrResult :: "json option"
  jrError :: "jsonRPCError option"

definition jsonRPCErrorText :: "jsonRPCError \<Rightarrow> string" where
  "jsonRPCErrorText e = ''json-rpc error '' @ intString (jeCode e) @ '': '' @ jeMessage e"

definition marshalRequest :: "jsonRPCRequest \<Rightarrow> json" where
  "marshalRequest r = JObj [(''jsonrpc'', JStr (jqJSONRPC r)), (''id'', JInt (jqID r)), (''method'', JStr (jqMethod r)),
     (''params'', JArr (jqParams r))]"

definition unmarshalError :: "json \<Rightarrow> jsonRPCError option option" where
  "unmarshalError j =
     (if j = JNull then Some None
      else do {
        kvs \<leftarrow> jsonObj j;
        code \<leftarrow> jsonInt (- (2 ^ 63)) (2 ^ 63) (jsonField ''code'' kvs);
        msg \<leftarrow> jsonStr (jsonField ''message'' kvs);
        Some (Some \<lparr>jeCode = code, jeMessage = msg\<rparr>) })"

definition unmarshalResponse :: "json \<Rightarrow> jsonRPCResponse option" where
  "unmarshalResponse j = do {
     kvs \<leftarrow> jsonObj j;
     v \<leftarrow> jsonStr (jsonField ''jsonrpc'' kvs);
     i \<leftarrow> jsonInt (- (2 ^ 63)) (2 ^ 63) (jsonField ''id'' kvs);
     e \<leftarrow> unmarshalError (jsonField ''error'' kvs);
     Some \<lparr>jrJSONRPC = v, jrID = i, jrResult = rawField ''result'' kvs, jrError = e\<rparr> }"

datatype httpReply = NotBuilt string | NotSent string | Answered int string "json option"

datatype transport_error = BuildingRequest string string | SendingRequest string string | HTTPStatus string int string
  | DecodingResponse string | ProviderError string jsonRPCError

definition Call :: "(json \<Rightarrow> httpReply) \<Rightarrow> string \<Rightarrow> json list \<Rightarrow> httpTransport \<Rightarrow> (transport_error + json option) \<times> httpTransport" where
  "Call server method params t =
     (let id = wrap64 (tpNextID t + 1);
          t = t\<lparr>tpNextID := id\<rparr>;
          body = marshalRequest \<lparr>jqJSONRPC = ''2.0'', jqID = id, jqMethod = method, jqParams = params\<rparr>
      in case server body of
           NotBuilt err \<Rightarrow> (Inl (BuildingRequest method err), t)
         | NotSent err \<Rightarrow> (Inl (SendingRequest method err), t\<lparr>tpSent := tpSent t @ [body]\<rparr>)
         | Answered status text doc \<Rightarrow>
             let t = t\<lparr>tpSent := tpSent t @ [body]\<rparr>
             in if status \<noteq> 200 then (Inl (HTTPStatus method status (trimSpace (take 256 text))), t)
                else case doc of
                       None \<Rightarrow> (Inl (DecodingResponse method), t)
                     | Some j \<Rightarrow>
                         (case unmarshalResponse j of
                            None \<Rightarrow> (Inl (DecodingResponse method), t)
                          | Some out \<Rightarrow>
                              (case jrError out of
                                 Some e \<Rightarrow> (Inl (ProviderError method e), t)
                               | None \<Rightarrow> (Inr (jrResult out), t))))"

subsection \<open>What a call returns\<close>

definition request_doc :: "int \<Rightarrow> string \<Rightarrow> json list \<Rightarrow> json" where
  "request_doc i method params =
     marshalRequest \<lparr>jqJSONRPC = ''2.0'', jqID = i, jqMethod = method, jqParams = params\<rparr>"

text \<open>A response the provider means as an answer: an object of the protocol that carries no error.\<close>

definition answers :: "httpReply \<Rightarrow> json option \<Rightarrow> bool" where
  "answers reply raw \<longleftrightarrow> (\<exists>text j out. reply = Answered 200 text (Some j) \<and> unmarshalResponse j = Some out
     \<and> jrError out = None \<and> jrResult out = raw)"

lemma Call_Inr_iff:
  "fst (Call server method params t) = Inr raw \<longleftrightarrow> answers (server (request_doc (wrap64 (tpNextID t + 1)) method params)) raw"
  by (auto simp: Call_def request_doc_def answers_def Let_def split: httpReply.split sum.split option.split)

lemma Call_sent:
  "tpNextID (snd (Call server method params t)) = wrap64 (tpNextID t + 1)"
  "tpSent (snd (Call server method params t)) = tpSent t
   \<or> tpSent (snd (Call server method params t)) = tpSent t @ [request_doc (wrap64 (tpNextID t + 1)) method params]"
  by (auto simp: Call_def request_doc_def Let_def split: httpReply.split sum.split option.split)

lemma answers_unique: "answers reply raw \<Longrightarrow> answers reply raw' \<Longrightarrow> raw' = raw"
  by (auto simp: answers_def)

lemma response_result:
  "unmarshalResponse (JObj [(''jsonrpc'', JStr v), (''id'', JInt i), (''result'', r)])
   = (if - (2 ^ 63) \<le> i \<and> i < 2 ^ 63 then Some \<lparr>jrJSONRPC = v, jrID = i, jrResult = Some r, jrError = None\<rparr> else None)"
  by (simp add: unmarshalResponse_def jsonField_raw rawField_def unmarshalError_def equalFold_def toLower_def toLowerChar_def)

lemma response_error:
  assumes "- (2 ^ 63) \<le> i" "i < 2 ^ 63" "- (2 ^ 63) \<le> c" "c < 2 ^ 63"
  shows "unmarshalResponse (JObj [(''jsonrpc'', JStr v), (''id'', JInt i), (''error'', JObj [(''code'', JInt c), (''message'', JStr m)])])
   = Some \<lparr>jrJSONRPC = v, jrID = i, jrResult = None, jrError = Some \<lparr>jeCode = c, jeMessage = m\<rparr>\<rparr>"
  using assms by (simp add: unmarshalResponse_def jsonField_raw rawField_def unmarshalError_def equalFold_def toLower_def toLowerChar_def)

end
