(* ===== verification/Rpc_Pool.thy ===== *)
theory Rpc_Pool
  imports Rpc_Breaker Rpc_Limiter Rpc_Transport
begin

section \<open>The call pool (\<^verbatim>\<open>internal/rpc/pool.go\<close>)\<close>

text \<open>
  \<open>Do\<close> issues one JSON-RPC call under a worker slot, the rate limiter and the breaker, retrying
  failures. What it does not control is its environment \<open>env\<close>: for attempt \<open>k\<close>, \<open>env k\<close> says whether
  the context ended during the backoff sleep, what other goroutines did to the shared breaker, limiter and
  request counter in the meantime, what the clock showed, how the provider answers, and whether the
  context had ended by then. The theorems hold for every environment. The counters are updated atomically, and a
  goroutine only ever adds to them, so this call's effect on them is independent of the others'. A panic
  unwinds through the deferred releases. A result \<open>None\<close> is a call still waiting for the limiter where its
  environment ends.
\<close>

record poolConfig =
  cfgWorkers :: int
  cfgRatePerSec :: gofloat
  cfgBurst :: int
  cfgMaxRetries :: int
  cfgBaseBackoff :: int
  cfgBreakerThreshold :: int
  cfgBreakerCooldown :: int

definition withDefaults :: "poolConfig \<Rightarrow> poolConfig" where
  "withDefaults c =
     (let c = (if cfgWorkers c < 1 then c\<lparr>cfgWorkers := 8\<rparr> else c);
          c = (if nonPositive (cfgRatePerSec c) then c\<lparr>cfgRatePerSec := Fin 10\<rparr> else c);
          c = (if cfgBurst c < 1 then c\<lparr>cfgBurst := cfgWorkers c\<rparr> else c);
          c = (if cfgMaxRetries c < 0 then c\<lparr>cfgMaxRetries := 0\<rparr> else c);
          c = (if cfgBaseBackoff c \<le> 0 then c\<lparr>cfgBaseBackoff := 100 * 1000000\<rparr> else c);
          c = (if cfgBreakerCooldown c \<le> 0 then c\<lparr>cfgBreakerCooldown := 10 * 1000000000\<rparr> else c)
      in c)"

record poolStats =
  stInFlight :: int
  stCompleted :: int
  stFailed :: int
  stRetried :: int
  stRejected :: int

record rpcPool =
  rpTransport :: httpTransport
  rpCfg :: poolConfig
  rpSem :: int
  rpLimiter :: limiter
  rpBreaker :: breaker
  rpStats :: poolStats

definition NewPool :: "httpTransport \<Rightarrow> int \<Rightarrow> poolConfig \<Rightarrow> rpcPool" where
  "NewPool t now cfg =
     (let cfg = withDefaults cfg
      in \<lparr>rpTransport = t, rpCfg = cfg, rpSem = 0, rpLimiter = NewLimiter (cfgRatePerSec cfg) (cfgBurst cfg) now,
          rpBreaker = NewBreaker (cfgBreakerThreshold cfg) (cfgBreakerCooldown cfg),
          rpStats = \<lparr>stInFlight = 0, stCompleted = 0, stFailed = 0, stRetried = 0, stRejected = 0\<rparr>\<rparr>)"

definition Stats :: "rpcPool \<Rightarrow> poolStats" where "Stats p = rpStats p"

definition BreakerState :: "rpcPool \<Rightarrow> brState" where "BreakerState p = State (rpBreaker p)"

datatype rpc_error = CtxDone | ErrCircuitOpen | RateLimiter wait_error | FailedAfter int "transport_error option"

subsection \<open>The environment of a call\<close>

record callArgs =
  caMethod :: string
  caParams :: "json list"
  caDeadline :: "int option"

record attempt =
  atSleepErr :: bool
  atBefore :: "bop list"
  atAllowNow :: int
  atTurns :: "waitTurn list"
  atOtherCalls :: nat
  atServer :: "json \<Rightarrow> httpReply"
  atDuring :: "bop list"
  atReportNow :: int
  atCtxErr :: bool

text \<open>The bound handed to \<^verbatim>\<open>Int63n\<close>, which panics unless it is positive; the shift and the increment
  are those of an \<^verbatim>\<open>int64\<close>.\<close>

definition backoffBound :: "poolConfig \<Rightarrow> nat \<Rightarrow> int" where
  "backoffBound c attempt = wrap64 (wrap64 (cfgBaseBackoff c * 2 ^ (attempt - 1)) + 1)"

definition sleepBackoff :: "poolConfig \<Rightarrow> nat \<Rightarrow> bool \<Rightarrow> (rpc_error, unit) outcome" where
  "sleepBackoff c attempt ctxEnds =
     (if backoffBound c attempt \<le> 0 then Panic else if ctxEnds then Err CtxDone else Ok ())"

subsection \<open>\<^verbatim>\<open>Do\<close>\<close>

definition addRetried :: "rpcPool \<Rightarrow> rpcPool" where
  "addRetried p = p\<lparr>rpStats := (rpStats p)\<lparr>stRetried := stRetried (rpStats p) + 1\<rparr>\<rparr>"

definition addRejected :: "rpcPool \<Rightarrow> rpcPool" where
  "addRejected p = p\<lparr>rpStats := (rpStats p)\<lparr>stRejected := stRejected (rpStats p) + 1\<rparr>\<rparr>"

definition addCompleted :: "rpcPool \<Rightarrow> rpcPool" where
  "addCompleted p = p\<lparr>rpStats := (rpStats p)\<lparr>stCompleted := stCompleted (rpStats p) + 1\<rparr>\<rparr>"

definition addFailed :: "rpcPool \<Rightarrow> rpcPool" where
  "addFailed p = p\<lparr>rpStats := (rpStats p)\<lparr>stFailed := stFailed (rpStats p) + 1\<rparr>\<rparr>"

definition addInFlight :: "int \<Rightarrow> rpcPool \<Rightarrow> rpcPool" where
  "addInFlight d p = p\<lparr>rpStats := (rpStats p)\<lparr>stInFlight := stInFlight (rpStats p) + d\<rparr>\<rparr>"

definition onBreaker :: "(breaker \<Rightarrow> breaker) \<Rightarrow> rpcPool \<Rightarrow> rpcPool" where
  "onBreaker f p = p\<lparr>rpBreaker := f (rpBreaker p)\<rparr>"

definition skipIDs :: "nat \<Rightarrow> httpTransport \<Rightarrow> httpTransport" where
  "skipIDs n t = t\<lparr>tpNextID := wrap64 (tpNextID t + int n)\<rparr>"

text \<open>One attempt from the breaker on: \<open>Inl\<close> is a \<^verbatim>\<open>return\<close> (or no return yet), \<open>Inr (err, stop)\<close> a failed
  call, with \<open>stop\<close> the \<^verbatim>\<open>break\<close>.\<close>

definition tryOnce :: "(gofloat \<Rightarrow> int) \<Rightarrow> callArgs \<Rightarrow> attempt \<Rightarrow> rpcPool
                         \<Rightarrow> ((rpc_error, json option) outcome option + transport_error \<times> bool) \<times> rpcPool" where
  "tryOnce conv c a p =
     (let p = onBreaker (\<lambda>b. snd (brun (atBefore a) b)) p
      in case Allow (atAllowNow a) (rpBreaker p) of (allowed, b) \<Rightarrow>
         let p = p\<lparr>rpBreaker := b\<rparr>
         in if \<not> allowed then (Inl (Some (Err ErrCircuitOpen)), addRejected p)
            else case Wait conv (caDeadline c) (atTurns a) (rpLimiter p) of (w, l) \<Rightarrow>
              let p = p\<lparr>rpLimiter := l\<rparr>
              in case w of
                   None \<Rightarrow> (Inl None, p)
                 | Some (Inl e) \<Rightarrow> (Inl (Some (Err (RateLimiter e))), p)
                 | Some (Inr _) \<Rightarrow>
                     (case Call (atServer a) (caMethod c) (caParams c) (skipIDs (atOtherCalls a) (rpTransport p)) of (r, t) \<Rightarrow>
                      let p = onBreaker (\<lambda>b. snd (brun (atDuring a) b)) (p\<lparr>rpTransport := t\<rparr>)
                      in case r of
                           Inr out \<Rightarrow> (Inl (Some (Ok out)), addCompleted (onBreaker Success p))
                         | Inl err \<Rightarrow> (Inr (err, atCtxErr a), onBreaker (Failure (atReportNow a)) p)))"

text \<open>The retry loop; its first argument is the number of attempts that are left.\<close>

fun doLoop :: "nat \<Rightarrow> nat \<Rightarrow> (gofloat \<Rightarrow> int) \<Rightarrow> callArgs \<Rightarrow> (nat \<Rightarrow> attempt) \<Rightarrow> transport_error option \<Rightarrow> rpcPool
                 \<Rightarrow> (rpc_error, json option) outcome option \<times> rpcPool" where
  "doLoop 0 attempt conv c env lastErr p =
     (Some (Err (FailedAfter (cfgMaxRetries (rpCfg p) + 1) lastErr)), addFailed p)"
| "doLoop (Suc n) attempt conv c env lastErr p =
     (let p = (if attempt > 0 then addRetried p else p);
          slept = (if attempt > 0 then sleepBackoff (rpCfg p) attempt (atSleepErr (env attempt)) else Ok ())
      in case slept of
           Panic \<Rightarrow> (Some Panic, p)
         | Err e \<Rightarrow> (Some (Err e), p)
         | Ok _ \<Rightarrow>
             (case tryOnce conv c (env attempt) p of
                (Inl r, p) \<Rightarrow> (r, p)
              | (Inr (err, True), p) \<Rightarrow> doLoop 0 attempt conv c env (Some err) p
              | (Inr (err, False), p) \<Rightarrow> doLoop n (Suc attempt) conv c env (Some err) p))"

definition Do :: "(gofloat \<Rightarrow> int) \<Rightarrow> callArgs \<Rightarrow> bool \<Rightarrow> (nat \<Rightarrow> attempt) \<Rightarrow> rpcPool
                    \<Rightarrow> (rpc_error, json option) outcome option \<times> rpcPool" where
  "Do conv c slot env p =
     (if \<not> slot then (Some (Err CtxDone), p)
      else
        let p = p\<lparr>rpSem := rpSem p + 1\<rparr>;
            p = addInFlight 1 p
        in case doLoop (nat (cfgMaxRetries (rpCfg p) + 1)) 0 conv c env None p of
             (None, p) \<Rightarrow> (None, p)
           | (Some r, p) \<Rightarrow>
               let p = addInFlight (- 1) p;
                   p = p\<lparr>rpSem := rpSem p - 1\<rparr>
               in (Some r, p))"

subsection \<open>What an attempt changes\<close>

lemmas pool_updates = addRetried_def addRejected_def addCompleted_def addFailed_def addInFlight_def onBreaker_def

text \<open>Finished calls: completed, failed or rejected.\<close>

definition finished :: "poolStats \<Rightarrow> int" where
  "finished s = stCompleted s + stFailed s + stRejected s"

definition same_slots :: "rpcPool \<Rightarrow> rpcPool \<Rightarrow> bool" where
  "same_slots p q \<longleftrightarrow> rpSem q = rpSem p \<and> stInFlight (rpStats q) = stInFlight (rpStats p) \<and> rpCfg q = rpCfg p"

lemmas tryOnce_cases = prod.splits if_splits sum.splits option.splits

lemma tryOnce_spec:
  assumes "tryOnce conv c a p = (r, q)"
  shows "same_slots p q" "stRetried (rpStats q) = stRetried (rpStats p)"
    and "finished (rpStats q) = finished (rpStats p)
      + (case r of Inl (Some (Ok _)) \<Rightarrow> 1 | Inl (Some (Err ErrCircuitOpen)) \<Rightarrow> 1 | _ \<Rightarrow> 0)"
    and "r \<noteq> Inl (Some Panic)" "r \<noteq> Inl (Some (Err (FailedAfter n e)))"
  using assms
  by (auto simp: tryOnce_def Let_def pool_updates same_slots_def finished_def split: tryOnce_cases)

lemma tryOnce_breaker_inv:
  assumes "tryOnce conv c a p = (r, q)" "breaker_inv (rpBreaker p)"
  shows "breaker_inv (rpBreaker q)"
proof -
  let ?b = "snd (brun (atBefore a) (rpBreaker p))"
  have "breaker_inv (snd (Allow (atAllowNow a) ?b))" using assms(2) by (intro cb.inv_allow brun_inv)
  then have "breaker_inv (snd (Allow (atAllowNow a) ?b))"
    "breaker_inv (snd (brun (atDuring a) (snd (Allow (atAllowNow a) ?b))))"
    by (simp_all add: brun_inv)
  then show ?thesis using assms(1) cb.inv_success cb.inv_failure
    by (auto simp: tryOnce_def Let_def pool_updates split: tryOnce_cases)
qed

text \<open>A successful attempt returns what the provider answered to the request it sent.\<close>

lemma tryOnce_Ok:
  assumes "tryOnce conv c a p = (Inl (Some (Ok out)), q)"
  shows "(\<exists>b. rpBreaker q = Success b)
    \<and> (\<exists>i. answers (atServer a (request_doc i (caMethod c) (caParams c))) out)"
proof -
  have "fst (Call (atServer a) (caMethod c) (caParams c) (skipIDs (atOtherCalls a) (rpTransport p))) = Inr out"
    "\<exists>b. rpBreaker q = Success b"
    using assms by (auto simp: tryOnce_def Let_def pool_updates split: tryOnce_cases)
  then show ?thesis by (auto simp: Call_Inr_iff)
qed

text \<open>An attempt that the breaker and the limiter admit returns the provider's answer.\<close>

lemma tryOnce_through:
  assumes "fst (Allow (atAllowNow a) (snd (brun (atBefore a) (rpBreaker p))))"
    and "fst (Wait conv (caDeadline c) (atTurns a) (rpLimiter p)) = Some (Inr ())"
    and "\<And>t. fst (Call (atServer a) (caMethod c) (caParams c) t) = Inr out"
  shows "fst (tryOnce conv c a p) = Inl (Some (Ok out))"
proof -
  obtain b l where "Allow (atAllowNow a) (snd (brun (atBefore a) (rpBreaker p))) = (True, b)"
    "Wait conv (caDeadline c) (atTurns a) (rpLimiter p) = (Some (Inr ()), l)"
    using assms(1,2) by (metis prod.collapse)
  moreover obtain t where "Call (atServer a) (caMethod c) (caParams c) (skipIDs (atOtherCalls a) (rpTransport p)) = (Inr out, t)"
    using assms(3) by (metis prod.collapse)
  ultimately show ?thesis by (simp add: tryOnce_def Let_def pool_updates)
qed

subsection \<open>The retry loop\<close>

text \<open>What every step keeps, the loop keeps.\<close>

lemma doLoop_invariant:
  assumes "doLoop n k conv c env e p = (r, q)" "I p"
    and retried: "\<And>p. I p \<Longrightarrow> I (addRetried p)" and failed: "\<And>p. I p \<Longrightarrow> I (addFailed p)"
    and attempt: "\<And>a p x q. I p \<Longrightarrow> tryOnce conv c a p = (x, q) \<Longrightarrow> I q"
  shows "I q"
  using assms(1,2)
proof (induction n arbitrary: k e p)
  case 0
  then show ?case using failed by auto
next
  case (Suc n)
  define p' where "p' = (if k > 0 then addRetried p else p)"
  have I: "I p'" using Suc.prems(2) retried by (simp add: p'_def)
  obtain x m where t: "tryOnce conv c (env k) p' = (x, m)" by fastforce
  note m = attempt[OF I t]
  show ?case using Suc.prems(1) Suc.IH[OF _ m] failed[OF m] I m t
    by (auto simp: p'_def[symmetric] Let_def simp del: doLoop.simps(1) split: outcome.splits sum.splits bool.splits prod.splits)
      (auto split: if_splits)
qed

lemma doLoop_breaker_inv:
  assumes "doLoop n k conv c env e p = (r, q)" "breaker_inv (rpBreaker p)"
  shows "breaker_inv (rpBreaker q)"
  using doLoop_invariant[where I = "\<lambda>p. breaker_inv (rpBreaker p)", OF assms] tryOnce_breaker_inv
  by (auto simp: pool_updates)

text \<open>A result is that of one of the attempts.\<close>

lemma doLoop_Ok:
  assumes "doLoop n k conv c env e p = (Some (Ok out), q)"
  shows "\<exists>j < n. \<exists>p. tryOnce conv c (env (k + j)) p = (Inl (Some (Ok out)), q)"
  using assms
proof (induction n arbitrary: k e p)
  case (Suc n)
  define p' where "p' = (if k > 0 then addRetried p else p)"
  obtain x m where t: "tryOnce conv c (env k) p' = (x, m)" by fastforce
  have run: "tryOnce conv c (env k) p' = (Inl (Some (Ok out)), q) \<or> (\<exists>e. doLoop n (Suc k) conv c env e m = (Some (Ok out), q))"
    using Suc.prems t unfolding doLoop.simps p'_def[symmetric] Let_def
    by (auto split: outcome.splits sum.splits bool.splits if_splits)
  then show ?case
  proof
    assume "tryOnce conv c (env k) p' = (Inl (Some (Ok out)), q)"
    then show ?thesis by (intro exI[of _ 0]) auto
  next
    assume "\<exists>e. doLoop n (Suc k) conv c env e m = (Some (Ok out), q)"
    then obtain j p where "j < n" "tryOnce conv c (env (Suc k + j)) p = (Inl (Some (Ok out)), q)" using Suc.IH by blast
    then show ?thesis by (intro exI[of _ "Suc j"]) auto
  qed
qed simp

lemma doLoop_spec:
  assumes "doLoop n k conv c env e p = (r, q)"
  shows "same_slots p q
    \<and> stRetried (rpStats p) \<le> stRetried (rpStats q) \<and> stRetried (rpStats q) \<le> stRetried (rpStats p) + int n
    \<and> (k = 0 \<longrightarrow> 0 < n \<longrightarrow> stRetried (rpStats q) < stRetried (rpStats p) + int n)
    \<and> finished (rpStats q) = finished (rpStats p)
        + (case r of Some (Ok _) \<Rightarrow> 1 | Some (Err ErrCircuitOpen) \<Rightarrow> 1 | Some (Err (FailedAfter _ _)) \<Rightarrow> 1 | _ \<Rightarrow> 0)"
  using assms
proof (induction n arbitrary: k e p)
  case 0
  then show ?case by (auto simp: pool_updates same_slots_def finished_def)
next
  case (Suc n)
  define p' where "p' = (if k > 0 then addRetried p else p)"
  have p': "same_slots p p'" "finished (rpStats p') = finished (rpStats p)"
    "stRetried (rpStats p') = stRetried (rpStats p) + (if k > 0 then 1 else 0)"
    by (auto simp: p'_def pool_updates same_slots_def finished_def)
  define slept where "slept = (if k > 0 then sleepBackoff (rpCfg p') k (atSleepErr (env k)) else Ok ())"
  have slept: "slept \<in> {Ok (), Err CtxDone, Panic}" by (simp add: slept_def sleepBackoff_def)
  obtain x m where t: "tryOnce conv c (env k) p' = (x, m)" by fastforce
  note sp = tryOnce_spec[OF t]
  have run: "(case slept of Panic \<Rightarrow> (Some Panic, p') | Err e \<Rightarrow> (Some (Err e), p')
      | Ok _ \<Rightarrow> (case x of Inl r \<Rightarrow> (r, m)
              | Inr (err, stop) \<Rightarrow> if stop then doLoop 0 k conv c env (Some err) m else doLoop n (Suc k) conv c env (Some err) m)) = (r, q)"
    using Suc.prems t unfolding slept_def p'_def doLoop.simps(2) Let_def
    by (auto split: outcome.splits sum.splits bool.splits if_splits)
  consider "slept \<noteq> Ok ()" | y where "slept = Ok ()" "x = Inl y" | err where "slept = Ok ()" "x = Inr (err, True)"
    | err where "slept = Ok ()" "x = Inr (err, False)" by (metis (full_types) sumE surj_pair)
  then show ?case
  proof cases
    case 1
    then show ?thesis using run slept p' by (auto simp: same_slots_def)
  next
    case (2 y)
    then have "r = y" "q = m" using run by auto
    then show ?thesis using sp 2 p' by (auto simp: same_slots_def split: option.splits outcome.splits rpc_error.splits)
  next
    case (3 err)
    then show ?thesis using run sp(1-3) p' by (auto simp: pool_updates same_slots_def finished_def)
  next
    case (4 err)
    then have "doLoop n (Suc k) conv c env (Some err) m = (r, q)" using run by simp
    from Suc.IH[OF this] show ?thesis using sp(1-3) 4 p' by (auto simp: same_slots_def split: if_splits)
  qed
qed

text \<open>A call whose context ends, if it has to wait that long, returns.\<close>

definition contextEnds :: "attempt \<Rightarrow> bool" where
  "contextEnds a = list_ex (\<lambda>e. wtErr e \<noteq> None \<or> wtDone e \<noteq> None) (atTurns a)"

lemma Wait_returns: "list_ex (\<lambda>e. wtErr e \<noteq> None \<or> wtDone e \<noteq> None) es \<Longrightarrow> fst (Wait conv d es l) \<noteq> None"
proof (induction es arbitrary: l)
  case (Cons e es)
  then show ?case by (auto split: option.splits prod.splits)
qed simp

lemma tryOnce_returns:
  assumes "contextEnds a" "tryOnce conv c a p = (x, q)"
  shows "x \<noteq> Inl None"
proof -
  have "Wait conv (caDeadline c) (atTurns a) l \<noteq> (None, l')" for l l'
    using Wait_returns[OF assms(1)[unfolded contextEnds_def], of conv "caDeadline c" l] by auto
  then show ?thesis using assms(2) by (auto simp: tryOnce_def Let_def pool_updates split: tryOnce_cases)
qed

lemma doLoop_returns:
  assumes "\<And>k. contextEnds (env k)"
  shows "fst (doLoop n k conv c env e p) \<noteq> None"
proof (induction n arbitrary: k e p)
  case (Suc n)
  define p' where "p' = (if k > 0 then addRetried p else p)"
  obtain x m where t: "tryOnce conv c (env k) p' = (x, m)" by fastforce
  show ?case using tryOnce_returns[OF assms t] t Suc.IH unfolding doLoop.simps p'_def[symmetric] Let_def
    by (auto split: outcome.split sum.split bool.split)
qed simp

subsection \<open>Requests and tokens\<close>

definition attemptReadings :: "attempt \<Rightarrow> int list" where
  "attemptReadings a = concat (map turnReadings (atTurns a))"

definition loopReadings :: "nat \<Rightarrow> nat \<Rightarrow> (nat \<Rightarrow> attempt) \<Rightarrow> int list" where
  "loopReadings n k env = concat (map (\<lambda>j. attemptReadings (env j)) [k..<k + n])"

text \<open>From \<open>p\<close> to \<open>q\<close> the limiter served some of the clock readings \<open>ts\<close>, and no more requests were posted than it
  admitted.\<close>

definition drawn :: "(gofloat \<Rightarrow> int) \<Rightarrow> int list \<Rightarrow> rpcPool \<Rightarrow> rpcPool \<Rightarrow> bool" where
  "drawn conv ts p q \<longleftrightarrow> (\<exists>us k. reserves conv us (rpLimiter p) = (k, rpLimiter q) \<and> set us \<subseteq> set ts \<and> length us \<le> length ts
     \<and> length (tpSent (rpTransport q)) \<le> length (tpSent (rpTransport p)) + k)"

lemma drawn_same: "rpLimiter q = rpLimiter p \<Longrightarrow> tpSent (rpTransport q) = tpSent (rpTransport p) \<Longrightarrow> drawn conv ts p q"
  unfolding drawn_def by (intro exI[of _ "[]"]) auto

lemma drawn_trans:
  assumes "drawn conv xs p q" "drawn conv ys q r"
  shows "drawn conv (xs @ ys) p r"
proof -
  obtain us k where u: "reserves conv us (rpLimiter p) = (k, rpLimiter q)" "set us \<subseteq> set xs" "length us \<le> length xs"
    "length (tpSent (rpTransport q)) \<le> length (tpSent (rpTransport p)) + k"
    using assms(1) by (auto simp: drawn_def)
  obtain vs m where v: "reserves conv vs (rpLimiter q) = (m, rpLimiter r)" "set vs \<subseteq> set ys" "length vs \<le> length ys"
    "length (tpSent (rpTransport r)) \<le> length (tpSent (rpTransport q)) + m"
    using assms(2) by (auto simp: drawn_def)
  show ?thesis unfolding drawn_def
    using u v by (intro exI[of _ "us @ vs"] exI[of _ "k + m"]) (auto simp: reserves_append)
qed

lemma drawn_before: "rpLimiter p' = rpLimiter p \<Longrightarrow> tpSent (rpTransport p') = tpSent (rpTransport p) \<Longrightarrow> drawn conv ts p' q \<Longrightarrow> drawn conv ts p q"
  by (simp add: drawn_def)

lemma tryOnce_drawn:
  assumes "tryOnce conv c a p = (x, q)"
  shows "drawn conv (attemptReadings a) p q"
proof (cases "fst (Allow (atAllowNow a) (snd (brun (atBefore a) (rpBreaker p))))")
  case False
  then show ?thesis using assms by (intro drawn_same) (auto simp: tryOnce_def Let_def pool_updates split: tryOnce_cases)
next
  case True
  let ?w = "Wait conv (caDeadline c) (atTurns a) (rpLimiter p)"
  have q: "rpLimiter q = snd ?w"
    "length (tpSent (rpTransport q)) \<le> length (tpSent (rpTransport p)) + (if fst ?w = Some (Inr ()) then 1 else 0)"
    using assms True Call_sent(2)[of "atServer a" "caMethod c" "caParams c" "skipIDs (atOtherCalls a) (rpTransport p)"]
    by (auto simp: tryOnce_def Let_def pool_updates skipIDs_def split: tryOnce_cases)
  obtain n others where n: "turns conv (take n (atTurns a)) (rpLimiter p) = (if fst ?w = Some (Inr ()) then 1 else 0, others, snd ?w)"
    using Wait_turns[of "atTurns a" conv "rpLimiter p" "caDeadline c"] by blast
  have "concat (map turnReadings (take n (atTurns a))) @ concat (map turnReadings (drop n (atTurns a))) = attemptReadings a"
    by (simp add: attemptReadings_def flip: concat_append map_append)
  then have "set (concat (map turnReadings (take n (atTurns a)))) \<subseteq> set (attemptReadings a)
      \<and> length (concat (map turnReadings (take n (atTurns a)))) \<le> length (attemptReadings a)"
    by (metis le_add1 length_append set_append sup_ge1)
  then show ?thesis unfolding drawn_def using q turns_reserves[OF n]
    by (intro exI[of _ "concat (map turnReadings (take n (atTurns a)))"] exI[of _ "(if fst ?w = Some (Inr ()) then 1 else 0) + others"])
      auto
qed

lemma doLoop_drawn:
  assumes "doLoop n k conv c env e p = (r, q)"
  shows "drawn conv (loopReadings n k env) p q"
  using assms
proof (induction n arbitrary: k e p)
  case 0
  then show ?case by (intro drawn_same) (auto simp: pool_updates)
next
  case (Suc n)
  define p' where "p' = (if k > 0 then addRetried p else p)"
  have p': "rpLimiter p' = rpLimiter p" "tpSent (rpTransport p') = tpSent (rpTransport p)" by (auto simp: p'_def pool_updates)
  obtain x m where t: "tryOnce conv c (env k) p' = (x, m)" by fastforce
  have "q = p' \<or> q = m \<or> q = addFailed m \<or> (\<exists>e. doLoop n (Suc k) conv c env e m = (r, q))"
    using Suc.prems t unfolding doLoop.simps p'_def[symmetric] Let_def
    by (auto split: outcome.splits sum.splits bool.splits if_splits)
  then have "q = p' \<or> drawn conv (loopReadings n (Suc k) env) m q"
    using Suc.IH by (auto intro: drawn_same simp: pool_updates)
  moreover have "loopReadings (Suc n) k env = attemptReadings (env k) @ loopReadings n (Suc k) env"
    unfolding loopReadings_def by (subst upt_conv_Cons) simp_all
  ultimately show ?case
    using drawn_same[OF p'] drawn_before[OF p' drawn_trans[OF tryOnce_drawn[OF t]]] by auto
qed

lemma Do_drawn:
  assumes "Do conv c slot env p = (r, q)"
  shows "drawn conv (loopReadings (nat (cfgMaxRetries (rpCfg p) + 1)) 0 env) p q \<and> rpCfg q = rpCfg p"
proof (cases slot)
  case False
  then show ?thesis using assms by (auto simp: Do_def intro: drawn_same)
next
  case True
  define p' where "p' = addInFlight 1 (p\<lparr>rpSem := rpSem p + 1\<rparr>)"
  have p': "rpLimiter p' = rpLimiter p" "tpSent (rpTransport p') = tpSent (rpTransport p)" "rpCfg p' = rpCfg p"
    by (simp_all add: p'_def addInFlight_def)
  obtain x m where run: "doLoop (nat (cfgMaxRetries (rpCfg p) + 1)) 0 conv c env None p' = (x, m)" by fastforce
  have q: "rpLimiter q = rpLimiter m" "tpSent (rpTransport q) = tpSent (rpTransport m)" "rpCfg q = rpCfg m"
    using assms True run by (auto simp: Do_def Let_def p'_def addInFlight_def split: prod.splits option.splits)
  have "rpCfg m = rpCfg p" using doLoop_spec[OF run] p'(3) by (simp add: same_slots_def)
  moreover have "drawn conv (loopReadings (nat (cfgMaxRetries (rpCfg p) + 1)) 0 env) p m"
    by (rule drawn_before[OF p'(1,2) doLoop_drawn[OF run]])
  ultimately show ?thesis using q by (simp add: drawn_def)
qed

text \<open>Calls one after the other, each among the others of its environment.\<close>

fun doAll :: "(gofloat \<Rightarrow> int) \<Rightarrow> (callArgs \<times> bool \<times> (nat \<Rightarrow> attempt)) list \<Rightarrow> rpcPool \<Rightarrow> rpcPool" where
  "doAll conv [] p = p"
| "doAll conv ((c, slot, env) # xs) p = doAll conv xs (snd (Do conv c slot env p))"

definition callReadings :: "poolConfig \<Rightarrow> (callArgs \<times> bool \<times> (nat \<Rightarrow> attempt)) list \<Rightarrow> int list" where
  "callReadings cfg calls = concat (map (\<lambda>(_, _, env). loopReadings (nat (cfgMaxRetries cfg + 1)) 0 env) calls)"

lemma doAll_drawn: "drawn conv (callReadings (rpCfg p) calls) p (doAll conv calls p)"
proof (induction conv calls p rule: doAll.induct)
  case (1 conv p)
  show ?case by (simp add: drawn_same)
next
  case (2 conv c slot env xs p)
  obtain r q where run: "Do conv c slot env p = (r, q)" by fastforce
  show ?case using drawn_trans[OF conjunct1[OF Do_drawn[OF run]], of "callReadings (rpCfg q) xs"] 2 Do_drawn[OF run]
    by (simp add: run callReadings_def)
qed

subsection \<open>Properties\<close>

definition examplePool :: rpcPool where
  "examplePool = NewPool (NewHTTPTransport ''http://node'' 0) 0 \<lparr>cfgWorkers = 0, cfgRatePerSec = Fin 0, cfgBurst = 0, cfgMaxRetries = 2,
     cfgBaseBackoff = 0, cfgBreakerThreshold = 1, cfgBreakerCooldown = 0\<rparr>"

definition exampleArgs :: callArgs where
  "exampleArgs = \<lparr>caMethod = ''eth_call'', caParams = [], caDeadline = None\<rparr>"

definition freeTurn :: waitTurn where
  "freeTurn = \<lparr>wtErr = None, wtOthers = [], wtNow = 0, wtCheck = 0, wtDone = None\<rparr>"

definition exampleAttempt :: attempt where
  "exampleAttempt = \<lparr>atSleepErr = False, atBefore = [], atAllowNow = 100000000000, atTurns = [freeTurn],
     atOtherCalls = 0, atServer = (\<lambda>_. Answered 200 [] (Some (JObj [(''jsonrpc'', JStr ''2.0''), (''id'', JInt 1), (''result'', JStr ''0x'')]))),
     atDuring = [], atReportNow = 5, atCtxErr = False\<rparr>"

lemma examplePool_fields:
  "0 \<le> cfgMaxRetries (rpCfg examplePool)" "stInFlight (Stats examplePool) = 0" "breaker_inv (rpBreaker examplePool)"
  "rpLimiter examplePool = NewLimiter (Fin 10) 8 0" "cfgMaxRetries (rpCfg examplePool) = 2"
  by (simp_all add: examplePool_def NewPool_def withDefaults_def Stats_def Let_def NewBreaker_def newBreaker_inv)

lemma freeTurn_waits: "Wait conv d [freeTurn] (NewLimiter (Fin 10) 8 0) = (Some (Inr ()), (NewLimiter (Fin 10) 8 0)\<lparr>liTokens := Fin 7\<rparr>)"
proof -
  have "floatOfInt 8 = Fin 8" "fsub (Fin 8) (Fin 1) = Fin 7" using floatOfInt_exact[of 8] floatOfInt_exact[of 7] by (simp_all add: floatOfInt_def fsub_def)
  then show ?thesis
    by (simp add: freeTurn_def reserve_def accrue_def NewLimiter_def newLimiterWithClock_def Let_def)
qed

lemma example_call:
  assumes "\<And>t. fst (Call server (caMethod c) (caParams c) t) = Inr out"
  shows "fst (Do conv c True (\<lambda>_. exampleAttempt\<lparr>atServer := server\<rparr>) examplePool) = Some (Ok out)"
proof -
  let ?a = "exampleAttempt\<lparr>atServer := server\<rparr>" and ?p = "addInFlight 1 (examplePool\<lparr>rpSem := rpSem examplePool + 1\<rparr>)"
  have "fst (Allow 100000000000 (rpBreaker ?p))"
    by (simp add: examplePool_def NewPool_def withDefaults_def Let_def NewBreaker_def newBreakerWithClock_def Allow_def addInFlight_def)
  then have "fst (tryOnce conv c ?a ?p) = Inl (Some (Ok out))"
    using assms by (intro tryOnce_through)
      (simp_all add: exampleAttempt_def freeTurn_waits examplePool_fields addInFlight_def del: Wait.simps)
  then obtain q where "tryOnce conv c ?a ?p = (Inl (Some (Ok out)), q)" by (cases "tryOnce conv c ?a ?p") auto
  then show ?thesis by (simp add: Do_def Let_def examplePool_fields(5) eval_nat_numeral addInFlight_def)
qed

lemma example_run:
  obtains q where "Do (\<lambda>_. 0) exampleArgs True (\<lambda>_. exampleAttempt) examplePool = (Some (Ok (Some (JStr ''0x''))), q)"
proof -
  have "exampleAttempt\<lparr>atServer := atServer exampleAttempt\<rparr> = exampleAttempt" by simp
  moreover have "fst (Call (atServer exampleAttempt) m ps t) = Inr (Some (JStr ''0x''))" for m ps t
    by (simp add: Call_Inr_iff answers_def exampleAttempt_def response_result)
  ultimately have "fst (Do (\<lambda>_. 0) exampleArgs True (\<lambda>_. exampleAttempt) examplePool) = Some (Ok (Some (JStr ''0x'')))"
    using example_call[of "atServer exampleAttempt" exampleArgs] by metis
  then show thesis using that by (metis prod.collapse)
qed



text \<open>C30. A call that returns a result leaves the breaker closed and admitting calls, and what it returns is the
  provider's: in one of its at most \<^verbatim>\<open>MaxRetries\<close> and one attempts the provider answered the request for this method
  and these parameters with status 200, a well-formed response without error, and this result. No interleaving of
  this call with those of other goroutines breaks the breaker's invariant.\<close>

theorem Do_success_closes:
  assumes "Do conv c slot env p = (r, q)" "breaker_inv (rpBreaker p)"
  shows "breaker_inv (rpBreaker q) \<and> (\<forall>out. r = Some (Ok out) \<longrightarrow> BreakerState q = StateClosed \<and> fst (Allow now (rpBreaker q))
    \<and> (\<exists>k i. int k \<le> cfgMaxRetries (rpCfg p) \<and> answers (atServer (env k) (request_doc i (caMethod c) (caParams c))) out))"
proof (cases slot)
  case False
  then show ?thesis using assms by (auto simp: Do_def)
next
  case True
  define p' where "p' = addInFlight 1 (p\<lparr>rpSem := rpSem p + 1\<rparr>)"
  obtain m where run: "doLoop (nat (cfgMaxRetries (rpCfg p) + 1)) 0 conv c env None p' = (r, m)" and q: "rpBreaker q = rpBreaker m"
    using assms(1) True by (auto simp: Do_def Let_def p'_def addInFlight_def split: prod.splits option.splits)
  have inv: "breaker_inv (rpBreaker m)" using doLoop_breaker_inv[OF run] assms(2) by (simp add: p'_def addInFlight_def)
  moreover have "BreakerState q = StateClosed \<and> fst (Allow now (rpBreaker q))
      \<and> (\<exists>k i. int k \<le> cfgMaxRetries (rpCfg p) \<and> answers (atServer (env k) (request_doc i (caMethod c) (caParams c))) out)"
    if ok: "r = Some (Ok out)" for out
  proof -
    obtain k p2 where k: "k < nat (cfgMaxRetries (rpCfg p) + 1)" "tryOnce conv c (env (0 + k)) p2 = (Inl (Some (Ok out)), m)"
      using doLoop_Ok[OF run[unfolded ok]] by blast
    from tryOnce_Ok[OF k(2)] k(1) q show ?thesis by (auto simp: BreakerState_def Success_closes intro!: exI[of _ k])
  qed
  ultimately show ?thesis using q by auto
qed

theorem Do_success_closes_witness:
  "BreakerState (snd (Do (\<lambda>_. 0) exampleArgs True (\<lambda>_. exampleAttempt) examplePool)) = StateClosed"
proof -
  obtain q where run: "Do (\<lambda>_. 0) exampleArgs True (\<lambda>_. exampleAttempt) examplePool = (Some (Ok (Some (JStr ''0x''))), q)"
    by (rule example_run)
  from Do_success_closes[OF run examplePool_fields(3)] run show ?thesis by simp
qed

text \<open>C28. The provider's quota holds end to end: whatever calls are made through a new pool, with whatever retries and
  among whatever other callers of the same limiter, the requests that are posted are at most the burst and the
  rate times the time that passed, up to the rounding of \<^verbatim>\<open>float64\<close> (a relative \<open>2\<^sup>-\<^sup>5\<^sup>1\<close> on the accrued part, and
  \<open>2\<^sup>-\<^sup>5\<^sup>0\<close> bursts for each reading of the clock).\<close>

theorem pool_quota:
  assumes "p = NewPool t start cfg" "tpSent t = []" "cfgRatePerSec (rpCfg p) = Fin r" "1 / 2 ^ 900 \<le> r" "r \<le> 2 ^ 900"
    and "cfgBurst (rpCfg p) \<le> 2 ^ 52" "list_all (\<lambda>now. now - start < 2 ^ 63) (callReadings (rpCfg p) calls)" "q = doAll conv calls p"
  shows "of_nat (length (tpSent (rpTransport q))) \<le> of_int (cfgBurst (rpCfg p)) * (1 + of_nat (length (callReadings (rpCfg p) calls)) / 2 ^ 50)
      + of_int (liLast (rpLimiter q) - start) / 1000000000 * r * (1 + 1 / 2 ^ 51)"
proof -
  let ?b = "cfgBurst (rpCfg p)" and ?ts = "callReadings (rpCfg p) calls"
  have p: "rpTransport p = t" "rpLimiter p = NewLimiter (Fin r) ?b start" "1 \<le> ?b"
    using assms(3) by (auto simp: assms(1) NewPool_def Let_def withDefaults_def)
  obtain us k where us: "reserves conv us (NewLimiter (Fin r) ?b start) = (k, rpLimiter q)" "set us \<subseteq> set ?ts" "length us \<le> length ?ts"
    "length (tpSent (rpTransport q)) \<le> k"
    using doAll_drawn[of conv p calls] p assms(2,8) by (auto simp: drawn_def)
  have "list_all (\<lambda>now. now - start < 2 ^ 63) us" using us(2) assms(7) by (auto simp: list_all_iff)
  from admitted_bound[OF assms(4,5) p(3) assms(6) this us(1)]
  have "of_nat k \<le> of_int ?b * (1 + of_nat (length us) / 2 ^ 50) + of_int (liLast (rpLimiter q) - start) / 1000000000 * r * (1 + 1 / 2 ^ 51)"
    by blast
  also have "of_int ?b * (1 + of_nat (length us) / 2 ^ 50) \<le> of_int ?b * (1 + of_nat (length ?ts) / (2 :: rat) ^ 50)"
    using us(3) p(3) by (intro mult_left_mono add_left_mono divide_right_mono) simp_all
  finally have "of_nat k \<le> of_int ?b * (1 + of_nat (length ?ts) / 2 ^ 50) + of_int (liLast (rpLimiter q) - start) / 1000000000 * r * (1 + 1 / 2 ^ 51)"
    by simp
  moreover have "rat_of_nat (length (tpSent (rpTransport q))) \<le> of_nat k" using us(4) by simp
  ultimately show ?thesis by (rule order_trans[rotated])
qed

theorem pool_quota_witness:
  "let q = doAll (\<lambda>_. 0) (replicate 20 (exampleArgs, True, \<lambda>_. exampleAttempt)) examplePool
   in rat_of_nat (length (tpSent (rpTransport q))) \<le> 8 * (1 + 60 / 2 ^ 50) + of_int (liLast (rpLimiter q)) / 1000000000 * 10 * (1 + 1 / 2 ^ 51)"
proof -
  let ?calls = "replicate 20 (exampleArgs, True, \<lambda>_ :: nat. exampleAttempt)"
  define t :: httpTransport where "t = NewHTTPTransport ''http://node'' 0"
  have cfg: "cfgRatePerSec (rpCfg examplePool) = Fin 10" "cfgBurst (rpCfg examplePool) = 8"
    by (simp_all add: examplePool_def NewPool_def withDefaults_def Let_def)
  have readings: "callReadings (rpCfg examplePool) ?calls = replicate 60 0"
    by (simp add: callReadings_def loopReadings_def attemptReadings_def exampleAttempt_def turnReadings_def freeTurn_def
        examplePool_fields eval_nat_numeral)
  have "(1 :: rat) / 2 ^ 900 \<le> 10" by (rule order_trans[of _ 1]) simp_all
  moreover have "(10 :: rat) \<le> 2 ^ 900" using power_increasing[of 4 900 "2 :: rat"] by simp
  moreover have "tpSent t = []" by (simp add: t_def NewHTTPTransport_def)
  ultimately show ?thesis
    using pool_quota[OF examplePool_def[folded t_def] _ cfg(1) _ _ _ _ refl, of ?calls "\<lambda>_. 0"]
    by (simp add: cfg(2) readings Let_def list_all_iff)
qed

text \<open>A flaw: the rate limiter can strand the breaker. After the cooldown \<^verbatim>\<open>Do\<close> takes the one
  half-open probe; when \<^verbatim>\<open>limiter.Wait\<close> then gives up (the caller's deadline), \<^verbatim>\<open>Do\<close> returns without
  reporting to the breaker. No call is in flight any more, yet the breaker counts a probe as out and
  refuses every later call, at any time, for good.\<close>

theorem Do_strands_probe:
  "let p = examplePool\<lparr>rpBreaker := Failure 0 (rpBreaker examplePool)\<rparr>;
       (r, q) = Do conv exampleArgs True (\<lambda>_. exampleAttempt\<lparr>atTurns := [freeTurn\<lparr>wtErr := Some DeadlineExceeded\<rparr>]\<rparr>) p
   in r = Some (Err (RateLimiter (ContextErr DeadlineExceeded))) \<and> stInFlight (Stats q) = 0 \<and> rpSem q = 0 \<and> BreakerState q = StateHalfOpen
      \<and> fst (brun (map OpAllow nows) (rpBreaker q)) = replicate (length nows) False"
proof -
  have stuck: "brun (map OpAllow nows) b = (replicate (length nows) False, b)"
    if "0 < brThreshold b" "brSt b = StateHalfOpen" "brProbeInFlig b" for b
    using that by (induction nows) (simp_all add: Allow_def)
  show ?thesis
    by (simp add: Do_def Let_def examplePool_def NewPool_def withDefaults_def exampleAttempt_def exampleArgs_def NewBreaker_def
        newBreakerWithClock_def tryOnce_def pool_updates Allow_def Failure_def numeral_eq_Suc Stats_def BreakerState_def
        State_def stuck)
qed

text \<open>The backoff arithmetic: as long as the doubled delay fits an \<^verbatim>\<open>int64\<close> the bound of the random
  delay is the exact doubled delay plus one, so the call of \<^verbatim>\<open>Int63n\<close> is legal; from the attempt
  where it no longer fits it can be negative and the retry panics, which happens at attempt 38 for the
  default base of 100 milliseconds.\<close>

theorem sleepBackoff_bounds:
  "(0 < cfgBaseBackoff c \<and> cfgBaseBackoff c * 2 ^ (attempt - 1) < maxInt64 \<longrightarrow>
      backoffBound c attempt = cfgBaseBackoff c * 2 ^ (attempt - 1) + 1 \<and> sleepBackoff c attempt ctxEnds \<noteq> Panic)
   \<and> sleepBackoff (c\<lparr>cfgBaseBackoff := 100000000\<rparr>) 38 ctxEnds = Panic"
proof -
  have id: "wrap64 x = x" if "0 < x" "x < 2 ^ 63" for x
    using that by (intro wrap64_id) (simp add: isInt64_def minInt64_def maxInt64_def)
  have "backoffBound c attempt = cfgBaseBackoff c * 2 ^ (attempt - 1) + 1 \<and> sleepBackoff c attempt ctxEnds \<noteq> Panic"
    if "0 < cfgBaseBackoff c" "cfgBaseBackoff c * 2 ^ (attempt - 1) < maxInt64"
  proof -
    have pos: "0 < cfgBaseBackoff c * 2 ^ (attempt - 1)" using that(1) by simp
    have "backoffBound c attempt = cfgBaseBackoff c * 2 ^ (attempt - 1) + 1"
      using that(2) id[OF pos] id[of "cfgBaseBackoff c * 2 ^ (attempt - 1) + 1"] pos
      by (simp add: backoffBound_def maxInt64_def)
    then show ?thesis using pos by (simp add: sleepBackoff_def)
  qed
  moreover have "sleepBackoff (c\<lparr>cfgBaseBackoff := 100000000\<rparr>) 38 ctxEnds = Panic"
    by (simp add: sleepBackoff_def backoffBound_def wrap64_def)
  ultimately show ?thesis by blast
qed

theorem sleepBackoff_bounds_witness:
  "backoffBound (rpCfg examplePool) 3 = 400000001"
  using sleepBackoff_bounds[of "rpCfg examplePool" 3 False]
  by (simp add: examplePool_def NewPool_def withDefaults_def Let_def maxInt64_def)

end
