(* ===== verification/Go_Duration.thy ===== *)
theory Go_Duration
  imports Go_Decimal
begin

section \<open>Durations in print\<close>

text \<open>
  \<^verbatim>\<open>time.Duration.String\<close>: nanoseconds printed as hours, minutes and seconds with the fraction's trailing
  zeros left out, below one second in the largest unit that has an integral part. The micro sign is the two
  bytes of its UTF-8 encoding.
\<close>

text \<open>The last \<open>prec\<close> digits of \<open>v\<close> as a fraction, and what is left of \<open>v\<close>; \<open>pr\<close> is set by the first
  non-zero digit from the right.\<close>

fun fmtFrac :: "nat \<Rightarrow> nat \<Rightarrow> bool \<Rightarrow> string \<Rightarrow> string \<times> nat" where
  "fmtFrac v 0 pr acc = ((if pr then CHR ''.'' # acc else acc), v)"
| "fmtFrac v (Suc n) pr acc =
     (let digit = v mod 10; pr = (pr \<or> digit \<noteq> 0)
      in fmtFrac (v div 10) n pr (if pr then digitChar digit # acc else acc))"

definition smallDuration :: "nat \<Rightarrow> string" where
  "smallDuration u =
     (let (prec, unit) = (if u < 1000 then (0, ''ns'') else if u < 1000000 then (3, [CHR 0xC2, CHR 0xB5, CHR ''s'']) else (6, ''ms''));
          (frac, v) = fmtFrac u prec False []
      in natString v @ frac @ unit)"

definition durationString :: "int \<Rightarrow> string" where
  "durationString d =
     (let u = nat \<bar>d\<bar>;
          body = (if u = 0 then ''0s''
                  else if u < 1000000000 then smallDuration u
                  else let (frac, s) = fmtFrac u 9 False [];
                           secs = natString (s mod 60) @ frac @ ''s'';
                           m = s div 60;
                           h = m div 60
                       in (if h > 0 then natString h @ ''h'' else [])
                          @ (if m > 0 then natString (m mod 60) @ ''m'' else []) @ secs)
      in if d < 0 then CHR ''-'' # body else body)"

end
