(* ===== verification/Api_Server.thy ===== *)
theory Api_Server
  imports Api_Amount Indexer Config Graph_Arbitrage Rpc_Pool Go_Duration
begin

section \<open>The HTTP handlers (\<^verbatim>\<open>internal/api\<close>)\<close>

text \<open>
  A handler is a function from the server's state, the query and the clock to a response: a status code
  with a body, or an error body with its short text (the explanatory detail of an error is left out).
  \<^verbatim>\<open>q.Get\<close> of an absent parameter is the empty string. A panic of the search is recovered by the HTTP
  server and ends that request only. Metrics and logging are left out.
\<close>

text \<open>A document, or an \<^verbatim>\<open>ErrorResponse\<close> with its error and its detail.\<close>

datatype 'b response = JSON nat 'b | ErrorJSON nat string string

record server =
  srvHolder :: holder
  srvIndexer :: indexer
  srvCfg :: config
  srvRpcStats :: "(poolStats \<times> brState) option"
  srvClients :: nat

subsection \<open>Quotes (\<^verbatim>\<open>quote.go\<close>)\<close>

record hopJSON =
  hjPoolAddress :: string
  hjProtocol :: protocol
  hjFeeBps :: nat
  hjTokenIn :: string
  hjTokenOut :: string
  hjTokenInSymbol :: string
  hjTokenOutSymbol :: string
  hjAmountIn :: string
  hjAmountOut :: string

record quoteResponse =
  qrTokenIn :: string
  qrTokenOut :: string
  qrTokenInSymbol :: string
  qrTokenOutSymbol :: string
  qrAmountIn :: string
  qrAmountOut :: string
  qrMinReceived :: string
  qrSlippageBps :: int
  qrPriceImpactBps :: int
  qrRoute :: "hopJSON list"
  qrHops :: nat
  qrSnapshotAgeMs :: int
  qrRouterMicros :: int
  qrSimulated :: bool

definition defaultSlippageBps :: int where "defaultSlippageBps = 50"

definition applySlippage :: "int \<Rightarrow> int \<Rightarrow> int" where
  "applySlippage amount bps = go_div (amount * (10000 - bps)) 10000"

definition resolveToken :: "string \<Rightarrow> token option" where
  "resolveToken ref = (let ref = trimSpace ref in if ref = [] then None else Resolve ref)"

definition hopToJSON :: "hop \<Rightarrow> hopJSON" where
  "hopToJSON h = \<lparr>hjPoolAddress = hopPoolAddress h, hjProtocol = hopProtocol h, hjFeeBps = hopFeeBps h,
     hjTokenIn = hopTokenIn h, hjTokenOut = hopTokenOut h, hjTokenInSymbol = hopTokenInSymbol h,
     hjTokenOutSymbol = hopTokenOutSymbol h, hjAmountIn = intString (hopAmountIn h), hjAmountOut = intString (hopAmountOut h)\<rparr>"

definition buildQuoteResponse :: "int \<Rightarrow> snapshot \<Rightarrow> route \<Rightarrow> token \<Rightarrow> token \<Rightarrow> int \<Rightarrow> int \<Rightarrow> quoteResponse" where
  "buildQuoteResponse now snap r tokenIn tokenOut slippageBps elapsed =
     (let byAddress = map poolAddress (filter poolSimulated (snapshotPools snap));
          hops = map hopToJSON (rHops r)
      in \<lparr>qrTokenIn = tokAddress tokenIn, qrTokenOut = tokAddress tokenOut, qrTokenInSymbol = tokSymbol tokenIn,
          qrTokenOutSymbol = tokSymbol tokenOut, qrAmountIn = intString (rAmountIn r), qrAmountOut = intString (rAmountOut r),
          qrMinReceived = intString (applySlippage (rAmountOut r) slippageBps), qrSlippageBps = slippageBps,
          qrPriceImpactBps = rPriceImpactBps r, qrRoute = hops, qrHops = length hops,
          qrSnapshotAgeMs = Age now snap sdiv 1000000, qrRouterMicros = elapsed sdiv 1000,
          qrSimulated = list_ex (\<lambda>h. hopPoolAddress h \<in> set byAddress) (rHops r)\<rparr>)"

text \<open>An optional numeric parameter: absent is the default, \<open>None\<close> a bad request.\<close>

definition boundedParam :: "string \<Rightarrow> int \<Rightarrow> int \<Rightarrow> int \<Rightarrow> int option" where
  "boundedParam raw lo hi def =
     (if raw = [] then Some def
      else case parseInt64 raw of None \<Rightarrow> None | Some n \<Rightarrow> if n < lo \<or> n > hi then None else Some n)"

text \<open>\<^verbatim>\<open>err.Error()\<close> of the bad requests of \<^verbatim>\<open>FindBestRoute\<close>, in the order of its tests.\<close>

definition badRequestText :: "int \<Rightarrow> int \<Rightarrow> string" where
  "badRequestText amountIn maxHops = ''graph: invalid route request: '' @
     (if amountIn \<le> 0 then ''amountIn must be positive'' else if maxHops < 1 then ''maxHops must be at least 1''
      else ''tokenIn and tokenOut are the same'')"

definition handleQuote :: "(string \<Rightarrow> (bool \<times> bigfloat) option) \<Rightarrow> int \<Rightarrow> int \<Rightarrow> server \<Rightarrow> (string \<Rightarrow> string)
                             \<Rightarrow> (unit, quoteResponse response) outcome" where
  "handleQuote other elapsed now srv q =
     (case holderGet (srvHolder srv) of
        None \<Rightarrow> Ok (ErrorJSON 503 ''warming up'' ''no pool snapshot has been built yet'')
      | Some snap \<Rightarrow>
        case resolveToken (q ''tokenIn'') of None \<Rightarrow> Ok (ErrorJSON 400 ''bad tokenIn'' ''tokenIn must be a known symbol or contract address'') | Some tokenIn \<Rightarrow>
        case resolveToken (q ''tokenOut'') of None \<Rightarrow> Ok (ErrorJSON 400 ''bad tokenOut'' ''tokenOut must be a known symbol or contract address'') | Some tokenOut \<Rightarrow>
        case parseAmount other (q ''amountIn'') tokenIn of Inl e \<Rightarrow> Ok (ErrorJSON 400 ''bad amountIn'' (amountErrorText (q ''amountIn'') tokenIn e)) | Inr amountIn \<Rightarrow>
        case boundedParam (q ''maxHops'') 1 6 (cMaxHops (srvCfg srv)) of None \<Rightarrow> Ok (ErrorJSON 400 ''bad maxHops'' ''maxHops must be an integer between 1 and 6'') | Some maxHops \<Rightarrow>
        case boundedParam (q ''slippageBps'') 0 10000 defaultSlippageBps of None \<Rightarrow> Ok (ErrorJSON 400 ''bad slippageBps'' ''slippageBps must be an integer between 0 and 10000'') | Some slippageBps \<Rightarrow>
        case FindBestRoute (Some snap) (tokAddress tokenIn) (tokAddress tokenOut) (Some amountIn) maxHops of
          Panic \<Rightarrow> Panic
        | Err e \<Rightarrow>
            Ok (case e of
                  ErrNoRoute \<Rightarrow> ErrorJSON 404 ''no route'' (''no path from '' @ tokSymbol tokenIn @ '' to '' @ tokSymbol tokenOut @ '' within '' @ intString maxHops @ '' hops'')
                | ErrUnknownToken \<Rightarrow> ErrorJSON 404 ''token not indexed'' ''that token is known but has no indexed liquidity yet''
                | ErrBadRequest \<Rightarrow> ErrorJSON 400 ''bad request'' (badRequestText amountIn maxHops))
        | Ok r \<Rightarrow> Ok (JSON 200 (buildQuoteResponse now snap r tokenIn tokenOut slippageBps elapsed)))"

subsection \<open>The other handlers (\<^verbatim>\<open>handlers.go\<close>)\<close>

record tokensResponse =
  trTokens :: "token list"
  trCount :: nat

definition handleTokens :: "tokensResponse response" where
  "handleTokens = (let tokens = Tokens in JSON 200 \<lparr>trTokens = tokens, trCount = length tokens\<rparr>)"

definition bigString :: "int option \<Rightarrow> string" where
  "bigString n = (case n of None \<Rightarrow> [] | Some n \<Rightarrow> intString n)"

record poolJSON =
  pjAddress :: string
  pjProtocol :: protocol
  pjToken0 :: string
  pjToken1 :: string
  pjFeeBps :: nat
  pjSimulated :: bool
  pjReserve0 :: string
  pjReserve1 :: string
  pjLiquidity :: string
  pjTick :: int

record poolsResponse =
  prPools :: "poolJSON list"
  prCount :: nat
  prSnapshotAgeMs :: int

definition poolToJSON :: "pool \<Rightarrow> poolJSON" where
  "poolToJSON p = \<lparr>pjAddress = poolAddress p, pjProtocol = poolProtocol p, pjToken0 = tokSymbol (poolToken0 p),
     pjToken1 = tokSymbol (poolToken1 p), pjFeeBps = poolFeeBps p, pjSimulated = poolSimulated p,
     pjReserve0 = bigString (poolReserve0 p), pjReserve1 = bigString (poolReserve1 p),
     pjLiquidity = bigString (poolLiquidity p), pjTick = poolTick p\<rparr>"

definition handlePools :: "int \<Rightarrow> server \<Rightarrow> (string \<Rightarrow> string) \<Rightarrow> poolsResponse response" where
  "handlePools now srv q =
     (case holderGet (srvHolder srv) of
        None \<Rightarrow> ErrorJSON 503 ''warming up'' ''no pool snapshot has been built yet''
      | Some snap \<Rightarrow>
          let pools = snapshotPools snap;
              raw = q ''limit'';
              limit = (if raw = [] then length pools
                       else case parseInt64 raw of
                              None \<Rightarrow> length pools
                            | Some n \<Rightarrow> if 0 < n \<and> n < int (length pools) then nat n else length pools)
          in JSON 200 \<lparr>prPools = map poolToJSON (take limit pools), prCount = length pools,
                       prSnapshotAgeMs = Age now snap sdiv 1000000\<rparr>)"

record cycleJSON =
  cjSymbols :: "string list"
  cjPools :: "string list"
  cjAmountIn :: string
  cjAmountOut :: string
  cjProfitBps :: int

record arbitrageResponse =
  arCycles :: "cycleJSON list"
  arCount :: nat

definition probeSize :: "token \<Rightarrow> int" where
  "probeSize t =
     (let n = (if tokSymbol t = ''WETH'' then 1 else if tokSymbol t = ''WBTC'' then 1 else if tokSymbol t = ''USDC'' then 2000
               else if tokSymbol t = ''USDT'' then 2000 else if tokSymbol t = ''DAI'' then 2000 else 1)
      in n * pow10 (tokDecimals t))"

text \<open>The probe map, as the list of its entries; the addresses are distinct.\<close>

definition arbitrageProbe :: "snapshot \<Rightarrow> (string \<times> int option) list" where
  "arbitrageProbe snap =
     List.map_filter (\<lambda>symbol.
         case TokenBySymbol symbol of
           None \<Rightarrow> None
         | Some tok \<Rightarrow>
             (case Token snap (tokAddress tok) of
                None \<Rightarrow> None
              | Some _ \<Rightarrow> Some (tokAddress tok, Some (probeSize tok))))
       [''WETH'', ''USDC'', ''USDT'', ''DAI'', ''WBTC'']"

definition cycleToJSON :: "cycle \<Rightarrow> cycleJSON" where
  "cycleToJSON c = \<lparr>cjSymbols = cySymbols c, cjPools = cyPools c, cjAmountIn = intString (cyAmountIn c),
     cjAmountOut = intString (cyAmountOut c), cjProfitBps = cyProfitBps c\<rparr>"

definition handleArbitrage :: "((string \<times> int option) list \<Rightarrow> (string \<times> int option) list) \<Rightarrow> server
                                 \<Rightarrow> (unit, arbitrageResponse response) outcome" where
  "handleArbitrage order srv =
     (case holderGet (srvHolder srv) of
        None \<Rightarrow> Ok (ErrorJSON 503 ''warming up'' ''no pool snapshot has been built yet'')
      | Some snap \<Rightarrow>
          (case FindArbitrage (Some snap) (order (arbitrageProbe snap)) (cMaxHops (srvCfg srv)) of
             None \<Rightarrow> Panic
           | Some cycles \<Rightarrow>
               let out = map cycleToJSON (case cycles of None \<Rightarrow> [] | Some cs \<Rightarrow> cs)
               in Ok (JSON 200 \<lparr>arCycles = out, arCount = length out\<rparr>)))"

definition serverMode :: "server \<Rightarrow> string" where
  "serverMode srv = (if LiveMode (srvCfg srv) then ''live'' else ''simulated'')"

record rpcStatus =
  rsInFlight :: int
  rsCompleted :: int
  rsFailed :: int
  rsRetried :: int
  rsRejected :: int
  rsBreakerState :: brState

record statusResponse =
  srIndexer :: status
  srSnapshotAgeMs :: int
  srRefreshEveryMs :: int
  srMaxHops :: int
  srMode :: string
  srWSClients :: nat
  srRPC :: "rpcStatus option"

definition handleStatus :: "int \<Rightarrow> server \<Rightarrow> statusResponse response" where
  "handleStatus now srv =
     JSON 200 \<lparr>srIndexer = Status (srvIndexer srv), srSnapshotAgeMs = holderAge now (srvHolder srv) sdiv 1000000,
       srRefreshEveryMs = Interval (srvIndexer srv) sdiv 1000000, srMaxHops = cMaxHops (srvCfg srv),
       srMode = serverMode srv, srWSClients = srvClients srv,
       srRPC = map_option (\<lambda>(stats, b). \<lparr>rsInFlight = stInFlight stats, rsCompleted = stCompleted stats,
         rsFailed = stFailed stats, rsRetried = stRetried stats, rsRejected = stRejected stats, rsBreakerState = b\<rparr>)
         (srvRpcStats srv)\<rparr>"

record healthResponse =
  heStatus :: string
  heSnapshotAgeMs :: int
  hePools :: nat
  heMode :: string
  heDetail :: string

definition staleAfterIntervals :: int where "staleAfterIntervals = 3"

definition handleHealth :: "int \<Rightarrow> server \<Rightarrow> healthResponse response" where
  "handleHealth now srv =
     (case holderGet (srvHolder srv) of
        None \<Rightarrow> JSON 503 \<lparr>heStatus = ''warming'', heSnapshotAgeMs = 0, hePools = 0, heMode = serverMode srv,
            heDetail = ''no pool snapshot has been built yet''\<rparr>
      | Some snap \<Rightarrow>
          let age = Age now snap;
              limit = wrap64 (Interval (srvIndexer srv) * staleAfterIntervals);
              resp = \<lparr>heStatus = ''ok'', heSnapshotAgeMs = age sdiv 1000000, hePools = length (snapshotPools snap),
                      heMode = serverMode srv, heDetail = ''''\<rparr>
          in if age > limit then JSON 503 (resp\<lparr>heStatus := ''stale'', 
               heDetail := ''snapshot is older than '' @ durationString limit @ ''; quotes may not reflect current liquidity''\<rparr>)
             else JSON 200 (case LastError (srvIndexer srv) of None \<Rightarrow> resp | Some err \<Rightarrow> resp\<lparr>heDetail := err\<rparr>))"

subsection \<open>Properties\<close>

lemma applySlippage_bounds:
  assumes "0 \<le> amount" "0 \<le> bps" "bps \<le> 10000"
  shows "0 \<le> applySlippage amount bps" "applySlippage amount bps \<le> amount"
    "10000 * applySlippage amount bps \<le> amount * (10000 - bps)" "amount * (10000 - bps) < 10000 * (applySlippage amount bps + 1)"
proof -
  have eq: "applySlippage amount bps = amount * (10000 - bps) div 10000" by (simp add: applySlippage_def go_div_pos)
  have div10000: "10000 * (x div 10000) \<le> x \<and> x < 10000 * (x div 10000 + 1)" for x :: int by presburger
  have nonneg: "0 \<le> amount * (10000 - bps)" using assms by simp
  then show "0 \<le> applySlippage amount bps" by (simp add: eq pos_imp_zdiv_nonneg_iff)
  have "amount * (10000 - bps) \<le> amount * 10000" using assms by (intro mult_left_mono) simp_all
  then have "amount * (10000 - bps) div 10000 \<le> amount * 10000 div 10000" by (intro zdiv_mono1) simp_all
  then show "applySlippage amount bps \<le> amount" by (simp add: eq)
  show "10000 * applySlippage amount bps \<le> amount * (10000 - bps)" "amount * (10000 - bps) < 10000 * (applySlippage amount bps + 1)"
    unfolding eq using div10000[of "amount * (10000 - bps)"] by simp_all
qed

lemma length_hopsOf: "length (hopsOf s es a) = length es"
  by (induction s es a rule: hopsOf.induct) (simp_all add: Let_def)

lemma boundedParam_range: "boundedParam raw lo hi def = Some n \<Longrightarrow> lo \<le> def \<Longrightarrow> def \<le> hi \<Longrightarrow> lo \<le> n \<and> n \<le> hi"
  by (auto simp: boundedParam_def split: if_splits option.splits)

lemma handleQuote_JSON:
  assumes "handleQuote other elapsed now srv q = Ok (JSON code body)"
  obtains snap tin tout a hops slip r where "holderGet (srvHolder srv) = Some snap" "code = 200"
    "resolveToken (q ''tokenIn'') = Some tin" "resolveToken (q ''tokenOut'') = Some tout" "parseAmount other (q ''amountIn'') tin = Inr a"
    "boundedParam (q ''maxHops'') 1 6 (cMaxHops (srvCfg srv)) = Some hops" "boundedParam (q ''slippageBps'') 0 10000 50 = Some slip"
    "FindBestRoute (Some snap) (tokAddress tin) (tokAddress tout) (Some a) hops = Ok r"
    "body = buildQuoteResponse now snap r tin tout slip elapsed"
  using assms
  by (auto simp: handleQuote_def defaultSlippageBps_def split: option.splits sum.splits outcome.splits route_error.splits)

text \<open>C5. A quote that is answered is right: the amounts are those of a real path of at most the requested
  number of hops between the two tokens, executed on the snapshot being served; the decimal strings in the
  answer read back as exactly those amounts; and the guaranteed minimum is the output less the slippage,
  rounded down, never more than the output.\<close>

theorem handleQuote_sound:
  assumes "handleQuote other elapsed now srv q = Ok (JSON code body)"
    and "holderGet (srvHolder srv) = Some (BuildSnapshot pools builtAt)"
  shows "code = 200 \<and> (\<exists>tin tout a hops slip src dst es out m.
      resolveToken (q ''tokenIn'') = Some tin \<and> resolveToken (q ''tokenOut'') = Some tout
    \<and> parseAmount other (q ''amountIn'') tin = Inr a \<and> boundedParam (q ''maxHops'') 1 6 (cMaxHops (srvCfg srv)) = Some hops
    \<and> boundedParam (q ''slippageBps'') 0 10000 50 = Some slip
    \<and> tokenIndex (BuildSnapshot pools builtAt) (tokAddress tin) = Some src \<and> tokenIndex (BuildSnapshot pools builtAt) (tokAddress tout) = Some dst
    \<and> walk (BuildSnapshot pools builtAt) src es dst \<and> distinct (map ePool es) \<and> int (length es) \<le> hops
    \<and> runPath (edgeQuote (BuildSnapshot pools builtAt)) es a = Some out
    \<and> setString (qrAmountIn body) = Some a \<and> setString (qrAmountOut body) = Some out \<and> setString (qrMinReceived body) = Some m
    \<and> 0 \<le> m \<and> m \<le> out \<and> 10000 * m \<le> out * (10000 - slip) \<and> out * (10000 - slip) < 10000 * (m + 1)
    \<and> qrRoute body = map hopToJSON (hopsOf (BuildSnapshot pools builtAt) es a) \<and> qrHops body = length es)"
proof (rule handleQuote_JSON[OF assms(1)])
  fix snap tin tout a hops slip r
  assume h: "holderGet (srvHolder srv) = Some snap" "code = 200" "resolveToken (q ''tokenIn'') = Some tin" "resolveToken (q ''tokenOut'') = Some tout"
    "parseAmount other (q ''amountIn'') tin = Inr a" "boundedParam (q ''maxHops'') 1 6 (cMaxHops (srvCfg srv)) = Some hops"
    "boundedParam (q ''slippageBps'') 0 10000 50 = Some slip"
    "FindBestRoute (Some snap) (tokAddress tin) (tokAddress tout) (Some a) hops = Ok r"
    "body = buildQuoteResponse now snap r tin tout slip elapsed"
  have snap: "snap = BuildSnapshot pools builtAt" using h(1) assms(2) by simp
  from built.route_sound[OF h(8)[unfolded snap]] obtain src dst es where r:
    "tokenIndex snap (tokAddress tin) = Some src" "tokenIndex snap (tokAddress tout) = Some dst" "es \<noteq> []" "int (length es) \<le> hops"
    "walk snap src es dst" "distinct (map ePool es)" "runPath (edgeQuote snap) es a = Some (rAmountOut r)" "rHops r = hopsOf snap es a" "rAmountIn r = a"
    unfolding snap by auto
  have "0 \<le> rAmountOut r" using edgeQuote_pos[OF r(7,3)] by simp
  moreover have "0 \<le> slip" "slip \<le> 10000" using boundedParam_range[OF h(7)] by simp_all
  ultimately have m: "0 \<le> applySlippage (rAmountOut r) slip" "applySlippage (rAmountOut r) slip \<le> rAmountOut r"
    "10000 * applySlippage (rAmountOut r) slip \<le> rAmountOut r * (10000 - slip)"
    "rAmountOut r * (10000 - slip) < 10000 * (applySlippage (rAmountOut r) slip + 1)"
    using applySlippage_bounds by blast+
  have b: "setString (qrAmountIn body) = Some a" "setString (qrAmountOut body) = Some (rAmountOut r)"
    "setString (qrMinReceived body) = Some (applySlippage (rAmountOut r) slip)" "qrRoute body = map hopToJSON (hopsOf snap es a)"
    "qrHops body = length es"
    using r by (simp_all add: h(9) buildQuoteResponse_def Let_def setString_intString length_hopsOf)
  show ?thesis using h(2-7) r m b unfolding snap by blast
qed

definition quotePool :: pool where
  "quotePool = (v2Pool ''0xpool'' (tokAddress (registry ! 0)) (tokAddress (registry ! 1)) 1000000 3000000)\<lparr>poolSimulated := True\<rparr>"

definition quoteServer :: server where
  "quoteServer = \<lparr>srvHolder = \<lparr>hCurrent = Some (BuildSnapshot [quotePool] 5)\<rparr>, srvIndexer = exampleIndexer, srvCfg = defaultConfig,
     srvRpcStats = None, srvClients = 0\<rparr>"

definition quoteQuery :: "string \<Rightarrow> string" where
  "quoteQuery key = (if key = ''tokenIn'' then ''weth'' else if key = ''tokenOut'' then '' USDC '' else if key = ''amountIn'' then ''1000''
     else if key = ''maxHops'' then ''1'' else if key = ''slippageBps'' then ''100'' else [])"

lemma quote_example_route:
  obtains r where "FindBestRoute (Some (BuildSnapshot [quotePool] 5)) (tokAddress (registry ! 0)) (tokAddress (registry ! 1)) (Some 1000) 1 = Ok r"
proof -
  have "(case FindBestRoute (Some (BuildSnapshot [quotePool] 5)) (tokAddress (registry ! 0)) (tokAddress (registry ! 1)) (Some 1000) 1 of
      Ok _ \<Rightarrow> True | _ \<Rightarrow> False)"
    by code_simp
  then show ?thesis using that by (auto split: outcome.splits)
qed

lemma quote_example_params:
  "resolveToken (quoteQuery ''tokenIn'') = Some (registry ! 0)" "resolveToken (quoteQuery ''tokenOut'') = Some (registry ! 1)"
  "parseAmount other (quoteQuery ''amountIn'') (registry ! 0) = Inr 1000" "boundedParam (quoteQuery ''maxHops'') 1 6 d = Some 1"
  "boundedParam (quoteQuery ''slippageBps'') 0 10000 e = Some 100"
  by code_simp+

lemma quote_example:
  obtains body where "handleQuote other 2000 9 quoteServer quoteQuery = Ok (JSON 200 body)" "qrSlippageBps body = 100"
proof -
  obtain r where "FindBestRoute (Some (BuildSnapshot [quotePool] 5)) (tokAddress (registry ! 0)) (tokAddress (registry ! 1)) (Some 1000) 1 = Ok r"
    by (rule quote_example_route)
  then have "handleQuote other 2000 9 quoteServer quoteQuery
      = Ok (JSON 200 (buildQuoteResponse 9 (BuildSnapshot [quotePool] 5) r (registry ! 0) (registry ! 1) 100 2000))"
    by (simp add: handleQuote_def quote_example_params holderGet_def quoteServer_def)
  then show ?thesis by (rule that) (simp add: buildQuoteResponse_def Let_def)
qed

theorem handleQuote_sound_witness:
  "\<exists>body out m. handleQuote (\<lambda>_. None) 2000 9 quoteServer quoteQuery = Ok (JSON 200 body) \<and> setString (qrAmountIn body) = Some 1000
     \<and> setString (qrAmountOut body) = Some out \<and> setString (qrMinReceived body) = Some m \<and> 10000 * m \<le> out * 9900 \<and> qrHops body \<le> 1"
proof -
  obtain body where r: "handleQuote (\<lambda>_. None) 2000 9 quoteServer quoteQuery = Ok (JSON 200 body)" by (rule quote_example)
  have "holderGet (srvHolder quoteServer) = Some (BuildSnapshot [quotePool] 5)" by (simp add: quoteServer_def holderGet_def)
  from handleQuote_sound[OF r this] show ?thesis using r by (fastforce simp: quote_example_params)
qed



text \<open>C21. Readiness follows the refreshes: after a successful refresh the health check answers 200, with the number
  of pools being served and what went wrong with the sources that failed as its detail, until three refresh intervals have passed since that snapshot was built, and 503
  \<^verbatim>\<open>stale\<close> from then on until the next one succeeds; a partial failure does not make the service unready.
  Before the first snapshot it answers 503.\<close>

theorem handleHealth_ready:
  assumes "RefreshOnce client start polled afterPoll builtAt (ix, st) = (None, ix', st')" "length polled = length (ixSources ix)"
    and "srvHolder srv = ixHolder ix'" "srvIndexer srv = ix'" "0 < ixInterval ix" "3 * ixInterval ix < 2 ^ 63"
  shows "(if now - builtAt \<le> 3 * ixInterval ix
          then \<exists>resp. handleHealth now srv = JSON 200 resp \<and> heStatus resp = ''ok'' \<and> hePools resp = sPools (Status ix')
            \<and> heDetail resp = (case LastError ix' of None \<Rightarrow> '''' | Some err \<Rightarrow> err)
          else \<exists>resp. handleHealth now srv = JSON 503 resp \<and> heStatus resp = ''stale'')
    \<and> (\<exists>resp. handleHealth now (srv\<lparr>srvHolder := NewHolder\<rparr>) = JSON 503 resp)"
proof -
  let ?snap = "BuildSnapshot (healthyPools polled) builtAt"
  have h: "holderGet (ixHolder ix') = Some ?snap" "ixInterval ix' = ixInterval ix" "sPools (ixStatus ix') = length (snPools ?snap)"
    using RefreshOnce_success(2)[OF assms(1,2)] by auto
  have "wrap64 (ixInterval ix * 3) = ixInterval ix * 3"
    using assms(5,6) by (intro wrap64_id) (simp add: isInt64_def minInt64_def maxInt64_def)
  then show ?thesis
    using h assms(3,4)
    by (auto simp: handleHealth_def Let_def Age_def BuildSnapshot_builtAt Interval_def staleAfterIntervals_def Status_def
        snapshotPools_def holderGet_def NewHolder_def split: option.split)
qed

theorem handleHealth_ready_witness:
  "\<exists>ix' st'. RefreshOnce exampleRedis 0 [Inl ''down'', Inr [storedPool]] 3 7 (exampleIndexer, None) = (None, ix', st')
     \<and> (\<exists>resp. handleHealth 1000 (quoteServer\<lparr>srvHolder := ixHolder ix', srvIndexer := ix'\<rparr>) = JSON 200 resp)
     \<and> (\<exists>resp. handleHealth 18000000008 (quoteServer\<lparr>srvHolder := ixHolder ix', srvIndexer := ix'\<rparr>) = JSON 503 resp)"
proof -
  obtain ix' st' where run: "RefreshOnce exampleRedis 0 [Inl ''down'', Inr [storedPool]] 3 7 (exampleIndexer, None) = (None, ix', st')"
    by (rule exampleRefresh)
  have "length [Inl ''down'', Inr [storedPool]] = length (ixSources exampleIndexer)" "ixInterval exampleIndexer = 6000000000"
    by (simp_all add: exampleIndexer_def NewIndexer_def)
  then show ?thesis
    using handleHealth_ready[OF run, of "quoteServer\<lparr>srvHolder := ixHolder ix', srvIndexer := ix'\<rparr>" 1000]
      handleHealth_ready[OF run, of "quoteServer\<lparr>srvHolder := ixHolder ix', srvIndexer := ix'\<rparr>" 18000000008] run
    by auto
qed

end
