(* ===== verification/Dex_Sim.thy ===== *)
theory Dex_Sim
  imports Indexer Go_Float
begin

section \<open>The simulated source (\<^verbatim>\<open>internal/dex/sim/source.go\<close>)\<close>

text \<open>
  Prices and depths are \<^verbatim>\<open>float64\<close> computations, modelled with their rounding (one operation at a time; no
  operations are fused). The pseudo-random generator of \<^verbatim>\<open>math/rand\<close>, \<^verbatim>\<open>math.Log\<close>, \<^verbatim>\<open>math.Pow\<close> and the
  machine's conversion of an out-of-range number to \<^verbatim>\<open>int32\<close> are parameters. A number that is not finite makes
  the conversion to a big integer panic. A float literal is the nearest \<^verbatim>\<open>float64\<close>.
\<close>

record 'r goRand =
  rngNew :: "int \<Rightarrow> 'r"
  rngFloat64 :: "'r \<Rightarrow> gofloat \<times> 'r"
  rngIntn :: "'r \<Rightarrow> int \<Rightarrow> int \<times> 'r"

record goMath =
  mathLog :: "gofloat \<Rightarrow> gofloat"
  mathPow :: "gofloat \<Rightarrow> gofloat \<Rightarrow> gofloat"
  toInt32 :: "gofloat \<Rightarrow> int"

record simSource =
  simSeed :: int

definition NewSim :: "int \<Rightarrow> simSource" where "NewSim seed = \<lparr>simSeed = seed\<rparr>"

definition simName :: string where "simName = ''simulated''"

definition usdPrices :: "string \<Rightarrow> gofloat" where
  "usdPrices symbol =
     (case map_of [(''WETH'', 3000), (''USDC'', 1), (''USDT'', 1), (''DAI'', 1), (''WBTC'', 60000), (''LINK'', 15), (''UNI'', 8),
        (''AAVE'', 250)] symbol of
        None \<Rightarrow> Fin 0
      | Some p \<Rightarrow> Fin p)"

record venue =
  vProtocol :: protocol
  vFeeBps :: nat
  vTvlUSD :: gofloat

datatype sim_error = NoReferencePrice string string | SimTick int amm_error | SimContext string

subsection \<open>Pairs\<close>

definition bySymbol :: "token list \<Rightarrow> string \<Rightarrow> token" where
  "bySymbol tokens symbol =
     (case find (\<lambda>t. tokSymbol t = symbol) (rev tokens) of
        None \<Rightarrow> \<lparr>tokAddress = [], tokSymbol = [], tokDecimals = 0\<rparr>
      | Some t \<Rightarrow> t)"

definition pairKey :: "token \<Rightarrow> token \<Rightarrow> string" where
  "pairKey a b =
     (let x = toLower (tokSymbol a); y = toLower (tokSymbol b)
      in if x > y then y @ ''/'' @ x else x @ ''/'' @ y)"

definition addPair :: "token \<Rightarrow> token \<Rightarrow> (token \<times> token) list \<times> string list \<Rightarrow> (token \<times> token) list \<times> string list" where
  "addPair a b st =
     (case st of (out, seen) \<Rightarrow>
      if tokAddress a = [] \<or> tokAddress b = [] \<or> equalFold (tokAddress a) (tokAddress b) then (out, seen)
      else let key = pairKey a b
           in if key \<in> set seen then (out, seen) else (out @ [(a, b)], key # seen))"

definition pairsToGenerate :: "token list \<Rightarrow> (token \<times> token) list" where
  "pairsToGenerate tokens =
     (let weth = bySymbol tokens ''WETH'';
          usdc = bySymbol tokens ''USDC'';
          st = fold (addPair weth) tokens ([], []);
          st = fold (addPair usdc) tokens st;
          st = addPair (bySymbol tokens ''USDC'') (bySymbol tokens ''USDT'') st;
          st = addPair (bySymbol tokens ''DAI'') (bySymbol tokens ''USDT'') st;
          st = addPair (bySymbol tokens ''WBTC'') (bySymbol tokens ''DAI'') st
      in sort_key (\<lambda>(a, b). pairKey a b) (fst st))"

subsection \<open>One pool\<close>

definition venuesFor :: "'r goRand \<Rightarrow> 'r \<Rightarrow> venue list \<times> 'r" where
  "venuesFor rand rng =
     (let (u, rng) = rngFloat64 rand rng;
          base = Fin 2000000 + u * Fin 20000000;
          (v, rng) = rngFloat64 rand rng;
          vs = [\<lparr>vProtocol = UniswapV3, vFeeBps = 30, vTvlUSD = base\<rparr>,
                \<lparr>vProtocol = SushiswapV2, vFeeBps = 30,
                 vTvlUSD = base * (roundFloat (2 / 10) + v * roundFloat (6 / 10))\<rparr>];
          (n, rng) = rngIntn rand rng 10
      in if n < 6 then
           let (w, rng) = rngFloat64 rand rng
           in (vs @ [\<lparr>vProtocol = UniswapV3, vFeeBps = 5,
                 vTvlUSD = base * (roundFloat (5 / 100) + w * roundFloat (25 / 100))\<rparr>], rng)
         else (vs, rng))"

text \<open>\<^verbatim>\<open>SetFloat64\<close> fixes the precision at 53 bits, so the product is rounded to 53 bits. \<open>None\<close> is a panic.\<close>

definition rawAmount :: "gofloat \<Rightarrow> nat \<Rightarrow> int option" where
  "rawAmount units decimals =
     (let units = (if units < 0 then 0 else units)
      in case units of
           Fin r \<Rightarrow>
             let out = (if r = 0 then 0
                        else case quotient_of (r * 10 ^ decimals) of (n, d) \<Rightarrow> truncFloat (toPrec 53 n d))
             in Some (if out \<le> 0 then 1 else out)
         | _ \<Rightarrow> None)"

definition portion :: "int \<Rightarrow> int \<Rightarrow> int" where
  "portion liquidity distance =
     (let out = go_div liquidity (wrap64 (distance * 4)) in if out \<le> 0 then 1 else out)"

definition stepOffset :: "int \<Rightarrow> int \<Rightarrow> int" where
  "stepOffset i spacing = wrap32 (wrap32 (i * 20) * spacing)"

definition buildTicks :: "int \<Rightarrow> int \<Rightarrow> int \<Rightarrow> v3tick list" where
  "buildTicks current spacing liquidity =
     List.map_filter (\<lambda>i.
         let idx = wrap32 (current - stepOffset i spacing)
         in if idx < MinTick then None
            else Some \<lparr>Index = idx, LiquidityNet = Some (portion liquidity i), SqrtRatioX96 = None\<rparr>) (rev [1..8])
     @ List.map_filter (\<lambda>i.
         let idx = wrap32 (current + stepOffset i spacing)
         in if idx > MaxTick then None
            else Some \<lparr>Index = idx, LiquidityNet = Some (- portion liquidity i), SqrtRatioX96 = None\<rparr>) [1..8]"

definition isInt32 :: "int \<Rightarrow> bool" where "isInt32 x \<longleftrightarrow> - (2 ^ 31) \<le> x \<and> x < 2 ^ 31"

text \<open>\<^verbatim>\<open>math.Round\<close>: half away from zero.\<close>

fun mathRound :: "gofloat \<Rightarrow> gofloat" where
  "mathRound (Fin r) = Fin (if r < 0 then - of_int \<lfloor>- r + 1 / 2\<rfloor> else of_int \<lfloor>r + 1 / 2\<rfloor>)"
| "mathRound x = x"

definition simSpacing :: int where "simSpacing = 60"

definition clampTick :: "int \<Rightarrow> int" where
  "clampTick tick =
     (let tick = wrap32 (tick - tick smod simSpacing);
          tick = (if tick < MinTick then MinTick - MinTick smod simSpacing else tick)
      in if tick > MaxTick then MaxTick - MaxTick smod simSpacing else tick)"

definition rawTick :: "goMath \<Rightarrow> gofloat \<Rightarrow> gofloat \<Rightarrow> pool \<Rightarrow> int" where
  "rawTick mth price0 price1 p =
     (let rawPrice = price0 / price1 *
            mathPow mth (Fin 10) (floatOfInt (int (tokDecimals (poolToken1 p))) - floatOfInt (int (tokDecimals (poolToken0 p))))
      in wrap32 (floatToInt isInt32 (toInt32 mth) (mathRound (mathLog mth rawPrice / mathLog mth (roundFloat (10001 / 10000))))))"

definition fillV3 :: "goMath \<Rightarrow> gofloat \<Rightarrow> gofloat \<Rightarrow> gofloat \<Rightarrow> pool \<Rightarrow> (sim_error, pool) outcome" where
  "fillV3 mth price0 price1 tvlUSD p =
     (let tick = clampTick (rawTick mth price0 price1 p)
      in case GetSqrtRatioAtTick tick of
           Inl e \<Rightarrow> Err (SimTick tick e)
         | Inr sqrtP \<Rightarrow>
             (case rawAmount (tvlUSD / Fin 2 / price1) (tokDecimals (poolToken1 p)) of
                None \<Rightarrow> Panic
              | Some y \<Rightarrow>
                  let liquidity = go_div (y * 2 ^ 96) sqrtP;
                      liquidity = (if liquidity \<le> 0 then 1 else liquidity)
                  in Ok (p\<lparr>poolSqrtPriceX96 := Some sqrtP, poolLiquidity := Some liquidity, poolTick := tick,
                           poolTickSpacing := simSpacing, poolTicks := buildTicks tick simSpacing liquidity\<rparr>)))"

text \<open>\<^verbatim>\<open>%037x\<close>.\<close>

fun hexDigits :: "nat \<Rightarrow> nat \<Rightarrow> string" where
  "hexDigits 0 n = []"
| "hexDigits (Suc w) n = hexDigits w (n div 16) @ [''0123456789abcdef'' ! (n mod 16)]"

definition simAddress :: "nat \<Rightarrow> string" where "simAddress idx = ''0xsim'' @ hexDigits 37 idx"

definition generate :: "'r goRand \<Rightarrow> goMath \<Rightarrow> 'r \<Rightarrow> nat \<Rightarrow> token \<Rightarrow> token \<Rightarrow> venue \<Rightarrow> (sim_error, pool) outcome \<times> 'r" where
  "generate rand mth rng idx a b v =
     (let (t0, t1) = (if toLower (tokAddress a) > toLower (tokAddress b) then (b, a) else (a, b));
          price0 = usdPrices (tokSymbol t0);
          price1 = usdPrices (tokSymbol t1)
      in if nonPositive price0 \<or> nonPositive price1 then (Err (NoReferencePrice (tokSymbol t0) (tokSymbol t1)), rng)
         else
           let (u, rng) = rngFloat64 rand rng;
               price1 = price1 * (1 + (u - roundFloat (5 / 10)) * roundFloat (8 / 1000));
               p = \<lparr>poolAddress = simAddress idx, poolProtocol = vProtocol v, poolToken0 = t0, poolToken1 = t1,
                    poolFeeBps = vFeeBps v, poolSimulated = True, poolReserve0 = None, poolReserve1 = None,
                    poolSqrtPriceX96 = None, poolLiquidity = None, poolTick = 0, poolTickSpacing = 0, poolTicks = []\<rparr>
           in ((if vProtocol v = SushiswapV2 then
                  case rawAmount (vTvlUSD v / Fin 2 / price0) (tokDecimals t0) of None \<Rightarrow> Panic | Some r0 \<Rightarrow>
                  case rawAmount (vTvlUSD v / Fin 2 / price1) (tokDecimals t1) of None \<Rightarrow> Panic | Some r1 \<Rightarrow>
                    Ok (p\<lparr>poolReserve0 := Some r0, poolReserve1 := Some r1\<rparr>)
                else if vProtocol v = UniswapV3 then fillV3 mth price0 price1 (vTvlUSD v) p
                else Ok p), rng))"

subsection \<open>The pool set\<close>

fun genVenues :: "'r goRand \<Rightarrow> goMath \<Rightarrow> token \<times> token \<Rightarrow> venue list \<Rightarrow> pool list \<times> 'r \<Rightarrow> (sim_error, pool list \<times> 'r) outcome" where
  "genVenues rand mth pr [] st = Ok st"
| "genVenues rand mth pr (v # vs) st =
     (case st of (pools, rng) \<Rightarrow>
      case generate rand mth rng (length pools) (fst pr) (snd pr) v of
        (Ok p, rng) \<Rightarrow> genVenues rand mth pr vs (pools @ [p], rng)
      | (Err e, rng) \<Rightarrow> Err e
      | (Panic, rng) \<Rightarrow> Panic)"

fun genPairs :: "'r goRand \<Rightarrow> goMath \<Rightarrow> (token \<times> token) list \<Rightarrow> pool list \<times> 'r \<Rightarrow> (sim_error, pool list \<times> 'r) outcome" where
  "genPairs rand mth [] st = Ok st"
| "genPairs rand mth (pr # prs) st =
     (case st of (pools, rng) \<Rightarrow>
      case venuesFor rand rng of (vs, rng) \<Rightarrow>
      case genVenues rand mth pr vs (pools, rng) of
        Ok st \<Rightarrow> genPairs rand mth prs st
      | Err e \<Rightarrow> Err e
      | Panic \<Rightarrow> Panic)"

definition simPools :: "'r goRand \<Rightarrow> goMath \<Rightarrow> string option \<Rightarrow> simSource \<Rightarrow> (sim_error, pool list) outcome" where
  "simPools rand mth ctxErr s =
     (case ctxErr of
        Some err \<Rightarrow> Err (SimContext err)
      | None \<Rightarrow> map_outcome_ok fst (genPairs rand mth (pairsToGenerate Tokens) ([], rngNew rand (simSeed s))))"

subsection \<open>Ticks\<close>

lemma map_filter_if: "List.map_filter (\<lambda>i. if P i then None else Some (h i)) xs = map h (filter (\<lambda>i. \<not> P i) xs)"
  by (induction xs) (simp_all add: map_filter_simps)

lemma clampTick_range: "MinTick \<le> clampTick t \<and> clampTick t \<le> MaxTick"
  by (simp add: clampTick_def Let_def MinTick_def MaxTick_def simSpacing_def signed_modulo_int_def signed_divide_int_def)

lemma GetSqrtRatioAtTick_total: "MinTick \<le> t \<Longrightarrow> t \<le> MaxTick \<Longrightarrow> \<exists>r. GetSqrtRatioAtTick t = Inr r \<and> 0 < r"
  using GetSqrtRatioAtTick_Inl_iff[of t] GetSqrtRatioAtTick_pos[of t] by (cases "GetSqrtRatioAtTick t") auto

lemma step_index:
  assumes "MinTick \<le> c" "c \<le> MaxTick" "1 \<le> i" "i \<le> 8"
  shows "wrap32 (c - stepOffset i simSpacing) = c - 1200 * i" "wrap32 (c + stepOffset i simSpacing) = c + 1200 * i"
proof -
  have "stepOffset i simSpacing = 1200 * i" using assms(3,4) by (simp add: stepOffset_def wrap32_id simSpacing_def)
  then show "wrap32 (c - stepOffset i simSpacing) = c - 1200 * i" "wrap32 (c + stepOffset i simSpacing) = c + 1200 * i"
    using assms by (simp_all add: wrap32_id MinTick_def MaxTick_def)
qed

text \<open>The layout in closed form: ticks every 1200 indices, eight to each side, as far as they are in range.\<close>

lemma buildTicks_eq:
  assumes "MinTick \<le> c" "c \<le> MaxTick"
  shows "buildTicks c simSpacing L =
      map (\<lambda>i. \<lparr>Index = c - 1200 * i, LiquidityNet = Some (portion L i), SqrtRatioX96 = None\<rparr>) (filter (\<lambda>i. MinTick \<le> c - 1200 * i) (rev [1..8]))
    @ map (\<lambda>i. \<lparr>Index = c + 1200 * i, LiquidityNet = Some (- portion L i), SqrtRatioX96 = None\<rparr>) (filter (\<lambda>i. c + 1200 * i \<le> MaxTick) [1..8])"
proof -
  have cong: "List.map_filter f xs = List.map_filter g xs" if "\<forall>x \<in> set xs. f x = g x" for f g :: "int \<Rightarrow> v3tick option" and xs
    using that by (induction xs) (auto simp: map_filter_simps split: option.split)
  have "List.map_filter (\<lambda>i. let idx = wrap32 (c - stepOffset i simSpacing) in if idx < MinTick then None
            else Some \<lparr>Index = idx, LiquidityNet = Some (portion L i), SqrtRatioX96 = None\<rparr>) (rev [1..8])
      = List.map_filter (\<lambda>i. if \<not> MinTick \<le> c - 1200 * i then None
            else Some \<lparr>Index = c - 1200 * i, LiquidityNet = Some (portion L i), SqrtRatioX96 = None\<rparr>) (rev [1..8])"
    using step_index[OF assms] by (intro cong) (simp add: Let_def not_le)
  moreover have "List.map_filter (\<lambda>i. let idx = wrap32 (c + stepOffset i simSpacing) in if idx > MaxTick then None
            else Some \<lparr>Index = idx, LiquidityNet = Some (- portion L i), SqrtRatioX96 = None\<rparr>) [1..8]
      = List.map_filter (\<lambda>i. if \<not> c + 1200 * i \<le> MaxTick then None
            else Some \<lparr>Index = c + 1200 * i, LiquidityNet = Some (- portion L i), SqrtRatioX96 = None\<rparr>) [1..8]"
    using step_index[OF assms] by (intro cong) (simp add: Let_def not_le)
  ultimately show ?thesis unfolding buildTicks_def map_filter_if by simp
qed

lemma buildTicks_sorted:
  assumes "MinTick \<le> c" "c \<le> MaxTick"
  shows "sorted_wrt (<) (map Index (buildTicks c simSpacing L))"
proof -
  have "sorted_wrt (\<lambda>i j. c - 1200 * i < c - 1200 * j) (rev [1..8 :: int])" "sorted_wrt (\<lambda>i j. c + 1200 * i < c + 1200 * j) [1..8 :: int]"
    by (simp_all add: upto.simps)
  then show ?thesis
    unfolding buildTicks_eq[OF assms]
    by (simp add: sorted_wrt_append sorted_wrt_map sorted_wrt_filter)
qed

lemma buildTicks_range:
  assumes "MinTick \<le> c" "c \<le> MaxTick" "t \<in> set (buildTicks c simSpacing L)"
  shows "MinTick \<le> Index t" "Index t \<le> MaxTick" "LiquidityNet t \<noteq> None" "SqrtRatioX96 t = None"
  using assms by (auto simp: buildTicks_eq)

lemma buildTicks_ok: "MinTick \<le> c \<Longrightarrow> c \<le> MaxTick \<Longrightarrow> list_all tick_ok (buildTicks c simSpacing L)"
  using buildTicks_range[of c _ L] GetSqrtRatioAtTick_total by (fastforce simp: list_all_iff tick_ok_def)

lemma buildTicks_prepare: "MinTick \<le> c \<Longrightarrow> c \<le> MaxTick \<Longrightarrow> \<exists>ts. PrepareTicks (buildTicks c simSpacing L) = Inr ts"
proof -
  assume c: "MinTick \<le> c" "c \<le> MaxTick"
  have "\<forall>t \<in> set (buildTicks c simSpacing L). \<exists>r. targetSqrt t = Inr r"
    using buildTicks_ok[OF c, of L] by (auto simp: list_all_iff elim: tick_ok_target)
  then show ?thesis using fillRatios_Inr[of "sort_key Index (buildTicks c simSpacing L)"] by (auto simp: PrepareTicks_def)
qed

text \<open>What is removed on each side is less than what is there.\<close>

lemma portion_eq: "32 \<le> L \<Longrightarrow> 1 \<le> i \<Longrightarrow> i \<le> 8 \<Longrightarrow> portion L i = L div (4 * i) \<and> 0 < portion L i"
proof -
  assume a: "32 \<le> L" "1 \<le> i" "i \<le> 8"
  then have "1 \<le> L div (4 * i)" by (simp add: le_div_iff)
  then show ?thesis using a by (simp add: portion_def Let_def wrap64_def go_div_pos mult.commute)
qed

lemma portions_total: "32 \<le> L \<Longrightarrow> sum_list (map (portion L) [1..8]) < L"
proof -
  assume L: "32 \<le> L"
  define q where "q i = L div (4 * i)" for i
  have q: "4 * i * q i \<le> L" if "1 \<le> i" for i
    using that le_div_iff[of "4 * i" "L div (4 * i)" L] by (simp add: q_def mult.commute)
  have "portion L i = q i" if "i \<in> set [1..8]" for i using that portion_eq[OF L, of i] by (simp add: q_def)
  then have "map (portion L) [1..8] = map q [1..8]" by simp
  also have "\<dots> = [q 1, q 2, q 3, q 4, q 5, q 6, q 7, q 8]" by (simp add: upto.simps)
  finally have "sum_list (map (portion L) [1..8]) = q 1 + q 2 + q 3 + q 4 + q 5 + q 6 + q 7 + q 8" by simp
  then show ?thesis
    using L q[of 1] q[of 2] q[of 3] q[of 4] q[of 5] q[of 6] q[of 7] q[of 8] by simp
qed

subsection \<open>Finite results\<close>

lemma roundFloat_neg: "roundFloat (- x) = fneg (roundFloat x)"
  by (auto simp: roundFloat_def Let_def sgn_if)

lemma pow100: "(2 :: rat) ^ 100 \<le> 2 ^ 1023"
  by (intro power_increasing) simp_all

lemma roundFloat_near:
  assumes "\<bar>x\<bar> \<le> 2 ^ 100"
  shows "\<exists>y. roundFloat x = Fin y \<and> \<bar>y - x\<bar> \<le> (\<bar>x\<bar> + 1) / 1000"
proof -
  have "\<bar>x\<bar> \<le> 2 ^ 1023" using assms pow100 by (rule order_trans)
  then obtain y where y: "roundFloat \<bar>x\<bar> = Fin y" "\<bar>y - \<bar>x\<bar>\<bar> \<le> \<bar>x\<bar> * ulp + tiny"
    using roundFloat_error[OF abs_ge_zero[of x]] by blast
  have u: "ulp \<le> 1 / 1000" by (simp add: ulp_def)
  have "\<bar>x\<bar> * ulp \<le> \<bar>x\<bar> * (1 / 1000)" using u by (intro mult_left_mono) simp_all
  then have near: "\<bar>y - \<bar>x\<bar>\<bar> \<le> (\<bar>x\<bar> + 1) / 1000" using y(2) u ulp_small(4) by (simp add: add_divide_distrib)
  show ?thesis
  proof (cases "0 \<le> x")
    case False
    then have "roundFloat x = Fin (- y)" using y(1) roundFloat_neg[of "- x"] by simp
    moreover have "\<bar>- y - x\<bar> = \<bar>y - \<bar>x\<bar>\<bar>" using False by simp
    ultimately show ?thesis using near by auto
  qed (use y(1) near in auto)
qed

definition fin_in :: "rat \<Rightarrow> rat \<Rightarrow> gofloat \<Rightarrow> bool" where
  "fin_in lo hi f \<longleftrightarrow> (\<exists>y. f = Fin y \<and> lo \<le> y \<and> y \<le> hi)"

lemma fin_in_weaken: "fin_in a b f \<Longrightarrow> a' \<le> a \<Longrightarrow> b \<le> b' \<Longrightarrow> fin_in a' b' f"
  by (auto simp: fin_in_def)

lemma roundFloat_in:
  assumes "0 \<le> x" "x \<le> a" "a \<le> 2 ^ 100"
  shows "fin_in 0 (2 * a + 1) (roundFloat x)"
proof -
  have "x \<le> 2 ^ 1023" using assms pow100 by (meson order_trans)
  from roundFloat_error[OF assms(1) this] obtain y where y: "roundFloat x = Fin y" "0 \<le> y" "\<bar>y - x\<bar> \<le> x * ulp + tiny" .
  have "x * ulp \<le> x * 1" using assms(1) ulp_small by (intro mult_left_mono) auto
  then show ?thesis using y assms(2) abs_le_D1[OF y(3)] ulp_small by (simp add: fin_in_def)
qed

lemma fadd_in:
  assumes "fin_in 0 a x" "fin_in 0 b y" "a + b \<le> 2 ^ 100"
  shows "fin_in 0 (2 * (a + b) + 1) (fadd x y)"
proof -
  obtain u v where "x = Fin u" "0 \<le> u" "u \<le> a" "y = Fin v" "0 \<le> v" "v \<le> b" using assms(1,2) by (auto simp: fin_in_def)
  then show ?thesis using roundFloat_in[of "u + v" "a + b", OF _ _ assms(3)] by simp
qed

lemma fmul_in:
  assumes "fin_in 0 a x" "fin_in 0 b y" "a * b \<le> 2 ^ 100"
  shows "fin_in 0 (2 * (a * b) + 1) (fmul x y)"
proof -
  obtain u v where "x = Fin u" "0 \<le> u" "u \<le> a" "y = Fin v" "0 \<le> v" "v \<le> b" using assms(1,2) by (auto simp: fin_in_def)
  then show ?thesis using roundFloat_in[of "u * v" "a * b", OF _ _ assms(3)] by (simp add: mult_mono)
qed

lemma fdiv_in:
  assumes "fin_in 0 a x" "fin_in c b y" "0 < c" "a / c \<le> 2 ^ 100"
  shows "fin_in 0 (2 * (a / c) + 1) (fdiv x y)"
proof -
  obtain u v where "x = Fin u" "0 \<le> u" "u \<le> a" "y = Fin v" "c \<le> v" using assms(1,2) by (auto simp: fin_in_def)
  moreover from this have "u / v \<le> a / c" using assms(3) by (intro frac_le) simp_all
  ultimately show ?thesis using roundFloat_in[of "u / v" "a / c", OF _ _ assms(4)] assms(3) by simp
qed

text \<open>What is documented of \<^verbatim>\<open>rand.Float64\<close>.\<close>

definition rand_unit :: "'r goRand \<Rightarrow> bool" where
  "rand_unit rand \<longleftrightarrow> (\<forall>rng. \<exists>x. fst (rngFloat64 rand rng) = Fin x \<and> 0 \<le> x \<and> x < 1)"

lemma rand_unit_in: "rand_unit rand \<Longrightarrow> rngFloat64 rand rng = (u, rng') \<Longrightarrow> fin_in 0 1 u"
  unfolding rand_unit_def fin_in_def by (metis fst_conv less_imp_le)

lemma venuesFor_ok:
  assumes "rand_unit rand" "venuesFor rand rng = (vs, rng')"
  shows "list_all (\<lambda>v. (vProtocol v = SushiswapV2 \<or> vProtocol v = UniswapV3) \<and> fin_in 0 4000000000 (vTvlUSD v)) vs"
    "2 \<le> length vs" "length vs \<le> 3"
proof -
  have base: "fin_in 0 84000005 (fadd (Fin 2000000) (fmul u (Fin 20000000)))" if "fin_in 0 1 u" for u
  proof -
    have "fin_in 0 40000001 (fmul u (Fin 20000000))" using fmul_in[OF that, of 20000000 "Fin 20000000"] by (simp add: fin_in_def)
    from fadd_in[of 2000000 "Fin 2000000", OF _ this] show ?thesis by (auto simp: fin_in_def)
  qed
  have part: "fin_in 0 4000000000 (fmul (fadd (Fin 2000000) (fmul u (Fin 20000000))) (fadd (roundFloat c) (fmul w (roundFloat d))))"
    if "fin_in 0 1 u" "fin_in 0 1 w" "0 \<le> c" "c \<le> 1" "0 \<le> d" "d \<le> 1" for u w c d
  proof -
    have "fin_in 0 3 (roundFloat c)" "fin_in 0 3 (roundFloat d)" using roundFloat_in[of c 1] roundFloat_in[of d 1] that by simp_all
    then have "fin_in 0 7 (fmul w (roundFloat d))" using fmul_in[OF that(2), of 3] by simp
    with \<open>fin_in 0 3 (roundFloat c)\<close> have "fin_in 0 21 (fadd (roundFloat c) (fmul w (roundFloat d)))" using fadd_in[of 3 _ 7] by simp
    from fmul_in[OF base[OF that(1)] this] show ?thesis by (auto elim: fin_in_weaken)
  qed
  obtain u r1 v r2 n r3 w r4 where e: "rngFloat64 rand rng = (u, r1)" "rngFloat64 rand r1 = (v, r2)" "rngIntn rand r2 10 = (n, r3)" "rngFloat64 rand r3 = (w, r4)"
    by (metis surj_pair)
  then have "fin_in 0 1 u" "fin_in 0 1 v" "fin_in 0 1 w" using rand_unit_in[OF assms(1)] by blast+
  then show "list_all (\<lambda>v. (vProtocol v = SushiswapV2 \<or> vProtocol v = UniswapV3) \<and> fin_in 0 4000000000 (vTvlUSD v)) vs"
    using assms(2) e part[of u v "2 / 10" "6 / 10"] part[of u w "5 / 100" "25 / 100"] fin_in_weaken[OF base[of u], of 0 4000000000]
    by (auto simp: venuesFor_def Let_def split: if_splits)
  show "2 \<le> length vs" "length vs \<le> 3" using assms(2) e by (auto simp: venuesFor_def Let_def split: if_splits)
qed

lemma roundFloat_between:
  assumes "lo \<le> x" "x \<le> hi" "- b \<le> lo" "hi \<le> b" "b \<le> 2 ^ 100"
  shows "fin_in (lo - (b + 1) / 1000) (hi + (b + 1) / 1000) (roundFloat x)"
proof -
  have x: "\<bar>x\<bar> \<le> b" using assms by (simp add: abs_le_iff)
  then have "\<bar>x\<bar> \<le> 2 ^ 100" using assms(5) by (rule order_trans)
  then obtain y where y: "roundFloat x = Fin y" "\<bar>y - x\<bar> \<le> (\<bar>x\<bar> + 1) / 1000" using roundFloat_near by blast
  have "(\<bar>x\<bar> + 1) / 1000 \<le> (b + 1) / 1000" using x by (intro divide_right_mono) simp_all
  then have "lo - (b + 1) / 1000 \<le> y" "y \<le> hi + (b + 1) / 1000"
    using abs_le_D1[OF y(2)] abs_le_D2[OF y(2)] assms(1,2) by linarith+
  then show ?thesis using y(1) by (simp add: fin_in_def)
qed

lemma dispersion_in:
  assumes "fin_in 0 1 u"
  shows "fin_in (9 / 10) (11 / 10) (fadd (Fin 1) (fmul (fsub u (roundFloat (5 / 10))) (roundFloat (8 / 1000))))"
proof -
  obtain x where x: "u = Fin x" "0 \<le> x" "x \<le> 1" using assms by (auto simp: fin_in_def)
  obtain h where h: "roundFloat (5 / 10) = Fin h" "4 / 10 \<le> h" "h \<le> 6 / 10"
    using roundFloat_between[of "5 / 10" "5 / 10" "5 / 10" 1] by (auto simp: fin_in_def)
  obtain l where l: "roundFloat (8 / 1000) = Fin l" "0 \<le> l" "l \<le> 2 / 100"
    using roundFloat_between[of "8 / 1000" "8 / 1000" "8 / 1000" 1] by (auto simp: fin_in_def)
  obtain m where m: "roundFloat (x - h) = Fin m" "- 1 \<le> m" "m \<le> 1"
    using roundFloat_between[of "- (6 / 10)" "x - h" "6 / 10" 1] x h by (auto simp: fin_in_def)
  have "\<bar>m\<bar> * \<bar>l\<bar> \<le> 1 * (2 / 100)" using m l by (intro mult_mono) (simp_all add: abs_le_iff)
  then have "\<bar>m * l\<bar> \<le> 2 / 100" by (simp add: abs_mult)
  then have "- (2 / 100) \<le> m * l" "m * l \<le> 2 / 100" by (simp_all add: abs_le_iff)
  then obtain n where n: "roundFloat (m * l) = Fin n" "- (3 / 100) \<le> n" "n \<le> 3 / 100"
    using roundFloat_between[of "- (2 / 100)" "m * l" "2 / 100" 1] by (auto simp: fin_in_def)
  have "fin_in (9 / 10) (11 / 10) (roundFloat (1 + n))"
    using n roundFloat_between[of "97 / 100" "1 + n" "103 / 100" 2] by (auto elim!: fin_in_weaken)
  then show ?thesis using x h l m n by (simp add: fsub_def)
qed

lemma price1_in:
  assumes "fin_in 0 1 u" "1 \<le> p" "p \<le> 60000"
  shows "fin_in (8 / 10) 70000 (fmul (Fin p) (fadd (Fin 1) (fmul (fsub u (roundFloat (5 / 10))) (roundFloat (8 / 1000)))))"
proof -
  obtain z where z: "fadd (Fin 1) (fmul (fsub u (roundFloat (5 / 10))) (roundFloat (8 / 1000))) = Fin z" "9 / 10 \<le> z" "z \<le> 11 / 10"
    using dispersion_in[OF assms(1)] by (auto simp: fin_in_def)
  have near: "\<bar>p * z\<bar> \<le> 2 ^ 100" "9 / 10 \<le> p * z" "p * z \<le> 66000"
  proof -
    have "1 * (9 / 10) \<le> p * z" "p * z \<le> 60000 * (11 / 10)" using z assms by (intro mult_mono; simp)+
    then show "9 / 10 \<le> p * z" "p * z \<le> 66000" by simp_all
    then show "\<bar>p * z\<bar> \<le> 2 ^ 100" by (simp add: abs_le_iff)
  qed
  obtain y where y: "roundFloat (p * z) = Fin y" "\<bar>y - p * z\<bar> \<le> (\<bar>p * z\<bar> + 1) / 1000" using roundFloat_near[OF near(1)] by blast
  have "\<bar>p * z\<bar> = p * z" using near(2) by simp
  then have "8 / 10 \<le> y" "y \<le> 70000" using abs_le_D1[OF y(2)] abs_le_D2[OF y(2)] near(2,3) by (simp_all add: add_divide_distrib)
  then show ?thesis unfolding z(1) using y(1) by (simp add: fin_in_def)
qed

lemma units_in:
  assumes "fin_in 0 4000000000 tvl" "fin_in (8 / 10) 70000 price"
  shows "\<exists>r. fdiv (fdiv tvl (Fin 2)) price = Fin r"
proof -
  have "fin_in 0 4000000001 (fdiv tvl (Fin 2))" using fdiv_in[OF assms(1), of 2 2 "Fin 2"] by (simp add: fin_in_def)
  from fdiv_in[OF this assms(2)] show ?thesis by (auto simp: fin_in_def)
qed

lemma rawAmount_pos: "\<exists>n. rawAmount (Fin r) d = Some n \<and> 0 < n"
  by (simp add: rawAmount_def Let_def)

subsection \<open>Pairs\<close>

definition priced :: "token \<Rightarrow> bool" where
  "priced t \<longleftrightarrow> (case usdPrices (tokSymbol t) of Fin p \<Rightarrow> 1 \<le> p \<and> p \<le> 60000 | _ \<Rightarrow> False)"

definition pair_ok :: "token \<times> token \<Rightarrow> bool" where
  "pair_ok pr \<longleftrightarrow> tokAddress (fst pr) \<noteq> [] \<and> tokAddress (snd pr) \<noteq> [] \<and> \<not> equalFold (tokAddress (fst pr)) (tokAddress (snd pr))
     \<and> priced (fst pr) \<and> priced (snd pr)"

lemma registry_priced: "t \<in> set Tokens \<Longrightarrow> priced t"
proof -
  have "list_all priced Tokens" by (simp add: Tokens_def registry_def priced_def usdPrices_def)
  then show "t \<in> set Tokens \<Longrightarrow> priced t" by (simp add: list_all_iff)
qed

definition pairs_inv :: "nat \<Rightarrow> (token \<times> token) list \<times> string list \<Rightarrow> bool" where
  "pairs_inv n st \<longleftrightarrow> list_all pair_ok (fst st) \<and> length (fst st) \<le> n \<and> set (snd st) = (\<lambda>(a, b). pairKey a b) ` set (fst st)
     \<and> distinct (map (\<lambda>(a, b). pairKey a b) (fst st))"

definition known :: "token list \<Rightarrow> token \<Rightarrow> bool" where
  "known tokens t \<longleftrightarrow> t \<in> set tokens \<or> tokAddress t = []"

lemma bySymbol_known: "known tokens (bySymbol tokens s)"
  by (auto simp: known_def bySymbol_def find_Some_iff split: option.split dest: nth_mem) (metis length_rev nth_mem set_rev)

lemma addPair_inv:
  assumes "pairs_inv n st" "known Tokens a" "known Tokens b"
  shows "pairs_inv (Suc n) (addPair a b st)"
  using assms registry_priced
  by (cases st) (auto simp: pairs_inv_def addPair_def Let_def pair_ok_def known_def)

lemma fold_addPair_inv:
  assumes "pairs_inv n st" "known Tokens a" "set ts \<subseteq> set Tokens"
  shows "pairs_inv (n + length ts) (fold (addPair a) ts st)"
  using assms
proof (induction ts arbitrary: n st)
  case (Cons t ts)
  then have "pairs_inv (Suc n) (addPair a t st)" by (intro addPair_inv) (auto simp: known_def)
  then show ?case using Cons.IH[of "Suc n"] Cons.prems by simp
qed simp

lemma pairsToGenerate_ok:
  shows "list_all pair_ok (pairsToGenerate Tokens)" "length (pairsToGenerate Tokens) \<le> 19"
    "sorted_wrt (<) (map (\<lambda>(a, b). pairKey a b) (pairsToGenerate Tokens))"
proof -
  have "pairs_inv 0 ([], [])" by (simp add: pairs_inv_def)
  from fold_addPair_inv[OF fold_addPair_inv[OF this bySymbol_known subset_refl] bySymbol_known subset_refl]
  have "pairs_inv (Suc (Suc (Suc (0 + length Tokens + length Tokens))))
    (addPair (bySymbol Tokens ''WBTC'') (bySymbol Tokens ''DAI'') (addPair (bySymbol Tokens ''DAI'') (bySymbol Tokens ''USDT'')
      (addPair (bySymbol Tokens ''USDC'') (bySymbol Tokens ''USDT'')
        (fold (addPair (bySymbol Tokens ''USDC'')) Tokens (fold (addPair (bySymbol Tokens ''WETH'')) Tokens ([], []))))))"
    by (intro addPair_inv bySymbol_known)
  moreover have "Suc (Suc (Suc (0 + length Tokens + length Tokens))) = 19" by (simp add: Tokens_def registry_def)
  ultimately obtain st where st: "pairs_inv 19 st" "pairsToGenerate Tokens = sort_key (\<lambda>(a, b). pairKey a b) (fst st)"
    unfolding pairsToGenerate_def Let_def by metis
  show "list_all pair_ok (pairsToGenerate Tokens)" "length (pairsToGenerate Tokens) \<le> 19"
    using st by (simp_all add: pairs_inv_def list_all_iff)
  have "distinct (map (\<lambda>(a, b). pairKey a b) (pairsToGenerate Tokens))"
    using st by (simp add: pairs_inv_def distinct_map)
  then show "sorted_wrt (<) (map (\<lambda>(a, b). pairKey a b) (pairsToGenerate Tokens))"
    unfolding strict_sorted_iff st(2) by simp
qed

subsection \<open>Generated pools\<close>

definition sim_pool :: "nat \<Rightarrow> pool \<Rightarrow> bool" where
  "sim_pool idx p \<longleftrightarrow> poolAddress p = simAddress idx \<and> poolSimulated p \<and> usable p \<and> prepare p \<noteq> None
     \<and> (poolProtocol p = UniswapV3 \<longrightarrow> v3_wf (v3State p) \<and> sorted_wrt (<) (map Index (poolTicks p)))"

lemma price_at_own_tick: "GetSqrtRatioAtTick t = Inr r \<Longrightarrow> price_at_tick r t"
  using GetSqrtRatioAtTick_less[of t r "t + 1"] by (auto simp: price_at_tick_def split: sum.split)

lemma protocols_differ: "UniswapV3 \<noteq> SushiswapV2" "SushiswapV2 \<noteq> UniswapV3"
  by (simp_all add: UniswapV3_def SushiswapV2_def)

text \<open>What every V3 pool looks like, whatever the floating-point numbers were.\<close>

lemma fillV3_eq:
  obtains c s where "MinTick \<le> c" "c \<le> MaxTick" "GetSqrtRatioAtTick c = Inr s" "0 < s"
    "fillV3 mth price0 price1 tvl p =
       (case rawAmount (fdiv (fdiv tvl (Fin 2)) price1) (tokDecimals (poolToken1 p)) of
          None \<Rightarrow> Panic
        | Some y \<Rightarrow> Ok (p\<lparr>poolSqrtPriceX96 := Some s, poolLiquidity := Some (max 1 (go_div (y * 2 ^ 96) s)), poolTick := c,
                          poolTickSpacing := simSpacing, poolTicks := buildTicks c simSpacing (max 1 (go_div (y * 2 ^ 96) s))\<rparr>))"
proof -
  define c where "c = clampTick (rawTick mth price0 price1 p)"
  have c: "MinTick \<le> c" "c \<le> MaxTick" using clampTick_range by (simp_all add: c_def)
  obtain s where s: "GetSqrtRatioAtTick c = Inr s" "0 < s" using GetSqrtRatioAtTick_total[OF c] by blast
  have "(if x \<le> 0 then 1 else x) = max 1 x" for x :: int by simp
  then show thesis using that[OF c s] by (simp only: fillV3_def float_ops Let_def s sum.case flip: c_def)
qed

lemma fillV3_shape:
  assumes "fillV3 mth price0 price1 tvl p = Ok q"
  shows "\<exists>c r L. MinTick \<le> c \<and> c \<le> MaxTick \<and> GetSqrtRatioAtTick c = Inr r \<and> 0 < r \<and> 0 < L
    \<and> q = p\<lparr>poolSqrtPriceX96 := Some r, poolLiquidity := Some L, poolTick := c, poolTickSpacing := simSpacing,
            poolTicks := buildTicks c simSpacing L\<rparr>"
proof (rule fillV3_eq[of mth price0 price1 tvl p])
  fix c s
  assume "MinTick \<le> c" "c \<le> MaxTick" "GetSqrtRatioAtTick c = Inr s" "0 < s"
    and "fillV3 mth price0 price1 tvl p =
       (case rawAmount (fdiv (fdiv tvl (Fin 2)) price1) (tokDecimals (poolToken1 p)) of
          None \<Rightarrow> Panic
        | Some y \<Rightarrow> Ok (p\<lparr>poolSqrtPriceX96 := Some s, poolLiquidity := Some (max 1 (go_div (y * 2 ^ 96) s)), poolTick := c,
                          poolTickSpacing := simSpacing, poolTicks := buildTicks c simSpacing (max 1 (go_div (y * 2 ^ 96) s))\<rparr>))"
  moreover obtain L where "L = max 1 (go_div (the (rawAmount (fdiv (fdiv tvl (Fin 2)) price1) (tokDecimals (poolToken1 p))) * 2 ^ 96) s)" "0 < L"
    by simp
  ultimately show ?thesis using assms by (intro exI[of _ c] exI[of _ s] exI[of _ L]) (simp split: option.splits)
qed

lemma fillV3_total:
  assumes "fdiv (fdiv tvl (Fin 2)) price1 = Fin u"
  shows "\<exists>q. fillV3 mth price0 price1 tvl p = Ok q"
proof -
  obtain n where n: "rawAmount (Fin u) (tokDecimals (poolToken1 p)) = Some n" using rawAmount_pos by blast
  show ?thesis by (rule fillV3_eq[of mth price0 price1 tvl p]) (simp add: assms n)
qed

lemma generate_ok:
  assumes "pair_ok (a, b)" "rand_unit rand" "vProtocol v = SushiswapV2 \<or> vProtocol v = UniswapV3" "fin_in 0 4000000000 (vTvlUSD v)"
  shows "\<exists>p rng'. generate rand mth rng idx a b v = (Ok p, rng') \<and> sim_pool idx p"
proof -
  define t0 t1 where "t0 = (if toLower (tokAddress a) > toLower (tokAddress b) then b else a)"
    and "t1 = (if toLower (tokAddress a) > toLower (tokAddress b) then a else b)"
  have ord: "(if toLower (tokAddress a) > toLower (tokAddress b) then (b, a) else (a, b)) = (t0, t1)" by (simp add: t0_def t1_def)
  have tok: "tokAddress t0 \<noteq> []" "tokAddress t1 \<noteq> []" "\<not> equalFold (tokAddress t0) (tokAddress t1)" "priced t0" "priced t1"
    using assms(1) by (auto simp: pair_ok_def t0_def t1_def equalFold_def)
  obtain p0 where p0: "usdPrices (tokSymbol t0) = Fin p0" "1 \<le> p0" "p0 \<le> 60000" using tok(4) by (auto simp: priced_def split: gofloat.splits)
  obtain p1 where p1: "usdPrices (tokSymbol t1) = Fin p1" "1 \<le> p1" "p1 \<le> 60000" using tok(5) by (auto simp: priced_def split: gofloat.splits)
  obtain u rng' where u: "rngFloat64 rand rng = (u, rng')" by fastforce
  define d where "d = fadd (Fin 1) (fmul (fsub u (roundFloat (5 / 10))) (roundFloat (8 / 1000)))"
  have "fin_in (8 / 10) 70000 (fmul (Fin p1) d)" unfolding d_def using price1_in[OF rand_unit_in[OF assms(2) u] p1(2,3)] .
  then obtain x1 where x1: "fdiv (fdiv (vTvlUSD v) (Fin 2)) (fmul (Fin p1) d) = Fin x1" using units_in[OF assms(4)] by blast
  obtain x0 where x0: "fdiv (fdiv (vTvlUSD v) (Fin 2)) (Fin p0) = Fin x0" using units_in[OF assms(4), of "Fin p0"] p0 by (auto simp: fin_in_def)
  obtain r0 r1 where r: "rawAmount (Fin x0) (tokDecimals t0) = Some r0" "0 < r0" "rawAmount (Fin x1) (tokDecimals t1) = Some r1" "0 < r1"
    using rawAmount_pos by metis
  define p where "p = \<lparr>poolAddress = simAddress idx, poolProtocol = vProtocol v, poolToken0 = t0, poolToken1 = t1,
      poolFeeBps = vFeeBps v, poolSimulated = True, poolReserve0 = None, poolReserve1 = None, poolSqrtPriceX96 = None,
      poolLiquidity = None, poolTick = 0, poolTickSpacing = 0, poolTicks = []\<rparr>"
  have gen: "generate rand mth rng idx a b v = ((if vProtocol v = SushiswapV2 then Ok (p\<lparr>poolReserve0 := Some r0, poolReserve1 := Some r1\<rparr>)
      else if vProtocol v = UniswapV3 then fillV3 mth (Fin p0) (fmul (Fin p1) d) (vTvlUSD v) p else Ok p), rng')"
    unfolding generate_def float_ops ord Let_def prod.case u p0(1) p1(1) d_def[symmetric] p_def[symmetric] x0 x1 r option.case
    using p0(2) p1(2) by simp
  from assms(3) show ?thesis
  proof
    assume "vProtocol v = SushiswapV2"
    then show ?thesis unfolding gen using tok r protocols_differ by (simp add: sim_pool_def usable_def prepare_def p_def)
  next
    assume v3: "vProtocol v = UniswapV3"
    obtain q where q: "fillV3 mth (Fin p0) (fmul (Fin p1) d) (vTvlUSD v) p = Ok q" using fillV3_total[OF x1] by blast
    from fillV3_shape[OF q] obtain c s L where c: "MinTick \<le> c" "c \<le> MaxTick" "GetSqrtRatioAtTick c = Inr s" "0 < s" "0 < L"
      "q = p\<lparr>poolSqrtPriceX96 := Some s, poolLiquidity := Some L, poolTick := c, poolTickSpacing := simSpacing, poolTicks := buildTicks c simSpacing L\<rparr>"
      by blast
    have "sim_pool idx q"
      using c tok v3 protocols_differ buildTicks_prepare[OF c(1,2), of L] buildTicks_ok[OF c(1,2)] buildTicks_sorted[OF c(1,2)] price_at_own_tick[OF c(3)]
      by (auto simp: sim_pool_def usable_def prepare_def p_def v3_wf_def v3State_def)
    then show ?thesis unfolding gen using v3 q protocols_differ by simp
  qed
qed

text \<open>The pools so far are numbered from zero.\<close>

definition numbered :: "pool list \<Rightarrow> bool" where
  "numbered ps \<longleftrightarrow> (\<forall>i < length ps. sim_pool i (ps ! i))"

lemma numbered_snoc: "numbered ps \<Longrightarrow> sim_pool (length ps) p \<Longrightarrow> numbered (ps @ [p])"
  by (auto simp: numbered_def nth_append less_Suc_eq)

lemma genVenues_ok:
  assumes "pair_ok pr" "rand_unit rand" "numbered ps"
    "list_all (\<lambda>v. (vProtocol v = SushiswapV2 \<or> vProtocol v = UniswapV3) \<and> fin_in 0 4000000000 (vTvlUSD v)) vs"
  shows "\<exists>ps' rng'. genVenues rand mth pr vs (ps, rng) = Ok (ps', rng') \<and> numbered ps' \<and> length ps' = length ps + length vs"
  using assms(3,4)
proof (induction vs arbitrary: ps rng)
  case (Cons v vs)
  obtain p rng' where g: "generate rand mth rng (length ps) (fst pr) (snd pr) v = (Ok p, rng')" "sim_pool (length ps) p"
    using generate_ok[of "fst pr" "snd pr" rand v mth rng "length ps"] assms(1,2) Cons.prems(2) by auto
  then show ?case using Cons.IH[OF numbered_snoc[OF Cons.prems(1) g(2)], of rng'] Cons.prems(2) by auto
qed auto

lemma genPairs_ok:
  assumes "list_all pair_ok prs" "rand_unit rand" "numbered ps"
  shows "\<exists>ps' rng'. genPairs rand mth prs (ps, rng) = Ok (ps', rng') \<and> numbered ps'
    \<and> length ps + 2 * length prs \<le> length ps' \<and> length ps' \<le> length ps + 3 * length prs"
  using assms(1,3)
proof (induction prs arbitrary: ps rng)
  case (Cons pr prs)
  obtain vs rng1 where vs: "venuesFor rand rng = (vs, rng1)" by fastforce
  note ok = venuesFor_ok[OF assms(2) vs]
  obtain ps1 rng2 where g: "genVenues rand mth pr vs (ps, rng1) = Ok (ps1, rng2)" "numbered ps1" "length ps1 = length ps + length vs"
    using genVenues_ok[OF _ assms(2) Cons.prems(2) ok(1), of pr mth rng1] Cons.prems(1) by auto
  from Cons.IH[OF _ g(2), of rng2] Cons.prems(1) obtain ps' rng' where
    "genPairs rand mth prs (ps1, rng2) = Ok (ps', rng')" "numbered ps'" "length ps1 + 2 * length prs \<le> length ps'" "length ps' \<le> length ps1 + 3 * length prs"
    by auto
  then show ?case using vs g ok(2,3) by simp
qed auto

text \<open>What every generated pool looks like, whatever the parameters do.\<close>

definition sim_shape :: "pool \<Rightarrow> bool" where
  "sim_shape p \<longleftrightarrow> poolSimulated p \<and> (poolTicks p = [] \<or> (\<exists>c L. MinTick \<le> c \<and> c \<le> MaxTick \<and> 0 < L
     \<and> poolTick p = c \<and> poolLiquidity p = Some L \<and> poolTicks p = buildTicks c simSpacing L))"

lemma generate_shape: "generate rand mth rng idx a b v = (Ok p, rng') \<Longrightarrow> sim_shape p"
  by (fastforce simp: generate_def sim_shape_def Let_def split: prod.splits if_splits option.splits dest!: fillV3_shape)

lemma genVenues_shape:
  "genVenues rand mth pr vs (ps, rng) = Ok (ps', rng') \<Longrightarrow> list_all sim_shape ps \<Longrightarrow> list_all sim_shape ps'"
proof (induction vs arbitrary: ps rng)
  case (Cons v vs)
  then show ?case using generate_shape[of rand mth rng "length ps" "fst pr" "snd pr" v] by (fastforce split: prod.splits outcome.splits)
qed simp

lemma genPairs_shape:
  "genPairs rand mth prs (ps, rng) = Ok (ps', rng') \<Longrightarrow> list_all sim_shape ps \<Longrightarrow> list_all sim_shape ps'"
proof (induction prs arbitrary: ps rng)
  case (Cons pr prs)
  then show ?case using genVenues_shape[of rand mth pr] by (fastforce split: prod.splits outcome.splits)
qed simp

lemma simPools_shape: "simPools rand mth ctxErr s = Ok ps \<Longrightarrow> list_all sim_shape ps"
  using genPairs_shape[of rand mth "pairsToGenerate Tokens" "[]"] by (fastforce simp: simPools_def split: option.splits)

lemma sim_shape_ticks: "sim_shape p \<Longrightarrow> ticks_complete p \<and> ticks_uncached p"
  using buildTicks_range by (fastforce simp: sim_shape_def ticks_complete_def ticks_uncached_def list_all_iff)

lemma simPools_ticks: "simPools rand mth ctxErr s = Ok ps \<Longrightarrow> list_all ticks_complete ps \<and> list_all ticks_uncached ps"
  using simPools_shape[of rand mth ctxErr s ps] sim_shape_ticks by (auto simp: list_all_iff)

interpretation sims: pool_source "\<lambda>env. simPools (fst env) (fst (snd env)) (snd (snd env)) s" for s
  by unfold_locales (use simPools_ticks in blast)+

lemma hexDigits_inj: "n < 16 ^ w \<Longrightarrow> m < 16 ^ w \<Longrightarrow> hexDigits w n = hexDigits w m \<Longrightarrow> n = m"
proof (induction w arbitrary: n m)
  case (Suc w)
  have digit: "i = j" if "i < 16" "j < 16" "''0123456789abcdef'' ! i = ''0123456789abcdef'' ! j" for i j
  proof -
    have "distinct ''0123456789abcdef''" by simp
    then show ?thesis using that nth_eq_iff_index_eq[of "''0123456789abcdef''" i j] by simp
  qed
  have "n div 16 = m div 16" using Suc.prems by (intro Suc.IH) (auto simp: div_less_iff_less_mult mult.commute)
  moreover have "n mod 16 = m mod 16" using Suc.prems(3) by (intro digit) simp_all
  ultimately show ?case by (metis div_mult_mod_eq)
qed simp

lemma simPools_complete:
  assumes "rand_unit rand"
  shows "\<exists>ps. simPools rand mth None s = Ok ps \<and> 2 * length (pairsToGenerate Tokens) \<le> length ps
    \<and> list_all poolSimulated ps \<and> distinct (map poolAddress ps)
    \<and> list_all (\<lambda>p. poolProtocol p = UniswapV3 \<longrightarrow> v3_wf (v3State p) \<and> sorted_wrt (<) (map Index (poolTicks p))) ps
    \<and> map poolAddress (snapshotPools (BuildSnapshot ps builtAt)) = map poolAddress ps"
proof -
  obtain ps rng where g: "genPairs rand mth (pairsToGenerate Tokens) ([], rngNew rand (simSeed s)) = Ok (ps, rng)" "numbered ps"
    "2 * length (pairsToGenerate Tokens) \<le> length ps" "length ps \<le> 3 * length (pairsToGenerate Tokens)"
    using genPairs_ok[OF pairsToGenerate_ok(1) assms, of "[]" mth "rngNew rand (simSeed s)"] by (auto simp: numbered_def)
  have pools: "p \<in> set ps \<Longrightarrow> \<exists>i < length ps. sim_pool i p" for p using g(2) by (auto simp: numbered_def in_set_conv_nth)
  have "length ps \<le> 57" using le_trans[OF g(4) mult_le_mono2[OF pairsToGenerate_ok(2), of 3]] by simp
  also have "(57 :: nat) < 16 ^ 37" by simp
  finally have "length ps < 16 ^ 37" .
  then have "inj_on simAddress {..<length ps}" by (auto simp: inj_on_def simAddress_def intro: hexDigits_inj[of _ 37])
  moreover have "map poolAddress ps = map simAddress [0..<length ps]" using g(2) by (intro nth_equalityI) (auto simp: numbered_def sim_pool_def)
  ultimately have dist: "distinct (map poolAddress ps)" by (simp add: distinct_map atLeast_upt)
  have "map poolAddress (List.map_filter indexed ps) = map poolAddress ps"
  proof -
    have "\<exists>q. indexed p = Some q \<and> poolAddress q = poolAddress p" if "p \<in> set ps" for p
      using pools[OF that] by (auto simp: sim_pool_def indexed_def prepare_def split: if_splits sum.splits)
    then show ?thesis by (induction ps) (fastforce simp: map_filter_simps)+
  qed
  then have "map poolAddress (snapshotPools (BuildSnapshot ps builtAt)) = map poolAddress ps"
    by (simp add: snapshotPools_def BuildSnapshot_pools)
  moreover have "list_all poolSimulated ps"
    "list_all (\<lambda>p. poolProtocol p = UniswapV3 \<longrightarrow> v3_wf (v3State p) \<and> sorted_wrt (<) (map Index (poolTicks p))) ps"
    using pools by (auto simp: list_all_iff sim_pool_def)
  ultimately show ?thesis using g(1,3) dist by (simp add: simPools_def)
qed

subsection \<open>Properties\<close>

text \<open>C38. The simulated market is complete: whatever the seed, as long as the generator draws from the unit interval, the
  source returns its pools without an error or a panic, with at least two for each pair; every pool is marked as simulated,
  no two share an address, every concentrated-liquidity pool is in the state the swap theorems ask for, with its price at its
  tick and its ticks in range and in order, and the graph built from them leaves none of them out.\<close>

theorem simPools_indexed:
  assumes "rand_unit rand"
  shows "\<exists>ps. simPools rand mth None s = Ok ps \<and> 2 * length (pairsToGenerate Tokens) \<le> length ps
    \<and> list_all poolSimulated ps \<and> distinct (map poolAddress ps)
    \<and> list_all (\<lambda>p. poolProtocol p = UniswapV3 \<longrightarrow> v3_wf (v3State p) \<and> sorted_wrt (<) (map Index (poolTicks p))) ps
    \<and> map poolAddress (snapshotPools (BuildSnapshot ps builtAt)) = map poolAddress ps"
  using simPools_complete[OF assms] .

definition constRand :: "unit goRand" where
  "constRand = \<lparr>rngNew = (\<lambda>_. ()), rngFloat64 = (\<lambda>r. (Fin 0, r)), rngIntn = (\<lambda>r _. (7, r))\<rparr>"

definition constMath :: goMath where
  "constMath = \<lparr>mathLog = (\<lambda>_. Fin 1), mathPow = (\<lambda>_ _. Fin 1), toInt32 = (\<lambda>_. 0)\<rparr>"

theorem simPools_indexed_witness:
  "rand_unit constRand \<and> (\<exists>ps. simPools constRand constMath None (NewSim 7) = Ok ps \<and> distinct (map poolAddress ps))"
proof -
  have "rand_unit constRand" by (simp add: rand_unit_def constRand_def)
  then show ?thesis using simPools_indexed[of constRand constMath "NewSim 7" 0] by blast
qed

text \<open>Liquidity thins out but never runs dry inside the window: around every tick in range and from 32 units of liquidity on,
  the generated ticks are in order and in range, crossing one downwards or upwards always takes liquidity away, and all ticks of one
  side together take less than there is, so a swap inside the window always finds positive liquidity.\<close>

theorem buildTicks_liquidity:
  assumes "MinTick \<le> c" "c \<le> MaxTick" "32 \<le> L"
  shows "let ts = buildTicks c simSpacing L in
      sorted_wrt (<) (map Index ts)
    \<and> list_all (\<lambda>t. MinTick \<le> Index t \<and> Index t \<le> MaxTick
         \<and> (if Index t \<le> c then 0 < the (LiquidityNet t) else the (LiquidityNet t) < 0)) ts
    \<and> sum_list (map (\<lambda>t. the (LiquidityNet t)) (filter (\<lambda>t. Index t \<le> c) ts)) < L
    \<and> 0 < L + sum_list (map (\<lambda>t. the (LiquidityNet t)) (filter (\<lambda>t. c < Index t) ts))"
proof -
  let ?lo = "filter (\<lambda>i. MinTick \<le> c - 1200 * i) (rev [1..8])" and ?hi = "filter (\<lambda>i. c + 1200 * i \<le> MaxTick) [1..8]"
  have pos: "0 < portion L i" if "i \<in> set [1..8]" for i using portion_eq[OF assms(3), of i] that by simp
  have part: "sum_list (map (portion L) (filter P xs)) \<le> sum_list (map (portion L) xs)" if "set xs \<subseteq> set [1..8]" for P xs
    using that pos by (induction xs) (auto intro: add_increasing less_imp_le)
  have below: "filter (\<lambda>t. Index t \<le> c) (buildTicks c simSpacing L) = map (\<lambda>i. \<lparr>Index = c - 1200 * i, LiquidityNet = Some (portion L i), SqrtRatioX96 = None\<rparr>) ?lo"
    and above: "filter (\<lambda>t. c < Index t) (buildTicks c simSpacing L) = map (\<lambda>i. \<lparr>Index = c + 1200 * i, LiquidityNet = Some (- portion L i), SqrtRatioX96 = None\<rparr>) ?hi"
    unfolding buildTicks_eq[OF assms(1,2)] by (auto simp: filter_map comp_def filter_empty_conv intro!: map_cong filter_cong)
  have total: "sum_list (map (portion L) [1..8]) < L" "sum_list (map (portion L) (rev [1..8])) < L"
    using portions_total[OF assms(3)] by (simp_all flip: rev_map)
  have neg: "sum_list (map (\<lambda>i. - portion L i) xs) = - sum_list (map (portion L) xs)" for xs by (induction xs) simp_all
  have "sum_list (map (portion L) ?lo) < L" "sum_list (map (portion L) ?hi) < L"
    using part[of "rev [1..8]"] part[of "[1..8]"] total by (force intro: le_less_trans)+
  moreover have "list_all (\<lambda>t. MinTick \<le> Index t \<and> Index t \<le> MaxTick
      \<and> (if Index t \<le> c then 0 < the (LiquidityNet t) else the (LiquidityNet t) < 0)) (buildTicks c simSpacing L)"
    using pos assms(1,2) by (auto simp: buildTicks_eq[OF assms(1,2)] list_all_iff)
  ultimately show ?thesis using buildTicks_sorted[OF assms(1,2), of L] by (simp add: Let_def below above comp_def neg)
qed

theorem buildTicks_liquidity_witness:
  "sum_list (map (\<lambda>t. the (LiquidityNet t)) (filter (\<lambda>t. Index t \<le> 887220) (buildTicks 887220 simSpacing 1000))) < 1000"
  using buildTicks_liquidity[of 887220 1000] by (simp add: Let_def MinTick_def MaxTick_def)

end
