(* ===== verification/Command.thy ===== *)
theory Command
  imports Api_Server Dex_Sim
begin

section \<open>The command (\<^verbatim>\<open>cmd/aggregator/main.go\<close>)\<close>

text \<open>
  The start of the service, up to the server that is handed to \<^verbatim>\<open>http.Server\<close>: the settings are loaded, the store is
  opened, the sources are chosen, the stored pools are published, one refresh runs, the server is built (\<open>start\<close>); then it
  serves until the listener fails or a signal arrives, and the process exits (\<open>run\<close>, \<open>main\<close>). What goes on while it
  serves is \<open>Service\<close>. The world outside is a record: the random numbers and mathematics of the simulation, Keccak, what
  the provider answers to the two rounds of the V3 source and to the V2 source, what the sources' calls leave of the
  call pool they share, whether Redis answers a ping, and the clock. A panic in the goroutine of a source ends the
  process.
\<close>

datatype source = SimSource simSource | UniSource uniswapV3 | SushiSource sushiswapV2

record ('r, 'st) world =
  wRand :: "'r goRand"
  wMath :: goMath
  wKeccak :: "byte list \<Rightarrow> byte list"
  wRequest :: "nat \<Rightarrow> string \<Rightarrow> (mc_error, string) outcome"
  wErrText :: "onchain_error \<Rightarrow> string"
  wSimErrText :: "sim_error \<Rightarrow> string"
  wRedis :: "'st redisClient"
  wCalls :: "rpcPool \<Rightarrow> rpcPool"
  wClock :: "nat \<Rightarrow> int"

definition modeName :: "config \<Rightarrow> string" where
  "modeName cfg = (if LiveMode cfg then ''live'' else ''simulated'')"

definition openStore :: "'st redisClient \<Rightarrow> config \<Rightarrow> 'st \<Rightarrow> poolStore \<times> 'st" where
  "openStore client cfg st =
     (if cRedisURL cfg = [] then (NewNoopStore, st)
      else case NewRedisStore client (cRedisURL cfg) (10 * 60 * 1000000000) of
             Inl _ \<Rightarrow> (NewNoopStore, st)
           | Inr rs \<Rightarrow> if \<not> storePing client st then (NewNoopStore, snd (storeClose client rs st)) else (rs, st))"

text \<open>The sources with the pool and the multicaller they share, which are absent in simulated mode (no source uses a
  multicaller there); the limiter reads the clock.\<close>

definition buildSources :: "int \<Rightarrow> config \<Rightarrow> source list \<times> (rpcPool \<times> multicaller) option" where
  "buildSources now cfg =
     (if \<not> LiveMode cfg then ([SimSource (NewSim (cSimSeed cfg))], None)
      else
        let transport = NewHTTPTransport (cETHRPCURL cfg) (15 * 1000000000);
            pool = NewPool transport now \<lparr>cfgWorkers = cRPCWorkers cfg, cfgRatePerSec = cRPCRatePerSec cfg, cfgBurst = cRPCBurst cfg,
                            cfgMaxRetries = 3, cfgBaseBackoff = 200 * 1000000, cfgBreakerThreshold = 5,
                            cfgBreakerCooldown = 15 * 1000000000\<rparr>;
            mc = NewMulticaller Multicall3Address 100;
            tokens = Tokens
        in ([UniSource (NewUniswapV3 tokens DefaultV3FeeTiers), SushiSource (NewSushiswapV2 tokens)], Some (pool, mc)))"

primrec sourceName :: "source \<Rightarrow> string" where
  "sourceName (SimSource s) = simName"
| "sourceName (UniSource u) = ''uniswap-v3''"
| "sourceName (SushiSource s) = ''sushiswap-v2''"

text \<open>\<^verbatim>\<open>src.Pools(ctx)\<close> over the shared multicaller; \<open>None\<close> is a panic.\<close>

definition polledCell :: "('e \<Rightarrow> string) \<Rightarrow> ('e, pool list) outcome \<Rightarrow> (string + pool list) option" where
  "polledCell msg r = (case r of Ok ps \<Rightarrow> Some (Inr ps) | Err e \<Rightarrow> Some (Inl (msg e)) | Panic \<Rightarrow> None)"

definition pollSource :: "('r, 'st) world \<Rightarrow> multicaller \<Rightarrow> source \<Rightarrow> (string + pool list) option" where
  "pollSource w mc src =
     (let aggregate = (\<lambda>n. Aggregate (wKeccak w) (wRequest w n) mc)
      in case src of
           SimSource s \<Rightarrow> polledCell (wSimErrText w) (simPools (wRand w) (wMath w) None s)
         | UniSource u \<Rightarrow> polledCell (wErrText w) (uniswapPools (wKeccak w) (aggregate 0) (aggregate 1) u)
         | SushiSource s \<Rightarrow> polledCell (wErrText w) (sushiswapPools (wKeccak w) (aggregate 2) s))"

fun pollAll :: "('r, 'st) world \<Rightarrow> multicaller \<Rightarrow> source list \<Rightarrow> (string + pool list) list option" where
  "pollAll w mc [] = Some []"
| "pollAll w mc (s # ss) =
     (case pollSource w mc s of
        None \<Rightarrow> None
      | Some r \<Rightarrow> (case pollAll w mc ss of None \<Rightarrow> None | Some rs \<Rightarrow> Some (r # rs)))"

text \<open>The multicaller the sources share; the simulation needs none.\<close>

definition multicallerOf :: "(rpcPool \<times> multicaller) option \<Rightarrow> multicaller" where
  "multicallerOf rpc = (case rpc of Some (_, mc) \<Rightarrow> mc | None \<Rightarrow> NewMulticaller [] 0)"

definition NewServer :: "holder \<Rightarrow> indexer \<Rightarrow> config \<Rightarrow> server" where
  "NewServer h ix cfg = \<lparr>srvHolder = h, srvIndexer = ix, srvCfg = cfg, srvRpcStats = None, srvClients = 0\<rparr>"

definition WithRPCStats :: "(poolStats \<times> brState) option \<Rightarrow> server \<Rightarrow> server" where
  "WithRPCStats f srv = srv\<lparr>srvRpcStats := f\<rparr>"

definition start :: "parsers \<Rightarrow> (string \<Rightarrow> string option) \<Rightarrow> ('r, 'st) world \<Rightarrow> 'st \<Rightarrow> (config_error, server \<times> 'st) outcome" where
  "start ps env w st =
     (case Load ps env of
        Inl e \<Rightarrow> Err e
      | Inr cfg \<Rightarrow>
          let (store, st) = openStore (wRedis w) cfg st;
              (sources, rpc) = buildSources (wClock w 4) cfg;
              ix = NewIndexer (map sourceName sources) NewHolder (Some store) (cRefreshInterval cfg);
              (_, ix, st) = WarmStart (wRedis w) (wClock w 0) (ix, st)
          in case pollAll w (multicallerOf rpc) sources of
               None \<Rightarrow> Panic
             | Some polled \<Rightarrow>
                 let (_, ix, st) = RefreshOnce (wRedis w) (wClock w 1) polled (wClock w 2) (wClock w 3) (ix, st);
                     srv = NewServer (ixHolder ix) ix cfg;
                     srv = (case rpc of None \<Rightarrow> srv | Some (pool, _) \<Rightarrow>
                              let pool = wCalls w pool in WithRPCStats (Some (Stats pool, BreakerState pool)) srv)
                 in Ok (srv, st))"

text \<open>How serving ends: the listener fails, or a signal arrives and the shutdown succeeds or not.\<close>

datatype serveEnd = ListenFails string | Interrupted "string option"

datatype run_error = BadSettings config_error | ListenError string | ShutdownError string

definition run :: "parsers \<Rightarrow> (string \<Rightarrow> string option) \<Rightarrow> ('r, 'st) world \<Rightarrow> serveEnd \<Rightarrow> 'st \<Rightarrow> (run_error, unit) outcome" where
  "run ps env w ending st =
     (case start ps env w st of
        Err e \<Rightarrow> Err (BadSettings e)
      | Panic \<Rightarrow> Panic
      | Ok _ \<Rightarrow>
          (case ending of
             ListenFails e \<Rightarrow> Err (ListenError e)
           | Interrupted (Some e) \<Rightarrow> Err (ShutdownError e)
           | Interrupted None \<Rightarrow> Ok ()))"

text \<open>The exit status; a Go program that panics exits with 2.\<close>

definition main :: "parsers \<Rightarrow> (string \<Rightarrow> string option) \<Rightarrow> ('r, 'st) world \<Rightarrow> serveEnd \<Rightarrow> 'st \<Rightarrow> nat" where
  "main ps env w ending st = (case run ps env w ending st of Ok _ \<Rightarrow> 0 | Err _ \<Rightarrow> 1 | Panic \<Rightarrow> 2)"

subsection \<open>The flag of simulated data\<close>

lemma indexed_simulated: "indexed p = Some q \<Longrightarrow> poolSimulated q = poolSimulated p"
  by (auto simp: indexed_def prepare_def split: if_splits sum.splits)

lemma snapshot_simulated: "list_all poolSimulated ps \<Longrightarrow> q \<in> set (snPools (BuildSnapshot ps t)) \<Longrightarrow> poolSimulated q"
  using indexed_simulated by (auto simp: BuildSnapshot_pools set_map_filter_iff list_all_iff)

lemma quote_flagged:
  assumes "handleQuote other elapsed now srv q = Ok (JSON code body)"
    and snap: "holderGet (srvHolder srv) = Some (BuildSnapshot ps builtAt)" and "list_all poolSimulated ps"
  shows "qrSimulated body"
proof (rule handleQuote_JSON[OF assms(1)])
  fix snap tin tout a hops slip r
  assume h: "holderGet (srvHolder srv) = Some snap" "FindBestRoute (Some snap) (tokAddress tin) (tokAddress tout) (Some a) hops = Ok r"
    "body = buildQuoteResponse now snap r tin tout slip elapsed"
  have s: "snap = BuildSnapshot ps builtAt" using h(1) snap by simp
  from built.route_sound[OF h(2)[unfolded s]] obtain src dst es0 where "es0 \<noteq> []" "walk snap src es0 dst" "rHops r = hopsOf snap es0 a"
    unfolding s by auto
  then obtain e es where r: "walk snap src (e # es) dst" "rHops r = hopsOf snap (e # es) a" by (cases es0) auto
  have "src < length (snTokens snap)" "e \<in> set (snAdj snap ! src)" using r(1) by simp_all
  then have "ePool e < length (snPools snap)" using built.edges[of ps builtAt] by (auto simp: s edges_ok_def edge_ok_def)
  then have p: "snPools snap ! ePool e \<in> set (snPools snap)" by simp
  then have "poolSimulated (snPools snap ! ePool e)" using snapshot_simulated[OF assms(3)] unfolding s by blast
  then show ?thesis using p r(2) by (auto simp: h(3) buildQuoteResponse_def snapshotPools_def Let_def hopAt_def)
qed

subsection \<open>Starting up\<close>

lemma Load_valid: "Load ps env = Inr cfg \<Longrightarrow> validate cfg = None"
  by (auto simp: Load_def Let_def split: sum.splits option.splits)

lemma WarmStart_keeps:
  assumes "WarmStart client now (ix, st) = (e, ix', st')"
  shows "ixSources ix' = ixSources ix" "ixInterval ix' = ixInterval ix" "ixStore ix' = ixStore ix" "ixLastErr ix' = ixLastErr ix" "st' = st"
  using assms by (auto simp: WarmStart_def split: sum.splits if_splits)

lemma pollAll_length: "pollAll w mc ss = Some rs \<Longrightarrow> length rs = length ss"
  by (induction ss arbitrary: rs) (auto split: option.splits)

text \<open>The indexer and the store as \<open>start\<close> first has them, before the warm start.\<close>

abbreviation firstIndex :: "('r, 'st) world \<Rightarrow> config \<Rightarrow> 'st \<Rightarrow> source list \<Rightarrow> indexer \<times> 'st" where
  "firstIndex w cfg st sources \<equiv>
     (NewIndexer (map sourceName sources) NewHolder (Some (fst (openStore (wRedis w) cfg st))) (cRefreshInterval cfg),
      snd (openStore (wRedis w) cfg st))"

text \<open>The stages of a start that got through, one after the other.\<close>

lemma start_stages:
  assumes "Load ps env = Inr cfg" "buildSources (wClock w 4) cfg = (sources, rpc)"
    and polled: "pollAll w (multicallerOf rpc) sources = Some polled"
  obtains e1 ix1 st1 e2 ix2 st2 srv where
    "WarmStart (wRedis w) (wClock w 0) (firstIndex w cfg st sources) = (e1, ix1, st1)"
    "RefreshOnce (wRedis w) (wClock w 1) polled (wClock w 2) (wClock w 3) (ix1, st1) = (e2, ix2, st2)"
    "start ps env w st = Ok (srv, st2)" "srvHolder srv = ixHolder ix2" "srvIndexer srv = ix2" "srvCfg srv = cfg"
    "ixSources ix1 = map sourceName sources" "length polled = length (ixSources ix1)" "0 < length polled"
proof -
  obtain e1 ix1 st1 where warm: "WarmStart (wRedis w) (wClock w 0) (firstIndex w cfg st sources) = (e1, ix1, st1)" using prod_cases3 by blast
  obtain e2 ix2 st2 where ref: "RefreshOnce (wRedis w) (wClock w 1) polled (wClock w 2) (wClock w 3) (ix1, st1) = (e2, ix2, st2)"
    using prod_cases3 by blast
  define srv where "srv = (case rpc of None \<Rightarrow> NewServer (ixHolder ix2) ix2 cfg
    | Some (pool, _) \<Rightarrow> WithRPCStats (Some (Stats (wCalls w pool), BreakerState (wCalls w pool))) (NewServer (ixHolder ix2) ix2 cfg))"
  have run: "start ps env w st = Ok (srv, st2)"
    using assms warm ref by (simp add: start_def srv_def case_prod_beta[of _ "openStore (wRedis w) cfg st"] Let_def split: option.split)
  have src: "ixSources ix1 = map sourceName sources" using WarmStart_keeps(1)[OF warm] by (simp add: NewIndexer_def)
  have n: "length polled = length (ixSources ix1)" "0 < length polled"
    using pollAll_length[OF polled] src assms(2) by (auto simp: buildSources_def Let_def split: if_splits)
  show thesis
    by (rule that[OF warm ref run _ _ _ src n]) (auto simp: srv_def NewServer_def WithRPCStats_def split: option.split)
qed

lemma start_simulated:
  assumes "Load ps env = Inr cfg" "\<not> LiveMode cfg" "rand_unit (wRand w)"
  shows "\<exists>srv st'. start ps env w st = Ok (srv, st')"
proof -
  obtain pools where "simPools (wRand w) (wMath w) None (NewSim (cSimSeed cfg)) = Ok pools"
    using simPools_complete[OF assms(3), of "wMath w" "NewSim (cSimSeed cfg)" 0] by blast
  then show ?thesis using assms(1,2) by (simp add: start_def buildSources_def pollSource_def polledCell_def Let_def split: prod.split)
qed

subsection \<open>Properties\<close>

text \<open>C35. With no provider configured the service starts serving at once: whatever the environment, the store, the clock and the
  random numbers (as long as they are drawn from the unit interval), \<^verbatim>\<open>run\<close> reaches the server with the complete simulated
  market published; the health check answers 200 in simulated mode, with the number of those pools, for three refresh intervals; no
  quote panics, and every quote that is answered is marked as simulated.\<close>

theorem run_simulated:
  assumes "Load ps env = Inr cfg" "\<not> LiveMode cfg" "rand_unit (wRand w)" "3 * cRefreshInterval cfg < 2 ^ 63"
  shows "\<exists>srv st' pools. start ps env w st = Ok (srv, st') \<and> simPools (wRand w) (wMath w) None (NewSim (cSimSeed cfg)) = Ok pools
    \<and> holderGet (srvHolder srv) = Some (BuildSnapshot pools (wClock w 3))
    \<and> (\<forall>now. now - wClock w 3 \<le> 3 * cRefreshInterval cfg \<longrightarrow> (\<exists>resp. handleHealth now srv = JSON 200 resp \<and> heStatus resp = ''ok''
         \<and> heMode resp = ''simulated'' \<and> hePools resp = length pools))
    \<and> (\<forall>other elapsed now q. handleQuote other elapsed now srv q \<noteq> Panic
         \<and> (\<forall>code body. handleQuote other elapsed now srv q = Ok (JSON code body) \<longrightarrow> qrSimulated body))"
proof -
  obtain pools where pools: "simPools (wRand w) (wMath w) None (NewSim (cSimSeed cfg)) = Ok pools" "list_all poolSimulated pools"
    "map poolAddress (snapshotPools (BuildSnapshot pools (wClock w 3))) = map poolAddress pools"
    using simPools_complete[OF assms(3), of "wMath w" "NewSim (cSimSeed cfg)" "wClock w 3"] by blast
  have cfg: "0 < cRefreshInterval cfg" using Load_valid[OF assms(1)] by (auto simp: validate_def split: if_splits)
  have b: "buildSources (wClock w 4) cfg = ([SimSource (NewSim (cSimSeed cfg))], None)" using assms(2) by (simp add: buildSources_def)
  have "pollAll w (multicallerOf None) [SimSource (NewSim (cSimSeed cfg))] = Some [Inr pools]"
    using pools(1) by (simp add: pollSource_def polledCell_def)
  from start_stages[OF assms(1) b this, of st] obtain e1 ix1 st1 e2 ix2 st2 srv where
    warm: "WarmStart (wRedis w) (wClock w 0) (firstIndex w cfg st [SimSource (NewSim (cSimSeed cfg))]) = (e1, ix1, st1)"
    and ref: "RefreshOnce (wRedis w) (wClock w 1) [Inr pools] (wClock w 2) (wClock w 3) (ix1, st1) = (e2, ix2, st2)"
    and run: "start ps env w st = Ok (srv, st2)" and srv: "srvHolder srv = ixHolder ix2" "srvIndexer srv = ix2" "srvCfg srv = cfg"
    and len: "length [Inr pools :: string + pool list] = length (ixSources ix1)"
    by metis
  have ix1: "ixInterval ix1 = cRefreshInterval cfg" using WarmStart_keeps(2)[OF warm] cfg by (simp add: NewIndexer_def)
  have "ixSources ix1 = [simName]" using WarmStart_keeps(1)[OF warm] by (simp add: NewIndexer_def)
  then have ok: "RefreshOnce (wRedis w) (wClock w 1) [Inr pools] (wClock w 2) (wClock w 3) (ix1, st1) = (None, ix2, st2)"
    using ref by (auto simp: RefreshOnce_def Let_def)
  have holder: "holderGet (srvHolder srv) = Some (BuildSnapshot pools (wClock w 3))"
    using RefreshOnce_success(2)[OF ok len] by (auto simp: srv healthyPools_def recordSuccess_def Let_def)
  have n: "length (snapshotPools (BuildSnapshot pools (wClock w 3))) = length pools" using arg_cong[OF pools(3), of length] by simp
  have health: "\<exists>resp. handleHealth now srv = JSON 200 resp \<and> heStatus resp = ''ok'' \<and> heMode resp = ''simulated'' \<and> hePools resp = length pools"
    if "now - wClock w 3 \<le> 3 * cRefreshInterval cfg" for now
  proof -
    have "Interval (srvIndexer srv) = cRefreshInterval cfg"
      using RefreshOnce_success(2)[OF ok len] ix1 by (auto simp: srv recordSuccess_def Let_def Interval_def)
    moreover have "wrap64 (cRefreshInterval cfg * 3) = cRefreshInterval cfg * 3"
      using cfg assms(4) by (intro wrap64_id) (simp add: isInt64_def minInt64_def maxInt64_def)
    ultimately show ?thesis
      using that holder n assms(2)
      by (auto simp: handleHealth_def Let_def Age_def BuildSnapshot_builtAt staleAfterIntervals_def serverMode_def srv(3) split: option.split)
  qed
  have complete: "list_all ticks_complete pools" using sims.complete[of "(wRand w, wMath w, None)"] pools(1) by simp
  have "handleQuote other elapsed now srv q \<noteq> Panic" for other elapsed now q
    using built.route_no_panic[OF BuildSnapshot_ticks_complete[OF complete]] holder
    by (auto simp: handleQuote_def split: option.split sum.split outcome.split)
  then show ?thesis using run pools(1) holder health quote_flagged[OF _ holder pools(2)] by blast
qed

definition exampleWorld :: "(unit, json option) world" where
  "exampleWorld = \<lparr>wRand = constRand, wMath = constMath, wKeccak = (\<lambda>_. replicate 32 0), wRequest = (\<lambda>_ _. Err RequestError),
     wErrText = (\<lambda>_. ''down''), wSimErrText = (\<lambda>_. ''sim''), wRedis = exampleRedis, wCalls = id, wClock = int\<rparr>"

lemma Load_nothing: "Load ps (\<lambda>_. None) = Inr defaultConfig"
  by (simp add: Load_def Let_def envString_def env_setting setting_def lookup_def defaultConfig_def validate_def)

theorem run_simulated_witness:
  "\<exists>srv st'. start \<lparr>pFloat = (\<lambda>_. None), pDuration = (\<lambda>_. None)\<rparr> (\<lambda>_. None) exampleWorld None = Ok (srv, st')
     \<and> (\<exists>resp. handleHealth 5 srv = JSON 200 resp \<and> heMode resp = ''simulated'')"
proof -
  have r: "rand_unit (wRand exampleWorld)" by (simp add: exampleWorld_def rand_unit_def constRand_def)
  have d: "\<not> LiveMode defaultConfig" "3 * cRefreshInterval defaultConfig < 2 ^ 63" "5 - wClock exampleWorld 3 \<le> 3 * cRefreshInterval defaultConfig"
    by (simp_all add: defaultConfig_def LiveMode_def trimSpace_def exampleWorld_def)
  from run_simulated[OF Load_nothing d(1) r d(2), of "\<lparr>pFloat = (\<lambda>_. None), pDuration = (\<lambda>_. None)\<rparr>" None] show ?thesis
  proof (elim exE conjE)
    fix srv st' pools
    assume "start \<lparr>pFloat = (\<lambda>_. None), pDuration = (\<lambda>_. None)\<rparr> (\<lambda>_. None) exampleWorld None = Ok (srv, st')"
      and "\<forall>now. now - wClock exampleWorld 3 \<le> 3 * cRefreshInterval defaultConfig \<longrightarrow> (\<exists>resp. handleHealth now srv = JSON 200 resp \<and> heStatus resp = ''ok''
         \<and> heMode resp = ''simulated'' \<and> hePools resp = length pools)"
    then show ?thesis using d(3) by blast
  qed
qed


end
