(* ===== verification/Api_Prices.thy ===== *)
theory Api_Prices
  imports Api_Amount Cache_Store
begin

section \<open>The price stream (\<^verbatim>\<open>internal/api/ws.go\<close>)\<close>

text \<open>
  The hub keeps the set of connected clients; a client is its bounded channel and whether it was told to
  close. Client objects are numbered; \<open>hbClient\<close> is the heap they live in, \<open>hbIds\<close> the registered ones in
  the order the map iteration happens to take. While \<open>broadcast\<close> sends, the writers of the clients run:
  \<open>pulls c k\<close> is how many queued ticks the writer of client \<open>c\<close> takes before the \<open>k\<close>-th send to it. The
  prices are quoted with one workspace for all pairs, as in the router. Websocket I/O is not modelled.
\<close>

record priceTick =
  ptPair :: string
  ptPrice :: string
  ptTime :: int

definition clientBuffer :: nat where "clientBuffer = 32"

subsection \<open>The hub\<close>

record client =
  clSend :: "priceTick list"
  clDone :: bool

definition newClient :: client where "newClient = \<lparr>clSend = [], clDone = False\<rparr>"

definition closeClient :: "client \<Rightarrow> client" where "closeClient c = c\<lparr>clDone := True\<rparr>"

record hub =
  hbIds :: "nat list"
  hbClient :: "nat \<Rightarrow> client"

definition newHub :: hub where "newHub = \<lparr>hbIds = [], hbClient = (\<lambda>_. newClient)\<rparr>"

definition hubAdd :: "nat \<Rightarrow> hub \<Rightarrow> hub" where
  "hubAdd c h = h\<lparr>hbIds := (if c \<in> set (hbIds h) then hbIds h else c # hbIds h)\<rparr>"

definition hubRemove :: "nat \<Rightarrow> hub \<Rightarrow> hub" where
  "hubRemove c h = h\<lparr>hbIds := filter (\<lambda>x. x \<noteq> c) (hbIds h), hbClient := (hbClient h)(c := closeClient (hbClient h c))\<rparr>"

definition sendTick :: "nat \<Rightarrow> priceTick \<Rightarrow> client \<Rightarrow> client" where
  "sendTick pulled t c =
     (let c = c\<lparr>clSend := drop pulled (clSend c)\<rparr>
      in if length (clSend c) < clientBuffer then c\<lparr>clSend := clSend c @ [t]\<rparr> else closeClient c)"

fun sendTicks :: "(nat \<Rightarrow> nat) \<Rightarrow> nat \<Rightarrow> priceTick list \<Rightarrow> client \<Rightarrow> client" where
  "sendTicks pulls k [] c = c"
| "sendTicks pulls k (t # ts) c = sendTicks pulls (Suc k) ts (sendTick (pulls k) t c)"

definition broadcast :: "(nat \<Rightarrow> nat \<Rightarrow> nat) \<Rightarrow> priceTick list \<Rightarrow> hub \<Rightarrow> hub" where
  "broadcast pulls ticks h =
     foldl (\<lambda>h c. h\<lparr>hbClient := (hbClient h)(c := sendTicks (pulls c) 0 ticks (hbClient h c))\<rparr>) h (hbIds h)"

definition ClientCount :: "hub \<Rightarrow> nat" where "ClientCount h = length (hbIds h)"

definition closeAll :: "hub \<Rightarrow> hub" where
  "closeAll h = foldl (\<lambda>h c. h\<lparr>hbClient := (hbClient h)(c := closeClient (hbClient h c))\<rparr>) h (hbIds h)\<lparr>hbIds := []\<rparr>"

subsection \<open>Prices\<close>

definition trackedPairs :: "(string \<times> string) list" where
  "trackedPairs = [(''WETH'', ''USDC''), (''WBTC'', ''USDC''), (''LINK'', ''USDC''), (''UNI'', ''USDC''), (''AAVE'', ''USDC''), (''DAI'', ''USDC'')]"

definition quoteEdge :: "int \<Rightarrow> token \<Rightarrow> token \<Rightarrow> edge \<Rightarrow> int option \<times> scratch \<Rightarrow> (int option \<times> scratch) option" where
  "quoteEdge one base quot e st =
     (case st of (best, sc) \<Rightarrow>
      if \<not> equalFold (edgeTo e) (tokAddress quot) then Some (best, sc)
      else case AmountOutInto sc (edgePool e) (Some one) (tokAddress base) of (sc, r) \<Rightarrow>
        (case r of
           Panic \<Rightarrow> None
         | Err _ \<Rightarrow> Some (best, sc)
         | Ok ref \<Rightarrow>
             let out = deref sc ref
             in if out \<le> 0 then Some (best, sc)
                else if best = None \<or> out > the best then Some (Some out, sc) else Some (best, sc)))"

text \<open>The outer option is \<open>None\<close> for a panic; the inner one is the pair of price and flag.\<close>

definition bestDirectPrice :: "snapshot \<Rightarrow> scratch \<Rightarrow> token \<Rightarrow> token \<Rightarrow> (int option \<times> scratch) option" where
  "bestDirectPrice snap sc base quot =
     foldM (quoteEdge (pow10 (tokDecimals base)) base quot) (EdgesFrom snap (tokAddress base)) (None, sc)"

definition pairPrice :: "snapshot \<Rightarrow> int \<Rightarrow> string \<times> string \<Rightarrow> priceTick list \<times> scratch \<Rightarrow> (priceTick list \<times> scratch) option" where
  "pairPrice snap now pr st =
     (case st of (out, sc) \<Rightarrow>
      case TokenBySymbol (fst pr) of None \<Rightarrow> Some (out, sc) | Some base \<Rightarrow>
      case TokenBySymbol (snd pr) of None \<Rightarrow> Some (out, sc) | Some quot \<Rightarrow>
      case bestDirectPrice snap sc base quot of
        None \<Rightarrow> None
      | Some (None, sc) \<Rightarrow> Some (out, sc)
      | Some (Some price, sc) \<Rightarrow>
          Some (out @ [\<lparr>ptPair = tokSymbol base @ ''/'' @ tokSymbol quot, ptPrice = intString price, ptTime = now\<rparr>], sc))"

definition currentPrices :: "int \<Rightarrow> holder \<Rightarrow> priceTick list option" where
  "currentPrices now h =
     (case holderGet h of
        None \<Rightarrow> Some []
      | Some snap \<Rightarrow> map_option fst (foldM (pairPrice snap now) trackedPairs ([], NewScratch)))"

subsection \<open>The best direct price\<close>

definition directQuotes :: "token \<Rightarrow> token \<Rightarrow> edge list \<Rightarrow> int list" where
  "directQuotes base quot es =
     List.map_filter (\<lambda>e. if equalFold (edgeTo e) (tokAddress quot)
         then (case AmountOut (edgePool e) (Some (pow10 (tokDecimals base))) (tokAddress base) of
                 Ok v \<Rightarrow> if 0 < v then Some v else None
               | _ \<Rightarrow> None)
         else None) es"

definition bestOf :: "int list \<Rightarrow> int option" where
  "bestOf vs = (if vs = [] then None else Some (Max (set vs)))"

lemma bestOf_snoc: "bestOf (vs @ [v]) = (case bestOf vs of None \<Rightarrow> Some v | Some b \<Rightarrow> Some (max b v))"
  by (auto simp: bestOf_def Max_insert2 max.commute intro: Max_insert)

lemma map_filter_snoc: "List.map_filter f (xs @ [x]) = List.map_filter f xs @ (case f x of None \<Rightarrow> [] | Some y \<Rightarrow> [y])"
  by (induction xs) (auto simp: map_filter_simps split: option.split)

lemma quoteEdge_step:
  assumes "quoteEdge (pow10 (tokDecimals base)) base quot e (bestOf (directQuotes base quot es), sc) = Some (best, sc')" "sc One = 1"
  shows "best = bestOf (directQuotes base quot (es @ [e])) \<and> sc' One = 1"
proof (cases "equalFold (edgeTo e) (tokAddress quot)")
  case False
  then show ?thesis using assms by (simp add: quoteEdge_def directQuotes_def map_filter_snoc)
next
  case True
  show ?thesis
  proof (rule dexp.into_cases[where sc = sc and p = "edgePool e" and amountIn = "Some (pow10 (tokDecimals base))"
        and tokenIn = "tokAddress base"])
    show "sc One = 1" by (rule assms(2))
  next
    fix sc1 r v
    assume into: "AmountOutInto sc (edgePool e) (Some (pow10 (tokDecimals base))) (tokAddress base) = (sc1, Ok r)" "deref sc1 r = v"
      and q: "Dex_Pool.quote (edgePool e) (Some (pow10 (tokDecimals base))) (tokAddress base) = Ok v" and One: "sc1 One = 1"
    have "directQuotes base quot (es @ [e]) = (if 0 < v then directQuotes base quot es @ [v] else directQuotes base quot es)"
      using True q by (simp add: directQuotes_def map_filter_snoc AmountOut_eq)
    then show ?thesis
      using assms(1) True into One
      by (auto simp: quoteEdge_def Let_def bestOf_snoc max_def split: if_splits option.splits)
  next
    fix sc1 er
    assume into: "AmountOutInto sc (edgePool e) (Some (pow10 (tokDecimals base))) (tokAddress base) = (sc1, Err er)"
      and q: "Dex_Pool.quote (edgePool e) (Some (pow10 (tokDecimals base))) (tokAddress base) = Err er" and One: "sc1 One = 1"
    then show ?thesis using assms(1) True by (simp add: quoteEdge_def directQuotes_def map_filter_snoc AmountOut_eq)
  next
    fix sc1
    assume "AmountOutInto sc (edgePool e) (Some (pow10 (tokDecimals base))) (tokAddress base) = (sc1, Panic)"
    then show ?thesis using assms(1) True by (simp add: quoteEdge_def)
  qed
qed

lemma bestDirectPrice_eq:
  assumes "bestDirectPrice snap sc base quot = Some (best, sc')" "sc One = 1"
  shows "best = bestOf (directQuotes base quot (EdgesFrom snap (tokAddress base))) \<and> sc' One = 1"
proof -
  let ?I = "\<lambda>ys st. fst st = bestOf (directQuotes base quot ys) \<and> snd st One = 1"
  have "?I (EdgesFrom snap (tokAddress base)) (best, sc')"
  proof (rule foldM_invariant_prefix[where I = ?I])
    show "foldM (quoteEdge (pow10 (tokDecimals base)) base quot) (EdgesFrom snap (tokAddress base)) (None, sc) = Some (best, sc')"
      using assms(1) by (simp add: bestDirectPrice_def)
    show "fst (None, sc) = bestOf (directQuotes base quot []) \<and> snd (None, sc) One = 1"
      using assms(2) by (simp add: bestOf_def directQuotes_def map_filter_simps)
    fix ys x zs t t'
    assume "fst t = bestOf (directQuotes base quot ys) \<and> snd t One = 1" "quoteEdge (pow10 (tokDecimals base)) base quot x t = Some t'"
    then show "fst t' = bestOf (directQuotes base quot (ys @ [x])) \<and> snd t' One = 1"
      using quoteEdge_step[of base quot x ys "snd t" "fst t'" "snd t'"] by (cases t; cases t') auto
  qed
  then show ?thesis by simp
qed

lemma quoteEdge_total:
  assumes "ticks_complete (edgePool e)" "sc One = 1"
  obtains best' sc' where "quoteEdge one base quot e (best, sc) = Some (best', sc')" "sc' One = 1"
proof -
  have "AmountOut (edgePool e) (Some one) (tokAddress base) \<noteq> Panic" using AmountOut_no_panic[OF assms(1)] .
  then show thesis
    using that dexp.into_value[of sc "edgePool e" "Some one" "tokAddress base", OF assms(2)]
      dexp.into_One[of sc "edgePool e" "Some one" "tokAddress base", OF assms(2)] assms(2)
    by (fastforce simp: quoteEdge_def AmountOut_eq Let_def split: prod.splits outcome.splits if_splits)
qed

lemma bestDirectPrice_total:
  assumes "\<forall>e \<in> set (EdgesFrom snap (tokAddress base)). ticks_complete (edgePool e)" "sc One = 1"
  shows "bestDirectPrice snap sc base quot \<noteq> None"
proof -
  have "foldM (quoteEdge one base quot) es (best, sc) \<noteq> None" if "\<forall>e \<in> set es. ticks_complete (edgePool e)" "sc One = 1" for one es best sc
    using that
  proof (induction es arbitrary: best sc)
    case (Cons e es)
    have e: "ticks_complete (edgePool e)" "sc One = 1" using Cons.prems by auto
    obtain best' sc' where step: "quoteEdge one base quot e (best, sc) = Some (best', sc')" "sc' One = 1"
      by (rule quoteEdge_total[where e = e and sc = sc and one = one and base = base and quot = quot and best = best]) (use e in auto)
    have "foldM (quoteEdge one base quot) es (best', sc') \<noteq> None" using Cons.IH Cons.prems(1) step(2) by auto
    then show ?case using step(1) by simp
  qed simp
  then show ?thesis unfolding bestDirectPrice_def using assms by blast
qed

subsection \<open>Broadcasting\<close>

lemma broadcast_clients:
  assumes "distinct ids"
  shows "hbClient (foldl (\<lambda>h c. h\<lparr>hbClient := (hbClient h)(c := f c (hbClient h c))\<rparr>) h ids) c
    = (if c \<in> set ids then f c (hbClient h c) else hbClient h c)"
  using assms by (induction ids arbitrary: h) auto

lemma broadcast_ids: "hbIds (foldl (\<lambda>h c. h\<lparr>hbClient := g h c\<rparr>) h ids) = hbIds h"
  by (induction ids arbitrary: h) auto

lemma sendTick_bound: "length (clSend c) \<le> clientBuffer \<Longrightarrow> length (clSend (sendTick n t c)) \<le> clientBuffer"
  by (auto simp: sendTick_def Let_def closeClient_def)

lemma sendTicks_bound: "length (clSend c) \<le> clientBuffer \<Longrightarrow> length (clSend (sendTicks pulls k ts c)) \<le> clientBuffer"
  by (induction ts arbitrary: k c) (simp_all add: sendTick_bound)

lemma sendTick_done: "clDone c \<Longrightarrow> clDone (sendTick n t c)"
  by (simp add: sendTick_def closeClient_def Let_def)

lemma sendTicks_done: "clDone c \<Longrightarrow> clDone (sendTicks pulls k ts c)"
  by (induction ts arbitrary: k c) (simp_all add: sendTick_done)

text \<open>A client that is not closed has lost nothing.\<close>

lemma sendTicks_complete:
  "\<not> clDone (sendTicks pulls k ts c) \<Longrightarrow> \<exists>taken. taken @ clSend (sendTicks pulls k ts c) = clSend c @ ts"
proof (induction ts arbitrary: k c)
  case (Cons t ts)
  have open1: "\<not> clDone (sendTick (pulls k) t c)" using Cons.prems sendTicks_done by fastforce
  then have "clSend (sendTick (pulls k) t c) = drop (pulls k) (clSend c) @ [t]"
    by (auto simp: sendTick_def Let_def closeClient_def split: if_splits)
  then have "take (pulls k) (clSend c) @ clSend (sendTick (pulls k) t c) = clSend c @ [t]" by simp
  moreover obtain taken where "taken @ clSend (sendTicks pulls (Suc k) ts (sendTick (pulls k) t c)) = clSend (sendTick (pulls k) t c) @ ts"
    using Cons by fastforce
  ultimately have "take (pulls k) (clSend c) @ taken @ clSend (sendTicks pulls (Suc k) ts (sendTick (pulls k) t c)) = (clSend c @ [t]) @ ts"
    by (metis append_assoc)
  then show ?case by (intro exI[of _ "take (pulls k) (clSend c) @ taken"]) simp
qed simp

text \<open>A client with room for all of them is not closed.\<close>

lemma sendTicks_room:
  "length (clSend c) + length ts \<le> clientBuffer \<Longrightarrow> \<not> clDone c \<Longrightarrow> \<not> clDone (sendTicks pulls k ts c)"
proof (induction ts arbitrary: k c)
  case (Cons t ts)
  have "length (drop (pulls k) (clSend c)) < clientBuffer" using Cons.prems(1) by simp
  then have "\<not> clDone (sendTick (pulls k) t c) \<and> length (clSend (sendTick (pulls k) t c)) + length ts \<le> clientBuffer"
    using Cons.prems by (auto simp: sendTick_def Let_def)
  then show ?case using Cons.IH by simp
qed simp

subsection \<open>Properties\<close>

text \<open>C24. The published price of a pair is the best any direct pool pays for one unit: whatever the workspace was
  used for before, the price is the largest positive quote among the edges from the base to the quote token, and
  there is none exactly when no direct pool quotes anything.\<close>

theorem bestDirectPrice_best:
  assumes "bestDirectPrice snap sc base quot = Some (best, sc')" "sc One = 1"
  shows "case best of
      None \<Rightarrow> directQuotes base quot (EdgesFrom snap (tokAddress base)) = []
    | Some v \<Rightarrow> v \<in> set (directQuotes base quot (EdgesFrom snap (tokAddress base)))
        \<and> (\<forall>w \<in> set (directQuotes base quot (EdgesFrom snap (tokAddress base))). w \<le> v) \<and> 0 < v"
proof -
  let ?vs = "directQuotes base quot (EdgesFrom snap (tokAddress base))"
  have "best = bestOf ?vs" using bestDirectPrice_eq[OF assms] by simp
  moreover have "w \<in> set ?vs \<Longrightarrow> 0 < w" for w
    by (auto simp: directQuotes_def List.map_filter_def split: if_splits outcome.splits)
  ultimately show ?thesis using Max_in[of "set ?vs"] by (auto simp: bestOf_def split: option.splits)
qed

definition priceSnapshot :: snapshot where
  "priceSnapshot = BuildSnapshot [v2Pool ''p'' ''a'' ''b'' 100000 200000, v2Pool ''q'' ''b'' ''a'' 300000 100000, v2Pool ''r'' ''a'' ''c'' 9 9] 0"

definition priceToken :: "string \<Rightarrow> token" where
  "priceToken a = \<lparr>tokAddress = a, tokSymbol = a, tokDecimals = 3\<rparr>"

theorem bestDirectPrice_best_witness:
  "\<exists>sc'. bestDirectPrice priceSnapshot NewScratch (priceToken ''a'') (priceToken ''B'') = Some (Some 2961, sc')"
proof -
  have q: "directQuotes (priceToken ''a'') (priceToken ''B'') (EdgesFrom priceSnapshot (tokAddress (priceToken ''a''))) = [1974, 2961]"
    by code_simp
  have "\<forall>e \<in> set (EdgesFrom priceSnapshot (tokAddress (priceToken ''a''))). ticks_complete (edgePool e)"
  proof -
    have "list_all (\<lambda>e. poolProtocol (edgePool e) = SushiswapV2) (EdgesFrom priceSnapshot (tokAddress (priceToken ''a'')))" by code_simp
    then show ?thesis by (auto simp: list_all_iff ticks_complete_def)
  qed
  then obtain best sc' where b: "bestDirectPrice priceSnapshot NewScratch (priceToken ''a'') (priceToken ''B'') = Some (best, sc')"
    using bestDirectPrice_total[of priceSnapshot "priceToken ''a''" NewScratch "priceToken ''B''"] by (auto simp: NewScratch_def)
  from bestDirectPrice_best[OF b] have "best = Some 2961" by (auto simp: q NewScratch_def split: option.splits)
  then show ?thesis using b by blast
qed

text \<open>C25. One slow client harms nobody else. In a broadcast, what happens to a client depends on that client alone,
  in whatever order the clients are visited and however the others keep up; no queue exceeds its bound; a
  client that is not told to close has every tick queued, in order; a client with room for the ticks is not told
  to close; and who is not registered receives nothing.\<close>

theorem broadcast_isolated:
  assumes "distinct (hbIds h)" "length (clSend (hbClient h c)) \<le> clientBuffer"
  shows "let c' = hbClient (broadcast pulls ticks h) c
    in length (clSend c') \<le> clientBuffer \<and> hbIds (broadcast pulls ticks h) = hbIds h
     \<and> (if c \<in> set (hbIds h)
        then (\<not> clDone c' \<longrightarrow> (\<exists>taken. taken @ clSend c' = clSend (hbClient h c) @ ticks))
           \<and> (length (clSend (hbClient h c)) + length ticks \<le> clientBuffer \<longrightarrow> clDone c' = clDone (hbClient h c))
           \<and> (\<forall>ids d x. c \<in> set ids \<and> distinct ids \<and> d \<noteq> c \<longrightarrow>
                hbClient (broadcast pulls ticks \<lparr>hbIds = ids, hbClient = (hbClient h)(d := x)\<rparr>) c = c')
        else c' = hbClient h c)"
proof -
  have eq: "hbClient (broadcast pulls ticks g) c
      = (if c \<in> set (hbIds g) then sendTicks (pulls c) 0 ticks (hbClient g c) else hbClient g c)" if "distinct (hbIds g)" for g
    unfolding broadcast_def by (rule broadcast_clients[OF that, where f = "\<lambda>c. sendTicks (pulls c) 0 ticks"])
  have ids: "hbIds (broadcast pulls ticks h) = hbIds h" unfolding broadcast_def by (rule broadcast_ids)
  show ?thesis
    using assms(2) sendTicks_bound[OF assms(2)] sendTicks_complete[of "pulls c" 0 ticks "hbClient h c"]
      sendTicks_room[of "hbClient h c" ticks "pulls c" 0] sendTicks_done[of "hbClient h c" "pulls c" 0 ticks]
    by (auto simp: eq[OF assms(1)] eq ids Let_def)
qed

theorem broadcast_isolated_witness:
  "let t = \<lparr>ptPair = ''WETH/USDC'', ptPrice = ''3000'', ptTime = 1\<rparr>;
       h = (hubAdd 2 (hubAdd 1 newHub))\<lparr>hbClient := (\<lambda>_. newClient)(2 := \<lparr>clSend = replicate 32 t, clDone = False\<rparr>)\<rparr>;
       h' = broadcast (\<lambda>_ _. 0) [t] h
   in clDone (hbClient h' 2) \<and> \<not> clDone (hbClient h' 1) \<and> clSend (hbClient h' 1) = [t]"
proof -
  define t where "t = \<lparr>ptPair = ''WETH/USDC'', ptPrice = ''3000'', ptTime = 1\<rparr>"
  define h where "h = (hubAdd 2 (hubAdd 1 newHub))\<lparr>hbClient := (\<lambda>_. newClient)(2 := \<lparr>clSend = replicate 32 t, clDone = False\<rparr>)\<rparr>"
  have ids: "distinct (hbIds h)" "1 \<in> set (hbIds h)" by (simp_all add: h_def hubAdd_def newHub_def)
  have one: "hbClient h 1 = newClient" by (simp add: h_def)
  have "\<not> clDone (hbClient (broadcast (\<lambda>_ _. 0) [t] h) 1)"
    using broadcast_isolated[OF ids(1), of 1 "\<lambda>_ _. 0" "[t]"] ids(2) one by (simp add: Let_def newClient_def clientBuffer_def)
  moreover have "clDone (hbClient (broadcast (\<lambda>_ _. 0) [t] h) 2) \<and> clSend (hbClient (broadcast (\<lambda>_ _. 0) [t] h) 1) = [t]"
    by (simp add: broadcast_def h_def hubAdd_def newHub_def sendTick_def closeClient_def clientBuffer_def newClient_def Let_def)
  ultimately show ?thesis unfolding Let_def t_def[symmetric] h_def[symmetric] by blast
qed

end
