(* ===== verification/Api_Stream.thy ===== *)
theory Api_Stream
  imports Api_Prices
begin

section \<open>The life of the price stream (\<^verbatim>\<open>internal/api/ws.go\<close>)\<close>

text \<open>
  The concurrent parts of the stream as steps on the hub and the number of connections made so far, which numbers the
  next client: a connection is accepted, the ticker fires, a writer takes a queued tick, a reader or writer ends and
  removes its client (both do, in either order), the service shuts down. A broadcast is interleaved with the
  writers through \<open>pulls\<close>, as in \<open>Api_Prices\<close>. What one connection puts on its socket is \<open>connection\<close>: frames in order,
  without their encoding; deadlines only decide whether the environment lets a read or a write succeed.
\<close>

type_synonym stream = "hub \<times> nat"

text \<open>\<^verbatim>\<open>handleWS\<close> once the connection is upgraded.\<close>

definition acceptClient :: "stream \<Rightarrow> stream" where
  "acceptClient s = (case s of (h, n) \<Rightarrow> (hubAdd n (h\<lparr>hbClient := (hbClient h)(n := newClient)\<rparr>), Suc n))"

text \<open>One tick of \<^verbatim>\<open>hub.Run\<close>; \<open>None\<close> is a panic while quoting.\<close>

definition hubTick :: "(nat \<Rightarrow> nat \<Rightarrow> nat) \<Rightarrow> int \<Rightarrow> holder \<Rightarrow> hub \<Rightarrow> hub option" where
  "hubTick pulls now holder h =
     (case currentPrices now holder of
        None \<Rightarrow> None
      | Some ticks \<Rightarrow> Some (if ticks \<noteq> [] then broadcast pulls ticks h else h))"

text \<open>The branches of the \<^verbatim>\<open>select\<close> in \<^verbatim>\<open>writeLoop\<close> that touch the client: what is written and whether the loop goes on.
  When both channels are ready Go chooses either.\<close>

datatype writerEvent = SeeDone | TakeTick | PingSent bool

definition writerTurn :: "writerEvent \<Rightarrow> bool \<Rightarrow> client \<Rightarrow> (priceTick option \<times> bool \<times> client) option" where
  "writerTurn ev writeOk c =
     (case ev of
        SeeDone \<Rightarrow> if clDone c then Some (None, False, c) else None
      | TakeTick \<Rightarrow> (case clSend c of [] \<Rightarrow> None | t # ts \<Rightarrow> Some (Some t, writeOk, c\<lparr>clSend := ts\<rparr>))
      | PingSent ok \<Rightarrow> Some (None, ok, c))"

datatype frame = TickFrame priceTick | PingFrame | CloseFrame

definition writeTick :: "bool \<Rightarrow> priceTick \<Rightarrow> frame list" where
  "writeTick ok t = (if ok then [TickFrame t] else [])"

text \<open>Before the loop, the current prices; \<open>oks\<close> says which writes succeed.\<close>

fun writePrices :: "bool list \<Rightarrow> priceTick list \<Rightarrow> frame list \<times> bool" where
  "writePrices oks [] = ([], True)"
| "writePrices [] (t # ts) = ([], False)"
| "writePrices (ok # oks) (t # ts) =
     (if ok then (case writePrices oks ts of (frames, sent) \<Rightarrow> (writeTick ok t @ frames, sent)) else ([], False))"

text \<open>The reader: messages are read and discarded until a read fails, then its client is removed; \<open>None\<close> while it reads.\<close>

fun readLoop :: "bool list \<Rightarrow> nat \<Rightarrow> hub \<Rightarrow> hub option" where
  "readLoop [] c h = None"
| "readLoop (ok # oks) c h = (if ok then readLoop oks c h else Some (hubRemove c h))"

lemma readLoop_removes: "readLoop oks c h = Some h' \<Longrightarrow> h' = hubRemove c h"
  by (induction oks) (auto split: if_splits)

inductive ws_step :: "holder \<Rightarrow> stream \<Rightarrow> stream \<Rightarrow> bool" for holder where
  ws_accept: "ws_step holder s (acceptClient s)"
| ws_tick: "hubTick pulls now holder h = Some h' \<Longrightarrow> ws_step holder (h, n) (h', n)"
| ws_write: "c < n \<Longrightarrow> writerTurn ev ok (hbClient h c) = Some (out, True, c') \<Longrightarrow>
    ws_step holder (h, n) (h\<lparr>hbClient := (hbClient h)(c := c')\<rparr>, n)"
| ws_stop: "c < n \<Longrightarrow> writerTurn ev ok (hbClient h c) = Some (out, False, c') \<Longrightarrow>
    ws_step holder (h, n) (hubRemove c (h\<lparr>hbClient := (hbClient h)(c := c')\<rparr>), n)"
| ws_blank: "c < n \<Longrightarrow> currentPrices now holder = Some prices \<Longrightarrow> \<not> snd (writePrices oks prices) \<Longrightarrow> ws_step holder (h, n) (hubRemove c h, n)"
| ws_read: "c < n \<Longrightarrow> readLoop oks c h = Some h' \<Longrightarrow> ws_step holder (h, n) (h', n)"
| ws_shutdown: "ws_step holder (h, n) (closeAll h, n)"

inductive_cases ws_stepE: "ws_step holder s s'"

subsection \<open>One connection\<close>

text \<open>What the writer of a connection puts on the socket, over the events at its client: the hub queues a tick or closes the
  client (\<open>sendTick\<close>, \<open>closeClient\<close>), and a branch of the \<^verbatim>\<open>select\<close> runs, if it is ready, with a write that succeeds or not.\<close>

datatype connEvent = Pushed priceTick | Closed | Turn writerEvent bool

definition turnFrames :: "writerEvent \<Rightarrow> bool \<Rightarrow> priceTick option \<Rightarrow> frame list" where
  "turnFrames ev ok out =
     (case ev of
        SeeDone \<Rightarrow> [CloseFrame]
      | TakeTick \<Rightarrow> (case out of None \<Rightarrow> [] | Some t \<Rightarrow> writeTick ok t)
      | PingSent sent \<Rightarrow> if sent then [PingFrame] else [])"

text \<open>The loop: what was written, whether it still runs, and the client.\<close>

fun writeLoop :: "connEvent list \<Rightarrow> client \<Rightarrow> frame list \<times> bool \<times> client" where
  "writeLoop [] c = ([], True, c)"
| "writeLoop (Pushed t # es) c = writeLoop es (sendTick 0 t c)"
| "writeLoop (Closed # es) c = writeLoop es (closeClient c)"
| "writeLoop (Turn ev ok # es) c =
     (case writerTurn ev ok c of
        None \<Rightarrow> writeLoop es c
      | Some (out, True, c) \<Rightarrow> (case writeLoop es c of (frames, running, c) \<Rightarrow> (turnFrames ev ok out @ frames, running, c))
      | Some (out, False, c) \<Rightarrow> (turnFrames ev ok out, False, c))"

definition connection :: "bool list \<Rightarrow> priceTick list \<Rightarrow> connEvent list \<Rightarrow> client \<Rightarrow> frame list \<times> bool \<times> client" where
  "connection oks prices es c =
     (case writePrices oks prices of
        (frames, False) \<Rightarrow> (frames, False, c)
      | (frames, True) \<Rightarrow> (case writeLoop es c of (sofar, running, c) \<Rightarrow> (frames @ sofar, running, c)))"

fun pushes :: "connEvent list \<Rightarrow> priceTick list" where
  "pushes [] = []"
| "pushes (Pushed t # es) = t # pushes es"
| "pushes (_ # es) = pushes es"

definition ticksOf :: "frame list \<Rightarrow> priceTick list" where
  "ticksOf frames = List.map_filter (\<lambda>f. case f of TickFrame t \<Rightarrow> Some t | _ \<Rightarrow> None) frames"

lemma ticksOf_simps [simp]:
  "ticksOf [] = []" "ticksOf (TickFrame t # fs) = t # ticksOf fs" "ticksOf (PingFrame # fs) = ticksOf fs"
  "ticksOf (CloseFrame # fs) = ticksOf fs" "ticksOf (fs @ gs) = ticksOf fs @ ticksOf gs"
  by (simp_all add: ticksOf_def map_filter_def)

lemma writerTurn_done: "writerTurn ev ok c = Some (out, go, d) \<Longrightarrow> clDone d = clDone c"
  by (auto simp: writerTurn_def split: writerEvent.splits list.splits if_splits)

lemma writeLoop_done: "writeLoop es c = (frames, running, c') \<Longrightarrow> clDone c \<Longrightarrow> clDone c'"
proof (induction es arbitrary: c frames)
  case (Cons e es)
  show ?case
  proof (cases e)
    case (Turn ev ok)
    then show ?thesis using Cons writerTurn_done[of ev ok c]
      by (cases "writerTurn ev ok c") (fastforce split: prod.splits bool.splits)+
  qed (use Cons sendTick_done in \<open>auto simp: closeClient_def\<close>)
qed simp

text \<open>What a turn writes it took from the front of the queue, all but the tick of a failed write, after which the loop ends.\<close>

lemma turn_ticks:
  assumes "writerTurn ev ok c = Some (out, go, d)"
  obtains lost where "ticksOf (turnFrames ev ok out) @ lost @ clSend d = clSend c" "length lost \<le> (if go then 0 else 1)"
proof (cases "ev = TakeTick \<and> \<not> ok")
  case True
  then obtain t ts where "clSend c = t # ts" "d = c\<lparr>clSend := ts\<rparr>" "go = False" "out = Some t"
    using assms by (auto simp: writerTurn_def split: list.splits)
  then show thesis using True by (intro that[of "[t]"]) (auto simp: turnFrames_def writeTick_def)
next
  case False
  then show thesis using assms
    by (intro that[of "[]"]) (auto simp: writerTurn_def turnFrames_def writeTick_def split: writerEvent.splits list.splits if_splits)
qed

lemma writeLoop_ticks:
  assumes "writeLoop es c = (frames, running, c')" "\<not> clDone c'"
  shows "\<exists>n lost. n \<le> length es \<and> (running \<longrightarrow> n = length es) \<and> length lost \<le> (if running then 0 else 1)
    \<and> ticksOf frames @ lost @ clSend c' = clSend c @ pushes (take n es)"
  using assms(1)
proof (induction es arbitrary: c frames)
  case (Cons e es)
  have rest: "\<exists>n lost. n \<le> length (e # es) \<and> (running \<longrightarrow> n = length (e # es)) \<and> length lost \<le> (if running then 0 else 1)
      \<and> ticksOf (fs @ gs) @ lost @ clSend c' = clSend c @ pushes (take n (e # es))"
    if h: "writeLoop es d = (gs, running, c')" "ticksOf fs @ clSend d = clSend c @ pushes [e]" for d fs gs
  proof -
    obtain n lost where n: "n \<le> length es" "running \<longrightarrow> n = length es" "length lost \<le> (if running then 0 else 1)"
      "ticksOf gs @ lost @ clSend c' = clSend d @ pushes (take n es)" using Cons.IH[OF h(1)] by blast
    have "ticksOf (fs @ gs) @ lost @ clSend c' = (ticksOf fs @ clSend d) @ pushes (take n es)" using n(4) by simp
    also have "\<dots> = clSend c @ pushes (e # take n es)" unfolding h(2) by (cases e) simp_all
    finally show ?thesis using n(1-3) by (intro exI[of _ "Suc n"] exI[of _ lost]) simp
  qed
  show ?case
  proof (cases e)
    case (Pushed t)
    then have run: "writeLoop es (sendTick 0 t c) = (frames, running, c')" using Cons.prems by simp
    have "\<not> clDone (sendTick 0 t c)" using writeLoop_done[OF run] assms(2) by blast
    then have "clSend (sendTick 0 t c) = clSend c @ [t]" by (auto simp: sendTick_def Let_def closeClient_def split: if_splits)
    then show ?thesis using rest[OF run, of "[]"] Pushed by simp
  next
    case Closed
    then have "clDone c'" using Cons.prems writeLoop_done[of es "closeClient c"] by (simp add: closeClient_def)
    then show ?thesis using assms(2) by simp
  next
    case (Turn ev ok)
    show ?thesis
    proof (cases "writerTurn ev ok c")
      case None
      then show ?thesis using rest[of c frames "[]"] Cons.prems Turn by simp
    next
      case (Some x)
      obtain out go d where x: "writerTurn ev ok c = Some (out, go, d)" using Some by (cases x) auto
      obtain lost where lost: "ticksOf (turnFrames ev ok out) @ lost @ clSend d = clSend c" "length lost \<le> (if go then 0 else 1)"
        by (rule turn_ticks[OF x])
      show ?thesis
      proof (cases go)
        case True
        then obtain gs where "writeLoop es d = (gs, running, c')" "frames = turnFrames ev ok out @ gs"
          using Cons.prems Turn x by (auto split: prod.splits)
        then show ?thesis using rest[of d gs "turnFrames ev ok out"] lost True Turn by simp
      next
        case False
        then have "frames = turnFrames ev ok out" "running = False" "c' = d" using Cons.prems Turn x by auto
        then show ?thesis using lost False by (intro exI[of _ 0] exI[of _ lost]) simp
      qed
    qed
  qed
qed auto

lemma writePrices_ticks:
  "(\<exists>rest. ticksOf (fst (writePrices oks ts)) @ rest = ts) \<and> (snd (writePrices oks ts) \<longrightarrow> ticksOf (fst (writePrices oks ts)) = ts)
   \<and> CloseFrame \<notin> set (fst (writePrices oks ts))"
  by (induction oks ts rule: writePrices.induct) (auto simp: writeTick_def split: prod.split)

lemma pushes_append: "pushes (es @ fs) = pushes es @ pushes fs"
  by (induction es rule: pushes.induct) simp_all

lemma writeLoop_close: "writeLoop es c = (frames, running, c') \<Longrightarrow> CloseFrame \<in> set frames \<Longrightarrow>
    clDone c' \<and> \<not> running \<and> (\<exists>fs. frames = fs @ [CloseFrame] \<and> CloseFrame \<notin> set fs)"
proof (induction es arbitrary: c frames)
  case (Cons e es)
  show ?case
  proof (cases e)
    case (Turn ev ok)
    show ?thesis
    proof (cases "writerTurn ev ok c")
      case (Some x)
      obtain out go d where x: "writerTurn ev ok c = Some (out, go, d)" using Some by (cases x) auto
      show ?thesis
      proof (cases go)
        case True
        then obtain gs where gs: "writeLoop es d = (gs, running, c')" "frames = turnFrames ev ok out @ gs"
          using Cons.prems(1) Turn x by (auto split: prod.splits)
        have no: "CloseFrame \<notin> set (turnFrames ev ok out)"
          using x True by (auto simp: writerTurn_def turnFrames_def writeTick_def split: writerEvent.splits option.splits if_splits)
        with gs Cons.prems(2) obtain fs where "clDone c'" "\<not> running" "gs = fs @ [CloseFrame]" "CloseFrame \<notin> set fs"
          using Cons.IH[OF gs(1)] by auto
        then show ?thesis using gs(2) no by (intro conjI exI[of _ "turnFrames ev ok out @ fs"]) auto
      next
        case False
        then have "frames = turnFrames ev ok out" "running = False" "c' = d" using Cons.prems(1) Turn x by auto
        then show ?thesis using Cons.prems(2) x
          by (auto simp: writerTurn_def turnFrames_def writeTick_def split: writerEvent.splits option.splits if_splits)
      qed
    qed (use Cons Turn in auto)
  qed (use Cons in auto)
qed auto

subsection \<open>Invariant\<close>

definition stream_inv :: "stream \<Rightarrow> bool" where
  "stream_inv s \<longleftrightarrow> (case s of (h, n) \<Rightarrow> distinct (hbIds h) \<and> (\<forall>c \<in> set (hbIds h). c < n)
     \<and> (\<forall>c. length (clSend (hbClient h c)) \<le> clientBuffer) \<and> (\<forall>c < n. c \<notin> set (hbIds h) \<longrightarrow> clDone (hbClient h c)))"

text \<open>What a step leaves of a client that was told to close: it stays so, and out of the hub it is never sent anything again.\<close>

definition stays_closed :: "nat \<Rightarrow> stream \<Rightarrow> stream \<Rightarrow> bool" where
  "stays_closed c s s' \<longleftrightarrow> (clDone (hbClient (fst s) c) \<longrightarrow> clDone (hbClient (fst s') c))
     \<and> (c \<notin> set (hbIds (fst s)) \<longrightarrow> c \<notin> set (hbIds (fst s')) \<and> (\<exists>taken. taken @ clSend (hbClient (fst s') c) = clSend (hbClient (fst s) c)))"

lemma broadcast_client:
  assumes "distinct (hbIds h)"
  shows "hbClient (broadcast pulls ticks h) c
      = (if c \<in> set (hbIds h) then sendTicks (pulls c) 0 ticks (hbClient h c) else hbClient h c)"
  unfolding broadcast_def by (rule broadcast_clients[OF assms, where f = "\<lambda>c. sendTicks (pulls c) 0 ticks"])

lemma broadcast_keeps_ids: "hbIds (broadcast pulls ticks h) = hbIds h"
  unfolding broadcast_def by (rule broadcast_ids)

lemma closeAll_client:
  assumes "distinct (hbIds h)"
  shows "hbClient (closeAll h) c = (if c \<in> set (hbIds h) then closeClient (hbClient h c) else hbClient h c)" "hbIds (closeAll h) = []"
  using broadcast_clients[OF assms, where f = "\<lambda>_. closeClient" and h = h and c = c] by (simp_all add: closeAll_def)

lemma writerTurn_client:
  "writerTurn ev ok c = Some (out, go, c') \<Longrightarrow> clDone c' = clDone c \<and> length (clSend c') \<le> length (clSend c)
     \<and> (\<exists>taken. taken @ clSend c' = clSend c)"
  by (auto simp: writerTurn_def split: writerEvent.splits if_splits list.splits)

lemma hubTick_cases:
  assumes "hubTick pulls now holder h = Some h'"
  obtains "h' = h" | ticks where "h' = broadcast pulls ticks h"
  using assms by (auto simp: hubTick_def split: option.splits if_splits)

lemma ws_step_inv:
  assumes "ws_step holder s s'" "stream_inv s"
  shows "stream_inv s' \<and> (\<forall>c < snd s. stays_closed c s s')"
  using assms
proof (cases rule: ws_step.cases)
  case ws_accept
  then show ?thesis using assms(2)
    by (cases s) (auto simp: stream_inv_def stays_closed_def acceptClient_def hubAdd_def newClient_def)
next
  case (ws_tick pulls now h h' n)
  have d: "distinct (hbIds h)" and q: "\<forall>c. length (clSend (hbClient h c)) \<le> clientBuffer" using ws_tick assms(2) by (auto simp: stream_inv_def)
  from ws_tick(3) show ?thesis
  proof (cases rule: hubTick_cases)
    case 1
    then show ?thesis using ws_tick assms(2) by (auto simp: stays_closed_def)
  next
    case (2 ticks)
    then show ?thesis using ws_tick assms(2) sendTicks_bound q sendTicks_done
      by (auto simp: stream_inv_def stays_closed_def broadcast_client[OF d] broadcast_keeps_ids)
  qed
next
  case (ws_write c n ev ok h out c')
  then show ?thesis using assms(2) writerTurn_client[OF ws_write(4)]
    by (auto simp: stream_inv_def stays_closed_def intro: le_trans)
next
  case (ws_stop c n ev ok h out c')
  then show ?thesis using assms(2) writerTurn_client[OF ws_stop(4)]
    by (auto simp: stream_inv_def stays_closed_def hubRemove_def closeClient_def intro: le_trans)
next
  case (ws_blank c n now prices oks h)
  then show ?thesis using assms(2) by (auto simp: stream_inv_def stays_closed_def hubRemove_def closeClient_def)
next
  case (ws_read c n oks h h')
  then show ?thesis using readLoop_removes[OF ws_read(4)] assms(2) by (auto simp: stream_inv_def stays_closed_def hubRemove_def closeClient_def)
next
  case (ws_shutdown h n)
  have d: "distinct (hbIds h)" using ws_shutdown assms(2) by (auto simp: stream_inv_def)
  show ?thesis using ws_shutdown assms(2) by (auto simp: stream_inv_def stays_closed_def closeAll_client[OF d] closeClient_def)
qed

lemma stays_closed_trans: "stays_closed c s s' \<Longrightarrow> stays_closed c s' s'' \<Longrightarrow> stays_closed c s s''"
  unfolding stays_closed_def by (metis append.assoc)

lemma ws_step_count: "ws_step holder s s' \<Longrightarrow> snd s \<le> snd s'"
  by (auto elim!: ws_step.cases simp: acceptClient_def split: prod.splits)

definition ws_since :: "stream \<Rightarrow> stream \<Rightarrow> bool" where
  "ws_since s t \<longleftrightarrow> snd s \<le> snd t \<and> (\<forall>c < snd s. stays_closed c s t)"

lemma ws_since_trans: "ws_since s t \<Longrightarrow> ws_since t u \<Longrightarrow> ws_since s u"
  unfolding ws_since_def by (meson le_trans less_le_trans stays_closed_trans)

lemma newHub_inv: "stream_inv (newHub, 0)"
  by (simp add: stream_inv_def newHub_def newClient_def)

interpretation wsm: machine "ws_step holder" stream_inv ws_since "\<lambda>s. s = (newHub, 0)" for holder
proof unfold_locales
  show "ws_since s s" for s by (auto simp: ws_since_def stays_closed_def)
qed (use ws_step_inv ws_step_count newHub_inv ws_since_trans in \<open>auto simp: ws_since_def\<close>)

lemma count_le:
  assumes "stream_inv (h, n)"
  shows "ClientCount h \<le> n"
proof -
  have "set (hbIds h) \<subseteq> {..<n}" "distinct (hbIds h)" using assms by (auto simp: stream_inv_def)
  then show ?thesis using card_mono[of "{..<n}" "set (hbIds h)"] by (simp add: ClientCount_def distinct_card)
qed

subsection \<open>Properties\<close>

text \<open>C37. A client that is not closed misses nothing: on its socket it gets the prices of the moment it connected and then, in
  order and without gaps, the ticks that were queued for it, up to those still in its queue; only a write that fails
  loses a tick, and it ends the connection. A client that cannot keep up is closed rather than given a stream
  with holes, and the close frame is the last one it gets.\<close>

theorem connection_fifo:
  assumes "connection oks prices es c = (frames, running, c')"
  shows "(running \<and> \<not> clDone c' \<longrightarrow> ticksOf frames @ clSend c' = prices @ clSend c @ pushes es)
    \<and> (\<not> clDone c' \<longrightarrow> (\<exists>missed. ticksOf frames @ missed = prices @ clSend c @ pushes es))
    \<and> (CloseFrame \<in> set frames \<longrightarrow> clDone c' \<and> \<not> running \<and> (\<exists>fs. frames = fs @ [CloseFrame] \<and> CloseFrame \<notin> set fs))"
proof (cases "snd (writePrices oks prices)")
  case False
  then show ?thesis using assms writePrices_ticks[of oks prices]
    by (auto simp: connection_def split: prod.splits bool.splits)
next
  case True
  then obtain fs gs where w: "writePrices oks prices = (fs, True)" "writeLoop es c = (gs, running, c')" "frames = fs @ gs"
    using assms by (auto simp: connection_def split: prod.splits bool.splits)
  have fs: "ticksOf fs = prices" "CloseFrame \<notin> set fs" using writePrices_ticks[of oks prices] w(1) by auto
  have "(running \<longrightarrow> ticksOf frames @ clSend c' = prices @ clSend c @ pushes es)
      \<and> (\<exists>missed. ticksOf frames @ missed = prices @ clSend c @ pushes es)" if opened: "\<not> clDone c'"
  proof -
    obtain n lost where n: "running \<longrightarrow> n = length es" "length lost \<le> (if running then 0 else 1)"
      "ticksOf gs @ lost @ clSend c' = clSend c @ pushes (take n es)" using writeLoop_ticks[OF w(2) opened] by blast
    have "ticksOf gs @ (lost @ clSend c' @ pushes (drop n es)) = (ticksOf gs @ lost @ clSend c') @ pushes (drop n es)" by simp
    also have "\<dots> = clSend c @ pushes es" unfolding n(3) using pushes_append[of "take n es" "drop n es"] by simp
    finally have "ticksOf frames @ (lost @ clSend c' @ pushes (drop n es)) = prices @ clSend c @ pushes es" by (simp add: w(3) fs(1))
    then show ?thesis using n(1,2) by auto
  qed
  moreover have "clDone c' \<and> \<not> running \<and> (\<exists>fs. frames = fs @ [CloseFrame] \<and> CloseFrame \<notin> set fs)" if "CloseFrame \<in> set frames"
  proof -
    have "CloseFrame \<in> set gs" using that fs(2) w(3) by simp
    from writeLoop_close[OF w(2) this] obtain hs where "clDone c'" "\<not> running" "gs = hs @ [CloseFrame]" "CloseFrame \<notin> set hs" by blast
    then show ?thesis using w(3) fs(2) by (intro conjI exI[of _ "fs @ hs"]) auto
  qed
  ultimately show ?thesis by blast
qed

theorem connection_fifo_witness:
  "let t = \<lambda>n. \<lparr>ptPair = ''WETH/USDC'', ptPrice = ''1'', ptTime = n\<rparr>;
       (frames, running, c') = connection [True] [t 1] [Pushed (t 2), Pushed (t 3), Turn TakeTick True] newClient
   in ticksOf frames @ clSend c' = [t 1, t 2, t 3]"
proof -
  let ?t = "\<lambda>n. \<lparr>ptPair = ''WETH/USDC'', ptPrice = ''1'', ptTime = n\<rparr>"
  let ?es = "[Pushed (?t 2), Pushed (?t 3), Turn TakeTick True]"
  obtain frames running c' where run: "connection [True] [?t 1] ?es newClient = (frames, running, c')" using prod_cases3 by blast
  have "running \<and> \<not> clDone c'"
    using run by (auto simp: connection_def newClient_def sendTick_def clientBuffer_def writerTurn_def Let_def)
  then show ?thesis using connection_fifo[OF run] run by (simp add: newClient_def)
qed



end
