(* ===== verification/Api_Routes.thy ===== *)
theory Api_Routes
  imports Api_Server
begin

section \<open>Routing and middleware (\<^verbatim>\<open>internal/api/server.go\<close>, \<^verbatim>\<open>metrics.go\<close>)\<close>

text \<open>
  A request goes through the CORS wrapper, the logging wrapper with its status recorder, and the multiplexer to a
  handler, which write to the same response writer. The multiplexer is that of \<^verbatim>\<open>net/http\<close>: a pattern for \<^verbatim>\<open>GET\<close> also takes \<^verbatim>\<open>HEAD\<close>, a known path with another
  method is answered with 405, an unknown one with 404, and a path that is not clean is redirected; \<open>clean\<close> is the
  cleaning. The environment says whether the server's writer can be hijacked, what the Prometheus handler passes to
  \<^verbatim>\<open>WriteHeader\<close>, if it calls it, and whether the websocket library refuses a request with a status or takes the
  connection over; it then answers 101 on the connection itself, and 500 if it does not get it. A panic is recovered by the server, past the
  wrappers. A histogram is the list of its observations; how Prometheus groups and prints them is not modelled.
\<close>

record errorResponse =
  erError :: string
  erDetail :: string

datatype payload = PQuote quoteResponse | PTokens tokensResponse | PPools poolsResponse | PArbitrage arbitrageResponse
  | PStatus statusResponse | PHealth healthResponse | PError errorResponse | PText string | PNone

record httpRequest =
  rqMethod :: string
  rqPath :: string
  rqQuery :: "string \<Rightarrow> string"

record httpEnv =
  enOther :: "string \<Rightarrow> (bool \<times> bigfloat) option"
  enElapsed :: int
  enTook :: int
  enNow :: int
  enOrder :: "(string \<times> int option) list \<Rightarrow> (string \<times> int option) list"
  enWs :: "nat option"
  enHijacker :: bool
  enMetrics :: "nat option"
  enClean :: "string \<Rightarrow> string"

subsection \<open>The response writer and the recorder\<close>

text \<open>The writer of \<^verbatim>\<open>net/http\<close>: the header, which can be changed until the status line is sent with it, the status lines it was
  asked to send, each with the header of that moment, and whether a handler took the connection over.\<close>

type_synonym header = "string \<Rightarrow> string option"

record responseWriter =
  rwHijacker :: bool
  rwHijacked :: bool
  rwHeader :: header
  rwSent :: "(nat \<times> header) list"

definition newWriter :: "bool \<Rightarrow> responseWriter" where
  "newWriter hijacker = \<lparr>rwHijacker = hijacker, rwHijacked = False, rwHeader = Map.empty, rwSent = []\<rparr>"

definition setHeader :: "string \<Rightarrow> string \<Rightarrow> responseWriter \<Rightarrow> responseWriter" where
  "setHeader k v w = w\<lparr>rwHeader := (rwHeader w)(k \<mapsto> v)\<rparr>"

definition writeStatus :: "nat \<Rightarrow> responseWriter \<Rightarrow> responseWriter" where
  "writeStatus code w = w\<lparr>rwSent := rwSent w @ [(code, rwHeader w)]\<rparr>"

record statusRecorder =
  srWriter :: responseWriter
  srStatus :: nat
  srWroteHeader :: bool

definition newRecorder :: "responseWriter \<Rightarrow> statusRecorder" where
  "newRecorder w = \<lparr>srWriter = w, srStatus = 200, srWroteHeader = False\<rparr>"

definition WriteHeader :: "nat \<Rightarrow> statusRecorder \<Rightarrow> statusRecorder" where
  "WriteHeader code r =
     (if srWroteHeader r then r
      else r\<lparr>srStatus := code, srWroteHeader := True, srWriter := writeStatus code (srWriter r)\<rparr>)"

definition Hijack :: "statusRecorder \<Rightarrow> statusRecorder option" where
  "Hijack r = (if rwHijacker (srWriter r) then Some (r\<lparr>srWriter := (srWriter r)\<lparr>rwHijacked := True\<rparr>\<rparr>) else None)"

definition header :: "string \<Rightarrow> string \<Rightarrow> statusRecorder \<Rightarrow> statusRecorder" where
  "header k v r = r\<lparr>srWriter := setHeader k v (srWriter r)\<rparr>"

text \<open>What the client gets once the handlers are through.\<close>

record reply =
  reStatus :: nat
  reHeader :: header
  reBody :: payload

definition send :: "payload \<Rightarrow> responseWriter \<Rightarrow> reply" where
  "send body w =
     (if rwHijacked w then \<lparr>reStatus = 101, reHeader = Map.empty, reBody = body\<rparr>
      else case rwSent w of
             [] \<Rightarrow> \<lparr>reStatus = 200, reHeader = rwHeader w, reBody = body\<rparr>
           | (code, h) # _ \<Rightarrow> \<lparr>reStatus = code, reHeader = h, reBody = body\<rparr>)"

subsection \<open>Metrics (\<^verbatim>\<open>metrics.go\<close>)\<close>

definition hasPrefix :: "string \<Rightarrow> string \<Rightarrow> bool" where
  "hasPrefix s pre \<longleftrightarrow> take (length pre) s = pre"

definition normalizePath :: "string \<Rightarrow> string" where
  "normalizePath path =
     (if hasPrefix path ''/api/v1/'' \<or> path = ''/healthz'' \<or> path = ''/metrics'' \<or> path = ''/ws/prices'' then path else ''other'')"

record metrics =
  mtRequestDuration :: "string \<times> string \<Rightarrow> gofloat list"
  mtRequestTotal :: "string \<times> string \<Rightarrow> nat"
  mtRouterDuration :: "gofloat list"

definition newMetrics :: metrics where
  "newMetrics = \<lparr>mtRequestDuration = (\<lambda>_. []), mtRequestTotal = (\<lambda>_. 0), mtRouterDuration = []\<rparr>"

definition observeRequest :: "string \<Rightarrow> nat \<Rightarrow> int \<Rightarrow> metrics \<Rightarrow> metrics" where
  "observeRequest path status d m =
     (let p = normalizePath path; s = natString status;
          m = m\<lparr>mtRequestDuration := (mtRequestDuration m)((p, s) := mtRequestDuration m (p, s) @ [durationSeconds d])\<rparr>
      in m\<lparr>mtRequestTotal := (mtRequestTotal m)((p, s) := mtRequestTotal m (p, s) + 1)\<rparr>)"

definition observeRouter :: "int \<Rightarrow> metrics \<Rightarrow> metrics" where
  "observeRouter d m = m\<lparr>mtRouterDuration := mtRouterDuration m @ [durationSeconds d]\<rparr>"

subsection \<open>Handlers on the recorder\<close>

definition writeJSON :: "nat \<Rightarrow> payload \<Rightarrow> statusRecorder \<Rightarrow> payload \<times> statusRecorder" where
  "writeJSON status body r = (body, WriteHeader status (header ''Content-Type'' ''application/json; charset=utf-8'' r))"

definition writeError :: "nat \<Rightarrow> string \<Rightarrow> string \<Rightarrow> statusRecorder \<Rightarrow> payload \<times> statusRecorder" where
  "writeError status msg detail r = writeJSON status (PError \<lparr>erError = msg, erDetail = detail\<rparr>) r"

definition respond :: "('b \<Rightarrow> payload) \<Rightarrow> 'b response \<Rightarrow> statusRecorder \<Rightarrow> payload \<times> statusRecorder" where
  "respond f resp r = (case resp of JSON code b \<Rightarrow> writeJSON code (f b) r | ErrorJSON code msg detail \<Rightarrow> writeError code msg detail r)"

definition opaque :: "nat option \<Rightarrow> statusRecorder \<Rightarrow> payload \<times> statusRecorder" where
  "opaque code r = (PNone, case code of None \<Rightarrow> r | Some c \<Rightarrow> WriteHeader c r)"

text \<open>The upgrade of \<^verbatim>\<open>handleWS\<close>, by the websocket library on the recorder.\<close>

definition upgrade :: "nat option \<Rightarrow> statusRecorder \<Rightarrow> payload \<times> statusRecorder" where
  "upgrade refused r =
     (case refused of
        Some code \<Rightarrow> opaque (Some code) r
      | None \<Rightarrow> (case Hijack r of None \<Rightarrow> opaque (Some 500) r | Some r \<Rightarrow> (PNone, r)))"

text \<open>\<^verbatim>\<open>http.Error\<close> and \<^verbatim>\<open>http.Redirect\<close>, which the multiplexer uses.\<close>

definition httpError :: "nat \<Rightarrow> string \<Rightarrow> statusRecorder \<Rightarrow> payload \<times> statusRecorder" where
  "httpError code msg r =
     (PText msg, WriteHeader code (header ''X-Content-Type-Options'' ''nosniff'' (header ''Content-Type'' ''text/plain; charset=utf-8'' r)))"

definition httpRedirect :: "nat \<Rightarrow> string \<Rightarrow> statusRecorder \<Rightarrow> payload \<times> statusRecorder" where
  "httpRedirect code url r = (PText url, WriteHeader code (header ''Location'' url r))"

datatype endpoint = EQuote | ETokens | EPools | EArbitrage | EStatus | EHealth | EMetrics | EWs

definition routes :: "(string \<times> endpoint) list" where
  "routes = [(''/api/v1/quote'', EQuote), (''/api/v1/tokens'', ETokens), (''/api/v1/pools'', EPools),
     (''/api/v1/arbitrage'', EArbitrage), (''/api/v1/status'', EStatus), (''/healthz'', EHealth),
     (''/metrics'', EMetrics), (''/ws/prices'', EWs)]"

text \<open>The conditions under which \<^verbatim>\<open>handleQuote\<close> gets to the search, after which it observes its duration.\<close>

definition reachesRouter :: "(string \<Rightarrow> (bool \<times> bigfloat) option) \<Rightarrow> server \<Rightarrow> (string \<Rightarrow> string) \<Rightarrow> bool" where
  "reachesRouter other srv q \<longleftrightarrow>
     holderGet (srvHolder srv) \<noteq> None \<and> resolveToken (q ''tokenOut'') \<noteq> None
     \<and> (case resolveToken (q ''tokenIn'') of None \<Rightarrow> False | Some tokenIn \<Rightarrow> (case parseAmount other (q ''amountIn'') tokenIn of Inl _ \<Rightarrow> False | Inr _ \<Rightarrow> True))
     \<and> boundedParam (q ''maxHops'') 1 6 (cMaxHops (srvCfg srv)) \<noteq> None \<and> boundedParam (q ''slippageBps'') 0 10000 defaultSlippageBps \<noteq> None"

definition handle :: "httpEnv \<Rightarrow> server \<Rightarrow> endpoint \<Rightarrow> httpRequest \<Rightarrow> statusRecorder \<Rightarrow> metrics
                        \<Rightarrow> ((payload \<times> statusRecorder) \<times> metrics) option" where
  "handle en srv e rq r m =
     (case e of
        EQuote \<Rightarrow> (case handleQuote (enOther en) (enElapsed en) (enNow en) srv (rqQuery rq) of
            Ok resp \<Rightarrow> Some (respond PQuote resp r, if reachesRouter (enOther en) srv (rqQuery rq) then observeRouter (enElapsed en) m else m)
          | _ \<Rightarrow> None)
      | ETokens \<Rightarrow> Some (respond PTokens handleTokens r, m)
      | EPools \<Rightarrow> Some (respond PPools (handlePools (enNow en) srv (rqQuery rq)) r, m)
      | EArbitrage \<Rightarrow> (case handleArbitrage (enOrder en) srv of Ok resp \<Rightarrow> Some (respond PArbitrage resp r, m) | _ \<Rightarrow> None)
      | EStatus \<Rightarrow> Some (respond PStatus (handleStatus (enNow en) srv) r, m)
      | EHealth \<Rightarrow> Some (respond PHealth (handleHealth (enNow en) srv) r, m)
      | EMetrics \<Rightarrow> Some (opaque (enMetrics en) r, m)
      | EWs \<Rightarrow> Some (upgrade (enWs en) r, m))"

definition mux :: "httpEnv \<Rightarrow> server \<Rightarrow> httpRequest \<Rightarrow> statusRecorder \<Rightarrow> metrics \<Rightarrow> ((payload \<times> statusRecorder) \<times> metrics) option" where
  "mux en srv rq r m =
     (if enClean en (rqPath rq) \<noteq> rqPath rq then Some (httpRedirect 301 (enClean en (rqPath rq)) r, m)
      else case map_of routes (rqPath rq) of
             None \<Rightarrow> Some (httpError 404 ''404 page not found'' r, m)
           | Some e \<Rightarrow>
               if rqMethod rq = ''GET'' \<or> rqMethod rq = ''HEAD'' then handle en srv e rq r m
               else Some (httpError 405 ''Method Not Allowed'' (header ''Allow'' ''GET, HEAD'' r), m))"

subsection \<open>Middleware\<close>

text \<open>The result is the body and the writer it went to; \<open>None\<close> is a request that panicked.\<close>

definition withLogging :: "httpEnv \<Rightarrow> server \<Rightarrow> httpRequest \<Rightarrow> responseWriter \<Rightarrow> metrics \<Rightarrow> (payload \<times> responseWriter) option \<times> metrics" where
  "withLogging en srv rq w m =
     (case mux en srv rq (newRecorder w) m of
        None \<Rightarrow> (None, m)
      | Some ((body, rec), m) \<Rightarrow> (Some (body, srWriter rec), observeRequest (rqPath rq) (srStatus rec) (enTook en) m))"

definition corsWriter :: "responseWriter \<Rightarrow> responseWriter" where
  "corsWriter w =
     (let w = setHeader ''Access-Control-Allow-Origin'' ''*'' w;
          w = setHeader ''Access-Control-Allow-Methods'' ''GET, OPTIONS'' w
      in setHeader ''Access-Control-Allow-Headers'' ''Content-Type'' w)"

definition withCORS :: "httpEnv \<Rightarrow> server \<Rightarrow> httpRequest \<Rightarrow> responseWriter \<Rightarrow> metrics \<Rightarrow> (payload \<times> responseWriter) option \<times> metrics" where
  "withCORS en srv rq w m =
     (let w = corsWriter w
      in if rqMethod rq = ''OPTIONS'' then (Some (PNone, writeStatus 204 w), m) else withLogging en srv rq w m)"

text \<open>The handler under the HTTP server, which makes the writer and sends what was written.\<close>

definition Handler :: "httpEnv \<Rightarrow> server \<Rightarrow> httpRequest \<Rightarrow> metrics \<Rightarrow> reply option \<times> metrics" where
  "Handler en srv rq m =
     (case withCORS en srv rq (newWriter (enHijacker en)) m of (out, m) \<Rightarrow> (map_option (\<lambda>(body, w). send body w) out, m))"

subsection \<open>What is recorded is what was sent\<close>

text \<open>Headers any browser may rely on, and those of a JSON body.\<close>

definition hasCORS :: "header \<Rightarrow> bool" where
  "hasCORS h \<longleftrightarrow> h ''Access-Control-Allow-Origin'' = Some ''*'' \<and> h ''Access-Control-Allow-Methods'' = Some ''GET, OPTIONS''
     \<and> h ''Access-Control-Allow-Headers'' = Some ''Content-Type''"

definition jsonBody :: "payload \<Rightarrow> bool" where
  "jsonBody body = (case body of PText _ \<Rightarrow> False | PNone \<Rightarrow> False | _ \<Rightarrow> True)"

definition hasType :: "payload \<Rightarrow> header \<Rightarrow> bool" where
  "hasType body h = (if jsonBody body then h ''Content-Type'' = Some ''application/json; charset=utf-8'' else True)"

text \<open>The recorder agrees with its writer: nothing is sent before \<open>WriteHeader\<close>, and then exactly the recorded status, once, with
  the headers of the wrapper; the connection is not taken over after that.\<close>

definition faithful :: "statusRecorder \<Rightarrow> bool" where
  "faithful r \<longleftrightarrow> hasCORS (rwHeader (srWriter r))
     \<and> (if srWroteHeader r then \<not> rwHijacked (srWriter r) \<and> (\<exists>h. rwSent (srWriter r) = [(srStatus r, h)] \<and> hasCORS h)
        else rwSent (srWriter r) = [] \<and> srStatus r = 200)"

definition fresh :: "statusRecorder \<Rightarrow> bool" where
  "fresh r \<longleftrightarrow> faithful r \<and> \<not> srWroteHeader r \<and> \<not> rwHijacked (srWriter r)"

lemma newRecorder_fresh: "fresh (newRecorder (corsWriter (newWriter hj)))"
  by (simp add: fresh_def faithful_def newRecorder_def corsWriter_def newWriter_def setHeader_def hasCORS_def Let_def)

lemma header_fresh: "fresh r \<Longrightarrow> k \<in> {''Content-Type'', ''X-Content-Type-Options'', ''Location'', ''Allow''} \<Longrightarrow> fresh (header k v r)"
  by (auto simp: fresh_def faithful_def header_def setHeader_def hasCORS_def)

lemma WriteHeader_faithful: "fresh r \<Longrightarrow> faithful (WriteHeader code r)"
  by (auto simp: fresh_def faithful_def WriteHeader_def writeStatus_def)

lemmas written = WriteHeader_faithful header_fresh

text \<open>What every route leaves: a faithful recorder, and for a JSON body the header that says so.\<close>

definition answered :: "payload \<times> statusRecorder \<Rightarrow> bool" where
  "answered out \<longleftrightarrow> (case out of (body, r) \<Rightarrow> faithful r \<and> hasType body (reHeader (send body (srWriter r))))"

lemma text_answered: "faithful r \<Longrightarrow> \<not> jsonBody body \<Longrightarrow> answered (body, r)"
  by (simp add: answered_def hasType_def)

lemma writeJSON_answered: "fresh r \<Longrightarrow> answered (writeJSON code body r)"
  by (simp add: answered_def writeJSON_def written hasType_def)
     (simp add: fresh_def faithful_def WriteHeader_def writeStatus_def header_def setHeader_def send_def)

lemma respond_answered: "fresh r \<Longrightarrow> answered (respond f resp r)"
  by (simp add: respond_def writeError_def writeJSON_answered split: response.split)

lemma opaque_answered: "fresh r \<Longrightarrow> answered (opaque code r)"
  by (auto simp: opaque_def jsonBody_def fresh_def intro!: text_answered intro: written split: option.split)

lemma upgrade_answered: "fresh r \<Longrightarrow> answered (upgrade refused r)"
  by (auto simp: upgrade_def opaque_answered Hijack_def split: option.split)
     (auto simp: fresh_def faithful_def jsonBody_def intro!: text_answered)

lemma handle_answered: "handle en srv e rq r m = Some (out, m') \<Longrightarrow> fresh r \<Longrightarrow> answered out"
  by (cases e) (auto simp: handle_def respond_answered opaque_answered upgrade_answered split: outcome.splits)

lemma mux_answered: "mux en srv rq r m = Some (out, m') \<Longrightarrow> fresh r \<Longrightarrow> answered out"
  by (auto simp: mux_def httpRedirect_def httpError_def jsonBody_def intro!: text_answered written intro: handle_answered split: if_splits option.splits)

text \<open>The endpoint a request gets to, if any.\<close>

definition endpointOf :: "httpEnv \<Rightarrow> httpRequest \<Rightarrow> endpoint option" where
  "endpointOf en rq =
     (if enClean en (rqPath rq) = rqPath rq \<and> (rqMethod rq = ''GET'' \<or> rqMethod rq = ''HEAD'') then map_of routes (rqPath rq) else None)"

definition routed :: "httpEnv \<Rightarrow> server \<Rightarrow> httpRequest \<Rightarrow> bool" where
  "routed en srv rq \<longleftrightarrow> endpointOf en rq = Some EQuote \<and> reachesRouter (enOther en) srv (rqQuery rq)"

lemma handle_metrics:
  "handle en srv e rq r m = Some (out, m') \<Longrightarrow>
   m' = (if e = EQuote \<and> reachesRouter (enOther en) srv (rqQuery rq) then observeRouter (enElapsed en) m else m)"
  by (cases e) (auto simp: handle_def split: outcome.splits)

lemma mux_metrics: "mux en srv rq r m = Some (out, m') \<Longrightarrow> m' = (if routed en srv rq then observeRouter (enElapsed en) m else m)"
  by (auto simp: mux_def routed_def endpointOf_def dest!: handle_metrics split: if_splits option.splits)

text \<open>The requests whose connection is taken over: those the websocket library upgrades.\<close>

definition upgraded :: "httpEnv \<Rightarrow> httpRequest \<Rightarrow> bool" where
  "upgraded en rq \<longleftrightarrow> endpointOf en rq = Some EWs \<and> enWs en = None \<and> enHijacker en"

lemmas writer_defs = respond_def writeJSON_def writeError_def opaque_def upgrade_def Hijack_def httpError_def httpRedirect_def WriteHeader_def
  writeStatus_def header_def setHeader_def

lemma hijacked_kept [simp]:
  "rwHijacked (srWriter (WriteHeader c r)) = rwHijacked (srWriter r)" "rwHijacked (srWriter (header k v r)) = rwHijacked (srWriter r)"
  "rwHijacked (srWriter (snd (httpError c msg r))) = rwHijacked (srWriter r)"
  "rwHijacked (srWriter (snd (httpRedirect c url r))) = rwHijacked (srWriter r)"
  "rwHijacked (srWriter (snd (respond f resp r))) = rwHijacked (srWriter r)"
  "rwHijacked (srWriter (snd (opaque code r))) = rwHijacked (srWriter r)"
  by (simp_all add: writer_defs split: response.split option.split)

lemma handle_hijacked:
  "handle en srv e rq r m = Some (out, m') \<Longrightarrow> fresh r \<Longrightarrow>
   rwHijacked (srWriter (snd out)) \<longleftrightarrow> e = EWs \<and> enWs en = None \<and> rwHijacker (srWriter r)"
  by (cases e) (auto simp: handle_def upgrade_def Hijack_def fresh_def split: outcome.splits option.splits if_splits)

lemma mux_hijacked:
  "mux en srv rq r m = Some (out, m') \<Longrightarrow> fresh r \<Longrightarrow> rwHijacker (srWriter r) = enHijacker en \<Longrightarrow>
   rwHijacked (srWriter (snd out)) \<longleftrightarrow> upgraded en rq"
  by (auto simp: mux_def upgraded_def endpointOf_def handle_hijacked fresh_def split: if_splits option.splits)

lemma mux_status:
  assumes "mux en srv rq r m = Some ((body, rec), m')" "fresh r"
  shows "case endpointOf en rq of
      None \<Rightarrow> srStatus rec = (if enClean en (rqPath rq) \<noteq> rqPath rq then 301 else if map_of routes (rqPath rq) = None then 404 else 405)
    | Some e \<Rightarrow> handle en srv e rq r m = Some ((body, rec), m')"
  using assms by (auto simp: mux_def endpointOf_def writer_defs fresh_def split: if_splits option.splits)

lemma send_faithful:
  assumes "faithful r"
  shows "reStatus (send body (srWriter r)) = (if rwHijacked (srWriter r) then 101 else srStatus r)"
    "if rwHijacked (srWriter r) then srStatus r = 200 else hasCORS (reHeader (send body (srWriter r)))"
    "reBody (send body (srWriter r)) = body"
  using assms by (auto simp: faithful_def send_def split: if_splits)

subsection \<open>Properties\<close>


text \<open>A flaw: the path label is not bounded. Every path under \<^verbatim>\<open>/api/v1/\<close> is its own label, known or not, so requests
  for made-up paths make as many time series as there were requests.\<close>

theorem normalizePath_unbounded:
  assumes "distinct ss" "list_all (\<lambda>s. enClean en (''/api/v1/'' @ s) = ''/api/v1/'' @ s \<and> map_of routes (''/api/v1/'' @ s) = None) ss"
  shows "card {l. mtRequestTotal (foldl (\<lambda>m s. snd (Handler en srv \<lparr>rqMethod = ''GET'', rqPath = ''/api/v1/'' @ s, rqQuery = q\<rparr> m)) newMetrics ss) l \<noteq> 0}
    = length ss"
proof -
  let ?lab = "\<lambda>s. (''/api/v1/'' @ s, natString 404)"
  have step: "mtRequestTotal (snd (Handler en srv \<lparr>rqMethod = ''GET'', rqPath = ''/api/v1/'' @ s, rqQuery = q\<rparr> m))
      = (mtRequestTotal m)(?lab s := mtRequestTotal m (?lab s) + 1)" if "s \<in> set ss" for s m
    using that assms(2)
    by (simp add: list_all_iff Handler_def withCORS_def withLogging_def mux_def writer_defs newRecorder_def observeRequest_def
        normalizePath_def hasPrefix_def Let_def del: natString.simps)
  have "{l. mtRequestTotal (foldl (\<lambda>m s. snd (Handler en srv \<lparr>rqMethod = ''GET'', rqPath = ''/api/v1/'' @ s, rqQuery = q\<rparr> m)) m0 ts) l \<noteq> 0}
      = {l. mtRequestTotal m0 l \<noteq> 0} \<union> ?lab ` set ts" if "set ts \<subseteq> set ss" for ts m0
    using that
  proof (induction ts arbitrary: m0)
    case (Cons s ts)
    then show ?case using step[of s m0] by (auto simp del: fun_upd_apply simp: fun_upd_def split: if_splits)
  qed simp
  from this[of ss newMetrics] show ?thesis using assms(1) by (simp add: newMetrics_def card_image inj_on_def distinct_card)
qed

end
