(* ===== verification/Service.thy ===== *)
theory Service
  imports Command Api_Stream Api_Routes
begin

section \<open>The running service\<close>

text \<open>
  What \<^verbatim>\<open>run\<close> of \<^verbatim>\<open>cmd/aggregator/main.go\<close> leaves running: the loop of the indexer, the price stream, the handlers and the
  call pool, over one indexer, one hub and one set of metrics. Each acts atomically on what they share (the snapshot is one
  atomic pointer, the hub and the status are under their locks), so that any interleaving is a sequence of the
  steps of \<open>service_step\<close>. A request is handled on the snapshot it loads when it starts; its step is that moment. A refresh polls
  the sources that \<^verbatim>\<open>buildSources\<close> chose, in a world of its own: what the provider answers and what the clock
  shows may differ from refresh to refresh. The store may lose or get data at any time.
\<close>

record 'st service =
  svIx :: indexer
  svStore :: 'st
  svCfg :: config
  svStats :: "(poolStats \<times> brState) option"
  svStream :: stream
  svMetrics :: metrics

text \<open>The server as a handler sees it.\<close>

definition serverOf :: "'st service \<Rightarrow> server" where
  "serverOf s = \<lparr>srvHolder = ixHolder (svIx s), srvIndexer = svIx s, srvCfg = svCfg s, srvRpcStats = svStats s,
     srvClients = ClientCount (fst (svStream s))\<rparr>"

definition opened :: "server \<Rightarrow> 'st \<Rightarrow> 'st service" where
  "opened srv st = \<lparr>svIx = srvIndexer srv, svStore = st, svCfg = srvCfg srv, svStats = srvRpcStats srv,
     svStream = (newHub, 0), svMetrics = newMetrics\<rparr>"

inductive service_step :: "'r goRand \<Rightarrow> 'st redisClient \<Rightarrow> 'st service \<Rightarrow> 'st service \<Rightarrow> bool" for rnd client where
  sv_refresh: "wRand w = rnd \<Longrightarrow> wRedis w = client \<Longrightarrow> buildSources t0 (svCfg s) = (sources, rpc) \<Longrightarrow>
    pollAll w (multicallerOf rpc) sources = Some polled \<Longrightarrow>
    RefreshOnce client t1 polled t2 t3 (svIx s, svStore s) = (e, ix, st) \<Longrightarrow>
    service_step rnd client s (s\<lparr>svIx := ix, svStore := st\<rparr>)"
| sv_request: "Handler en (serverOf s) rq (svMetrics s) = (answer, m) \<Longrightarrow> service_step rnd client s (s\<lparr>svMetrics := m\<rparr>)"
| sv_stream: "ws_step (ixHolder (svIx s)) (svStream s) stream \<Longrightarrow> service_step rnd client s (s\<lparr>svStream := stream\<rparr>)"
| sv_calls: "svStats s \<noteq> None \<Longrightarrow> service_step rnd client s (s\<lparr>svStats := Some stats\<rparr>)"
| sv_store: "service_step rnd client s (s\<lparr>svStore := st\<rparr>)"

inductive_cases service_stepE: "service_step rnd client s s'"

subsection \<open>What is served can be quoted\<close>

definition quotable :: "holder \<Rightarrow> bool" where
  "quotable h \<longleftrightarrow> (\<forall>snap. holderGet h = Some snap \<longrightarrow> (\<exists>ps t. snap = BuildSnapshot ps t \<and> list_all ticks_complete ps))"

lemma pollSource_complete: "pollSource w mc src = Some (Inr ps) \<Longrightarrow> list_all ticks_complete ps"
proof (cases src)
  case (SimSource s)
  then show "pollSource w mc src = Some (Inr ps) \<Longrightarrow> ?thesis" using sims.complete[of "(wRand w, wMath w, None)" s ps]
    by (auto simp: pollSource_def polledCell_def split: outcome.splits)
next
  case (UniSource u)
  then show "pollSource w mc src = Some (Inr ps) \<Longrightarrow> ?thesis"
    using uni.complete[of "(wKeccak w, Aggregate (wKeccak w) (wRequest w 0) mc, Aggregate (wKeccak w) (wRequest w 1) mc)" u ps]
    by (auto simp: pollSource_def polledCell_def Let_def split: outcome.splits)
next
  case (SushiSource s)
  then show "pollSource w mc src = Some (Inr ps) \<Longrightarrow> ?thesis"
    using sushi.complete[of "(wKeccak w, Aggregate (wKeccak w) (wRequest w 2) mc)" s ps]
    by (auto simp: pollSource_def polledCell_def Let_def split: outcome.splits)
qed

lemma pollAll_complete: "pollAll w mc ss = Some polled \<Longrightarrow> list_all ticks_complete (healthyPools polled)"
proof (induction ss arbitrary: polled)
  case (Cons s ss)
  then obtain r rs where rs: "pollSource w mc s = Some r" "pollAll w mc ss = Some rs" "polled = r # rs" by (auto split: option.splits)
  have "list_all ticks_complete (case r of Inl _ \<Rightarrow> [] | Inr ps \<Rightarrow> ps)" using rs(1) pollSource_complete by (auto split: sum.split)
  then show ?case using Cons.IH[OF rs(2)] rs(3) by (cases r) (auto simp: healthyPools_def)
qed (simp add: healthyPools_def)

lemma quotable_built: "holderGet h = Some (BuildSnapshot ps t) \<Longrightarrow> list_all ticks_complete ps \<Longrightarrow> quotable h"
  unfolding quotable_def by (metis option.inject)

lemma refresh_quotable:
  assumes "RefreshOnce client t1 polled t2 t3 (ix, st) = (e, ix', st')" "length polled = length (ixSources ix)"
    and "list_all ticks_complete (healthyPools polled)" "quotable (ixHolder ix)"
  shows "quotable (ixHolder ix')"
proof (cases e)
  case None
  have "holderGet (ixHolder ix') = Some (BuildSnapshot (healthyPools polled) t3)"
    using RefreshOnce_success(2)[OF assms(1)[unfolded None] assms(2)] by (auto simp: recordSuccess_def Let_def)
  then show ?thesis using assms(3) by (rule quotable_built)
next
  case (Some err)
  then show ?thesis using RefreshOnce_failure(3)[OF assms(1)[unfolded Some] assms(2)] assms(4) by simp
qed

lemma quotable_quote:
  assumes "quotable (srvHolder srv)"
  shows "\<exists>resp. handleQuote other elapsed now srv q = Ok resp"
proof -
  have "FindBestRoute (Some snap) a b c d \<noteq> Panic" if "holderGet (srvHolder srv) = Some snap" for snap a b c d
    using assms that built.route_no_panic[OF BuildSnapshot_ticks_complete] by (auto simp: quotable_def)
  then show ?thesis by (auto simp: handleQuote_def split: option.split sum.split outcome.split)
qed

lemma quotable_arbitrage:
  assumes "quotable (srvHolder srv)"
  shows "\<exists>resp. handleArbitrage order srv = Ok resp"
proof -
  have "FindArbitrage (Some snap) probe d \<noteq> None" if "holderGet (srvHolder srv) = Some snap" for snap probe d
    using assms that built.probe_fold_no_panic[OF BuildSnapshot_ticks_complete]
    by (auto simp: quotable_def FindArbitrage_def simp del: not_None_eq split: option.split)
  then show ?thesis by (auto simp: handleArbitrage_def Let_def simp del: not_None_eq split: option.split)
qed

lemma quotable_handle: "quotable (srvHolder srv) \<Longrightarrow> handle en srv e rq r m \<noteq> None"
  using quotable_quote[of srv "enOther en" "enElapsed en" "enNow en" "rqQuery rq"] quotable_arbitrage[of srv "enOrder en"]
  by (cases e) (auto simp: handle_def)

lemma quotable_Handler: "quotable (srvHolder srv) \<Longrightarrow> fst (Handler en srv rq m) \<noteq> None"
  using quotable_handle by (auto simp: Handler_def withCORS_def withLogging_def mux_def Let_def simp del: not_None_eq split: option.split prod.split)

lemma EdgesFrom_pools:
  assumes "e \<in> set (EdgesFrom (BuildSnapshot ps t) a)"
  shows "edgePool e \<in> set (snPools (BuildSnapshot ps t))"
proof -
  let ?s = "BuildSnapshot ps t"
  obtain i r where i: "tokenIndex ?s a = Some i" and r: "r \<in> set (snAdj ?s ! i)" "edgePool e = snPools ?s ! ePool r"
    using assms by (cases "tokenIndex ?s a") (auto simp: EdgesFrom_def tokenIndex_def)
  have "ePool r < length (snPools ?s)"
    using built.edges[of ps t] built.index[OF i] r(1) by (auto simp: edges_ok_def edge_ok_def)
  then show ?thesis using r(2) by simp
qed

lemma quotable_prices:
  assumes "quotable h"
  shows "currentPrices now h \<noteq> None"
proof (cases "holderGet h")
  case (Some snap)
  then obtain ps t where snap: "snap = BuildSnapshot ps t" "list_all ticks_complete ps" using assms by (auto simp: quotable_def)
  have pools: "\<forall>e \<in> set (EdgesFrom snap a). ticks_complete (edgePool e)" for a
    using BuildSnapshot_ticks_complete[OF snap(2), of t] EdgesFrom_pools[of _ ps t a] unfolding snap(1) by (auto simp: list_all_iff)
  have "foldM (pairPrice snap now) prs (out, sc) \<noteq> None" if "sc One = 1" for prs out sc
    using that
  proof (induction prs arbitrary: out sc)
    case (Cons pr prs)
    have "\<exists>out' sc'. pairPrice snap now pr (out, sc) = Some (out', sc') \<and> sc' One = 1"
    proof (cases "TokenBySymbol (fst pr)"; cases "TokenBySymbol (snd pr)")
      fix base quot
      assume t: "TokenBySymbol (fst pr) = Some base" "TokenBySymbol (snd pr) = Some quot"
      obtain best sc' where b: "bestDirectPrice snap sc base quot = Some (best, sc')"
        using bestDirectPrice_total[where snap = snap and sc = sc and base = base and quot = quot, OF pools Cons.prems] by fastforce
      then show ?thesis using t bestDirectPrice_eq[OF b Cons.prems] by (auto simp: pairPrice_def split: option.split)
    qed (auto simp: pairPrice_def Cons.prems)
    then obtain out' sc' where "pairPrice snap now pr (out, sc) = Some (out', sc')" "sc' One = 1" by blast
    then show ?case using Cons.IH[of sc' out'] by simp
  qed simp
  then show ?thesis using Some by (auto simp: currentPrices_def NewScratch_def)
qed (simp add: currentPrices_def)

subsection \<open>The invariant\<close>

definition service_inv :: "'st service \<Rightarrow> bool" where
  "service_inv s \<longleftrightarrow> ix_inv (svIx s) \<and> stream_inv (svStream s) \<and> quotable (ixHolder (svIx s))
     \<and> (\<forall>t. length (ixSources (svIx s)) = length (fst (buildSources t (svCfg s))))"

lemma service_step_inv:
  assumes "service_step rnd client s s'" "service_inv s"
  shows "service_inv s' \<and> svCfg s' = svCfg s
    \<and> (holderGet (ixHolder (svIx s)) \<noteq> None \<longrightarrow> holderGet (ixHolder (svIx s')) \<noteq> None)"
  using assms
proof (induction rule: service_step.induct)
  case (sv_refresh w t0 s sources rpc polled t1 t2 t3 e ix st)
  have len: "length polled = length (ixSources (svIx s))"
    using pollAll_length[OF sv_refresh(4)] sv_refresh(3,6) unfolding service_inv_def by (metis fst_conv)
  have "ix_step client (svIx s, svStore s) (ix, st)" by (rule step_refresh[OF len sv_refresh(5)])
  from ix_step_inv[OF this] refresh_quotable[OF sv_refresh(5) len pollAll_complete[OF sv_refresh(4)]] sv_refresh(6)
  show ?case by (auto simp: service_inv_def)
next
  case (sv_stream s stream)
  then show ?case using wsm.step_inv by (auto simp: service_inv_def)
qed (auto simp: service_inv_def)

definition service_since :: "'st service \<Rightarrow> 'st service \<Rightarrow> bool" where
  "service_since s t \<longleftrightarrow> svCfg t = svCfg s \<and> (holderGet (ixHolder (svIx s)) \<noteq> None \<longrightarrow> holderGet (ixHolder (svIx t)) \<noteq> None)"

lemma buildSources_time: "fst (buildSources t cfg) = fst (buildSources t' cfg)"
  by (simp add: buildSources_def Let_def)

text \<open>What \<open>start\<close> hands over, taken apart.\<close>

lemma start_Ok:
  assumes "start ps env w st = Ok (srv, st0)"
  obtains cfg sources rpc ix1 st1 e1 polled e2 where
    "Load ps env = Inr cfg" "buildSources (wClock w 4) cfg = (sources, rpc)"
    "WarmStart (wRedis w) (wClock w 0) (firstIndex w cfg st sources) = (e1, ix1, st1)"
    "pollAll w (multicallerOf rpc) sources = Some polled"
    "RefreshOnce (wRedis w) (wClock w 1) polled (wClock w 2) (wClock w 3) (ix1, st1) = (e2, srvIndexer srv, st0)"
    "srvHolder srv = ixHolder (srvIndexer srv)" "srvCfg srv = cfg"
  using assms
  by (auto simp: start_def Let_def NewServer_def WithRPCStats_def case_prod_beta[of _ "openStore (wRedis w) cfg st" for cfg] split: sum.splits prod.splits option.splits)

lemma warm_quotable:
  assumes "WarmStart client now (ix, st) = (e, ix', st')" "quotable (ixHolder ix)"
    and "\<And>stored. LoadPools client (ixStore ix) st = Inr stored \<Longrightarrow> list_all ticks_complete stored"
  shows "quotable (ixHolder ix')"
proof (cases "ixHolder ix' = ixHolder ix")
  case False
  then obtain stored where "LoadPools client (ixStore ix) st = Inr stored" "holderGet (ixHolder ix') = Some (BuildSnapshot stored now)"
    using assms(1) by (auto simp: WarmStart_def split: sum.splits if_splits)
  then show ?thesis using assms(3) quotable_built by blast
qed (simp add: assms(2))

lemma start_inv:
  assumes "start ps env w st = Ok (srv, st0)"
    and "\<And>cfg stored. Load ps env = Inr cfg \<Longrightarrow> LoadPools (wRedis w) (fst (openStore (wRedis w) cfg st)) (snd (openStore (wRedis w) cfg st)) = Inr stored
           \<Longrightarrow> list_all ticks_complete stored"
  shows "service_inv (opened srv st0)"
proof (rule start_Ok[OF assms(1)])
  fix cfg sources rpc ix1 st1 e1 polled e2
  assume h: "Load ps env = Inr cfg" "buildSources (wClock w 4) cfg = (sources, rpc)" "pollAll w (multicallerOf rpc) sources = Some polled"
    "RefreshOnce (wRedis w) (wClock w 1) polled (wClock w 2) (wClock w 3) (ix1, st1) = (e2, srvIndexer srv, st0)" "srvCfg srv = cfg"
    and warm: "WarmStart (wRedis w) (wClock w 0) (firstIndex w cfg st sources) = (e1, ix1, st1)"
  let ?ix0 = "NewIndexer (map sourceName sources) NewHolder (Some (fst (openStore (wRedis w) cfg st))) (cRefreshInterval cfg)"
  have ix0: "ix_inv ?ix0" "quotable (ixHolder ?ix0)" "ixStore ?ix0 = fst (openStore (wRedis w) cfg st)" "ixSources ?ix0 = map sourceName sources"
    by (rule NewIndexer_inv) (auto simp: published_ok_def quotable_def NewIndexer_def holderGet_def NewHolder_def)
  have ix1: "ix_inv ix1" "ixSources ix1 = map sourceName sources"
    using ix_step_inv[OF step_warm[OF warm]] ix0 by auto
  have q1: "quotable (ixHolder ix1)" by (rule warm_quotable[OF warm ix0(2)]) (use assms(2)[OF h(1)] ix0(3) in auto)
  have len: "length polled = length (ixSources ix1)" using pollAll_length[OF h(3)] ix1(2) by simp
  have "ix_inv (srvIndexer srv) \<and> ixSources (srvIndexer srv) = ixSources ix1"
    using ix_step_inv[OF step_refresh[OF len h(4)]] ix1(1) by simp
  moreover have "quotable (ixHolder (srvIndexer srv))" by (rule refresh_quotable[OF h(4) len pollAll_complete[OF h(3)] q1])
  moreover have "length (fst (buildSources t cfg)) = length sources" for t using h(2) buildSources_time[of t cfg "wClock w 4"] by simp
  ultimately show ?thesis using ix1(2) h(5) newHub_inv by (simp add: service_inv_def opened_def)
qed

text \<open>The states the service opens in, on stored pools that can be quoted.\<close>

definition service_initial :: "'r goRand \<Rightarrow> 'st redisClient \<Rightarrow> 'st service \<Rightarrow> bool" where
  "service_initial rnd client s \<longleftrightarrow> (\<exists>ps env w st srv st0. wRand w = rnd \<and> wRedis w = client \<and> s = opened srv st0 \<and> start ps env w st = Ok (srv, st0)
     \<and> (\<forall>cfg stored. Load ps env = Inr cfg \<and> LoadPools client (fst (openStore client cfg st)) (snd (openStore client cfg st)) = Inr stored \<longrightarrow> list_all ticks_complete stored))"

lemma service_initial_inv: "service_initial rnd client s \<Longrightarrow> service_inv s"
  unfolding service_initial_def by (elim exE conjE, hypsubst, rule start_inv) auto

interpretation svm: machine "service_step rnd client" service_inv service_since "service_initial rnd client" for rnd client
  by unfold_locales (auto dest: service_step_inv service_initial_inv simp: service_since_def)

end
