(* ===== verification/Rpc_Client.thy ===== *)
theory Rpc_Client
  imports Rpc_Pool Rpc_Multicall
begin

section \<open>Batched reads through the call pool (\<^verbatim>\<open>Aggregate\<close> of \<^verbatim>\<open>internal/rpc/multicall.go\<close>)\<close>

text \<open>
  \<open>Rpc_Multicall\<close> leaves the request of a batch open. Here it is the call of the pool the code makes: an
  \<^verbatim>\<open>eth_call\<close> of the multicall contract, with its retries, its breaker and its limiter, whose raw answer has to be a
  string. The pool is threaded through the batches; the environment gives each batch its own. The
  theorem is that none of this shows in the data.
\<close>

definition ethParams :: "multicaller \<Rightarrow> string \<Rightarrow> json list" where
  "ethParams m payload = [JObj [(''data'', JStr payload), (''to'', JStr (mcAddress m))], JStr ''latest'']"

text \<open>\<^verbatim>\<open>json.Unmarshal\<close> of the raw answer into a string; an empty message is no document.\<close>

definition hexResult :: "json option \<Rightarrow> string option" where
  "hexResult raw = (case raw of None \<Rightarrow> None | Some j \<Rightarrow> jsonStr j)"

definition requestBatch :: "(gofloat \<Rightarrow> int) \<Rightarrow> multicaller \<Rightarrow> int option \<Rightarrow> bool \<times> (nat \<Rightarrow> attempt) \<Rightarrow> string \<Rightarrow> rpcPool
                              \<Rightarrow> (mc_error, string) outcome option \<times> rpcPool" where
  "requestBatch conv m deadline e payload p =
     (case Do conv \<lparr>caMethod = ''eth_call'', caParams = ethParams m payload, caDeadline = deadline\<rparr> (fst e) (snd e) p of
        (None, p) \<Rightarrow> (None, p)
      | (Some Panic, p) \<Rightarrow> (Some Panic, p)
      | (Some (Err _), p) \<Rightarrow> (Some (Err RequestError), p)
      | (Some (Ok raw), p) \<Rightarrow>
          (case hexResult raw of None \<Rightarrow> (Some (Err RequestError), p) | Some hex \<Rightarrow> (Some (Ok hex), p)))"

function aggregateVia :: "(gofloat \<Rightarrow> int) \<Rightarrow> (byte list \<Rightarrow> byte list) \<Rightarrow> multicaller \<Rightarrow> int option \<Rightarrow> (nat \<Rightarrow> bool \<times> (nat \<Rightarrow> attempt))
                              \<Rightarrow> nat \<Rightarrow> mcall list \<Rightarrow> rpcPool \<Rightarrow> (mc_error, mresult list) outcome option \<times> rpcPool" where
  "aggregateVia conv keccak m deadline env i calls p =
     (if calls = [] \<or> nat (mcBatchSize m) = 0 then (Some (Ok []), p)
      else
        let chunk = take (nat (mcBatchSize m)) calls
        in case encodeTryAggregate keccak False chunk of
             Inl e \<Rightarrow> (Some (Err (AbiError e)), p)
           | Inr payload \<Rightarrow>
             (case requestBatch conv m deadline (env i) (EncodeHex payload) p of
                (None, p) \<Rightarrow> (None, p)
              | (Some Panic, p) \<Rightarrow> (Some Panic, p)
              | (Some (Err e), p) \<Rightarrow> (Some (Err e), p)
              | (Some (Ok hex), p) \<Rightarrow>
                (case decodeTryAggregate hex (length chunk) of
                   Panic \<Rightarrow> (Some Panic, p)
                 | Err e \<Rightarrow> (Some (Err e), p)
                 | Ok decoded \<Rightarrow>
                     (case aggregateVia conv keccak m deadline env (Suc i) (drop (nat (mcBatchSize m)) calls) p of
                        (r, p) \<Rightarrow> (map_option (map_outcome_ok ((@) decoded)) r, p)))))"
  by pat_completeness auto
termination by (relation "measure (\<lambda>(_, _, _, _, _, _, calls, _). length calls)") auto

declare aggregateVia.simps [simp del]

definition AggregateVia :: "(gofloat \<Rightarrow> int) \<Rightarrow> (byte list \<Rightarrow> byte list) \<Rightarrow> multicaller \<Rightarrow> int option \<Rightarrow> (nat \<Rightarrow> bool \<times> (nat \<Rightarrow> attempt))
                              \<Rightarrow> mcall list \<Rightarrow> rpcPool \<Rightarrow> (mc_error, mresult list) outcome option \<times> rpcPool" where
  "AggregateVia conv keccak m deadline env calls p =
     (if calls = [] then (Some (Ok []), p) else aggregateVia conv keccak m deadline env 0 calls p)"

subsection \<open>Retries do not show in the data\<close>

lemma Do_answers:
  assumes "Do conv c slot env p = (Some (Ok raw), q)"
  shows "\<exists>k i. answers (atServer (env k) (request_doc i (caMethod c) (caParams c))) raw"
proof -
  have "slot" using assms by (cases slot) (simp_all add: Do_def)
  then obtain m n p' where "doLoop n 0 conv c env None p' = (Some (Ok raw), m)"
    using assms by (auto simp: Do_def Let_def split: prod.splits option.splits)
  then obtain k p2 where "tryOnce conv c (env (0 + k)) p2 = (Inl (Some (Ok raw)), m)" using doLoop_Ok by blast
  from tryOnce_Ok[OF this] show ?thesis by auto
qed

text \<open>Whenever the provider answers a batch at all, this is its answer.\<close>

definition replies :: "multicaller \<Rightarrow> (nat \<Rightarrow> bool \<times> (nat \<Rightarrow> attempt)) \<Rightarrow> string \<Rightarrow> string \<Rightarrow> bool" where
  "replies m env payload reply \<longleftrightarrow> (\<forall>b k i raw.
     answers (atServer (snd (env b) k) (request_doc i ''eth_call'' (ethParams m payload))) raw \<longrightarrow> raw = Some (JStr reply))"

text \<open>The reference: ask the batches one after the other, and look only at whether an answer came.\<close>

fun chunksOf :: "nat \<Rightarrow> 'a list \<Rightarrow> 'a list list" where
  "chunksOf n xs = (if xs = [] \<or> n = 0 then [] else take n xs # chunksOf n (drop n xs))"

declare chunksOf.simps [simp del]

definition batchArgs :: "(byte list \<Rightarrow> byte list) \<Rightarrow> multicaller \<Rightarrow> int option \<Rightarrow> mcall list \<Rightarrow> callArgs" where
  "batchArgs keccak m deadline chunk = \<lparr>caMethod = ''eth_call'',
     caParams = ethParams m (case encodeTryAggregate keccak False chunk of Inr payload \<Rightarrow> EncodeHex payload | Inl _ \<Rightarrow> []), caDeadline = deadline\<rparr>"

fun askAll :: "(gofloat \<Rightarrow> int) \<Rightarrow> (mcall list \<Rightarrow> callArgs) \<Rightarrow> (nat \<Rightarrow> bool \<times> (nat \<Rightarrow> attempt)) \<Rightarrow> nat \<Rightarrow> mcall list list \<Rightarrow> rpcPool
                 \<Rightarrow> (mc_error, unit) outcome option \<times> rpcPool" where
  "askAll conv args env i [] p = (Some (Ok ()), p)"
| "askAll conv args env i (chunk # chunks) p =
     (case Do conv (args chunk) (fst (env i)) (snd (env i)) p of
        (None, p) \<Rightarrow> (None, p)
      | (Some Panic, p) \<Rightarrow> (Some Panic, p)
      | (Some (Err _), p) \<Rightarrow> (Some (Err RequestError), p)
      | (Some (Ok _), p) \<Rightarrow> askAll conv args env (Suc i) chunks p)"

definition answered :: "'b \<Rightarrow> ('e, 'a) outcome option \<times> rpcPool \<Rightarrow> ('e, 'b) outcome option \<times> rpcPool" where
  "answered v rp = (map_option (map_outcome_ok (\<lambda>_. v)) (fst rp), snd rp)"

lemma requestBatch_reply:
  assumes "replies m env payload reply"
  shows "requestBatch conv m deadline (env b) payload p =
    (case Do conv \<lparr>caMethod = ''eth_call'', caParams = ethParams m payload, caDeadline = deadline\<rparr> (fst (env b)) (snd (env b)) p of
       (None, p) \<Rightarrow> (None, p) | (Some Panic, p) \<Rightarrow> (Some Panic, p) | (Some (Err _), p) \<Rightarrow> (Some (Err RequestError), p)
     | (Some (Ok _), p) \<Rightarrow> (Some (Ok reply), p))"
proof -
  have "hexResult raw = Some reply"
    if "Do conv \<lparr>caMethod = ''eth_call'', caParams = ethParams m payload, caDeadline = deadline\<rparr> (fst (env b)) (snd (env b)) p = (Some (Ok raw), q)" for raw q
  proof -
    have "raw = Some (JStr reply)" using Do_answers[OF that] assms by (auto simp: replies_def)
    then show ?thesis by (simp add: hexResult_def)
  qed
  then show ?thesis by (auto simp: requestBatch_def split: prod.split option.split outcome.split)
qed

lemma aggregateVia_asks:
  assumes "0 < mcBatchSize m" "\<forall>c \<in> set calls. \<exists>w. encodeAddress (callTarget c) = Inr w"
    and "\<And>chunk payload. set chunk \<subseteq> set calls \<Longrightarrow> int (length chunk) \<le> mcBatchSize m \<Longrightarrow>
           encodeTryAggregate keccak False chunk = Inr payload \<Longrightarrow>
           replies m env (EncodeHex payload) (EncodeHex (encodeResults (map ans chunk)))
           \<and> length (encodeResults (map ans chunk)) < 2 ^ 63"
  shows "aggregateVia conv keccak m deadline env i calls p
    = answered (map ans calls) (askAll conv (batchArgs keccak m deadline) env i (chunksOf (nat (mcBatchSize m)) calls) p)"
  using assms(2,3)
proof (induction "length calls" arbitrary: calls i p rule: less_induct)
  case less
  let ?b = "nat (mcBatchSize m)"
  show ?case
  proof (cases "calls = []")
    case True
    then show ?thesis by (simp add: aggregateVia.simps chunksOf.simps answered_def)
  next
    case False
    let ?chunk = "take ?b calls"
    have sub: "set ?chunk \<subseteq> set calls" "set (drop ?b calls) \<subseteq> set calls" by (auto dest: in_set_takeD in_set_dropD)
    then obtain es where "encodeElements ?chunk = Inr es" using encodeElements_take[of ?chunk] less.prems(1) by blast
    then obtain payload where payload: "encodeTryAggregate keccak False ?chunk = Inr payload"
      by (simp add: encodeTryAggregate_def Let_def)
    have req: "replies m env (EncodeHex payload) (EncodeHex (encodeResults (map ans ?chunk)))"
      "length (encodeResults (map ans ?chunk)) < 2 ^ 63"
      using less.prems(2)[OF sub(1) _ payload] assms(1) by auto
    have "length (drop ?b calls) < length calls" using assms(1) False by simp
    moreover have "\<forall>c \<in> set (drop ?b calls). \<exists>w. encodeAddress (callTarget c) = Inr w" using less.prems(1) sub(2) by blast
    ultimately have rest: "aggregateVia conv keccak m deadline env (Suc i) (drop ?b calls) q
        = answered (map ans (drop ?b calls)) (askAll conv (batchArgs keccak m deadline) env (Suc i) (chunksOf ?b (drop ?b calls)) q)" for q
      by (rule less.hyps) (use less.prems(2) sub(2) in blast)+
    have chunks: "chunksOf ?b calls = ?chunk # chunksOf ?b (drop ?b calls)"
      using False assms(1) by (subst chunksOf.simps) simp
    have join: "map_option (map_outcome_ok ((@) (map ans ?chunk))) (fst (answered (map ans (drop ?b calls)) x)) = fst (answered (map ans calls) x)"
      for x :: "(mc_error, unit) outcome option \<times> rpcPool"
      by (cases "fst x"; cases "the (fst x)") (auto simp: answered_def simp flip: map_append)
    obtain x q where x: "Do conv (batchArgs keccak m deadline ?chunk) (fst (env i)) (snd (env i)) p = (x, q)" by fastforce
    then have r: "requestBatch conv m deadline (env i) (EncodeHex payload) p =
        (case x of None \<Rightarrow> (None, q) | Some Panic \<Rightarrow> (Some Panic, q) | Some (Err _) \<Rightarrow> (Some (Err RequestError), q)
         | Some (Ok _) \<Rightarrow> (Some (Ok (EncodeHex (encodeResults (map ans ?chunk)))), q))"
      by (simp add: requestBatch_reply[OF req(1)] batchArgs_def payload)
    have dec: "decodeTryAggregate (EncodeHex (encodeResults (map ans ?chunk))) (length ?chunk) = Ok (map ans ?chunk)"
      using decode_encodeResults[OF req(2)] by simp
    show ?thesis
      unfolding aggregateVia.simps[of _ _ _ _ _ i]
      by (use False assms(1) in \<open>simp add: Let_def payload chunks x r rest dec del: length_take split: option.split outcome.split\<close>)
        (simp add: answered_def join[unfolded answered_def, simplified] split: prod.split)
  qed
qed

subsection \<open>Properties\<close>

text \<open>C27. Batched reads through the pool return what the chain says: suppose every answer the provider gives to a batch is
  the ABI encoding of the answers \<open>ans\<close> of its calls, however often, at whatever attempt, and among whatever failures.
  Then \<^verbatim>\<open>Aggregate\<close> over the pool, its retries, its breaker and its limiter behaves as asking the batches in
  turn: as soon as one gets no answer its failure is returned, and otherwise exactly the answer of every call is, in
  order; no decoding error, no partial and no shifted result.\<close>

theorem Aggregate_end_to_end:
  assumes "0 < mcBatchSize m" "\<forall>c \<in> set calls. \<exists>w. encodeAddress (callTarget c) = Inr w"
    and "\<And>chunk payload. set chunk \<subseteq> set calls \<Longrightarrow> int (length chunk) \<le> mcBatchSize m \<Longrightarrow>
           encodeTryAggregate keccak False chunk = Inr payload \<Longrightarrow>
           replies m env (EncodeHex payload) (EncodeHex (encodeResults (map ans chunk)))
           \<and> length (encodeResults (map ans chunk)) < 2 ^ 63"
  shows "AggregateVia conv keccak m deadline env calls p
    = answered (map ans calls) (askAll conv (batchArgs keccak m deadline) env 0 (chunksOf (nat (mcBatchSize m)) calls) p)"
  using aggregateVia_asks[where conv = conv and deadline = deadline and i = 0 and p = p, OF assms(1,2), of keccak env ans] assms(3)
  by (auto simp: AggregateVia_def answered_def chunksOf.simps)

definition exampleServer :: "json \<Rightarrow> httpReply" where
  "exampleServer doc =
     (case doc of
        JObj [_, _, _, (_, JArr [JObj [(_, JStr payload), _], _])] \<Rightarrow>
          (case exampleNode payload of
             Ok hex \<Rightarrow> Answered 200 [] (Some (JObj [(''jsonrpc'', JStr ''2.0''), (''id'', JInt 1), (''result'', JStr hex)]))
           | _ \<Rightarrow> Answered 500 [] None)
      | _ \<Rightarrow> Answered 500 [] None)"

lemma exampleServer_answers:
  assumes "exampleNode payload = Ok hex"
  shows "answers (exampleServer (request_doc i method (ethParams m payload))) raw \<longleftrightarrow> raw = Some (JStr hex)"
  using assms by (auto simp: exampleServer_def request_doc_def marshalRequest_def ethParams_def answers_def response_result)

theorem Aggregate_end_to_end_witness:
  "fst (AggregateVia (\<lambda>_. 0) zeroKeccak (NewMulticaller [] 2) None (\<lambda>_. (True, \<lambda>_. exampleAttempt\<lparr>atServer := exampleServer\<rparr>))
     [exampleCall [1], exampleCall [2]] examplePool) = Some (Ok (replicate 2 \<lparr>resSuccess = True, resReturnData = []\<rparr>))"
proof -
  let ?env = "\<lambda>_ :: nat. (True, \<lambda>_ :: nat. exampleAttempt\<lparr>atServer := exampleServer\<rparr>)" and ?m = "NewMulticaller [] 2"
    and ?calls = "[exampleCall [1], exampleCall [2]]"
  have m: "0 < mcBatchSize ?m" "mcBatchSize ?m = 2" by (simp_all add: NewMulticaller_def)
  have node: "replies ?m ?env (EncodeHex payload) (EncodeHex (encodeResults (map exampleAnswer chunk)))
      \<and> length (encodeResults (map exampleAnswer chunk)) < 2 ^ 63"
    if "int (length chunk) \<le> mcBatchSize ?m" "encodeTryAggregate zeroKeccak False chunk = Inr payload" for chunk payload
    using exampleNode_answers[of chunk payload] exampleServer_answers that by (simp add: m(2) replies_def)
  have addr: "\<forall>c \<in> set ?calls. \<exists>w. encodeAddress (callTarget c) = Inr w" using exampleCall_address by fastforce
  then obtain es where "encodeElements ?calls = Inr es" using encodeElements_take[of ?calls] by blast
  then obtain payload where payload: "encodeTryAggregate zeroKeccak False ?calls = Inr payload" by (simp add: encodeTryAggregate_def Let_def)
  let ?c = "batchArgs zeroKeccak ?m None ?calls"
  have "fst (Call exampleServer (caMethod ?c) (caParams ?c) t) = Inr (Some (JStr (EncodeHex (encodeResults (map exampleAnswer ?calls)))))" for t
    using exampleNode_answers[of ?calls payload] exampleServer_answers payload by (simp add: batchArgs_def Call_Inr_iff)
  from example_call[OF this] obtain q raw where ok: "Do (\<lambda>_. 0) ?c True (\<lambda>_. exampleAttempt\<lparr>atServer := exampleServer\<rparr>) examplePool = (Some (Ok raw), q)"
    by (metis prod.collapse)
  have "chunksOf (nat (mcBatchSize ?m)) ?calls = [?calls]" by (simp add: m(2) chunksOf.simps)
  then show ?thesis
    using Aggregate_end_to_end[where conv = "\<lambda>_. 0" and deadline = None and p = examplePool and ans = exampleAnswer, OF m(1) addr node] ok
    by (simp add: answered_def exampleAnswer_def numeral_2_eq_2)
qed

end
