(* ===== verification/Spec2Isabelle.thy ===== *)
theory Spec2Isabelle
  imports Service Rpc_Client
begin

text \<open>
  \<^bold>\<open>A verification development of the DEX aggregator.\<close>

  \<^bold>\<open>The program.\<close> The service reads liquidity pools of two protocols (constant product and concentrated
  liquidity) from an Ethereum provider, keeps an immutable graph of them in memory, and answers quote requests
  with the best route it finds. The parts and how they call each other:

    \<^item> \<^verbatim>\<open>internal/amm\<close> computes swaps: tick mathematics, the constant-product formula, the tick-crossing loop.
      All of it works in a reusable workspace of big integers (\<^verbatim>\<open>Scratch\<close>) to avoid allocation.
    \<^item> \<^verbatim>\<open>internal/dex\<close> holds the pool record and quotes a pool in either direction, choosing the formula by protocol.
    \<^item> \<^verbatim>\<open>internal/graph\<close> builds the snapshot, searches routes by bounded relaxation, and looks for arbitrage loops
      with the same search.
    \<^item> \<^verbatim>\<open>internal/rpc\<close> calls the provider: ABI words, batched calls through a multicall contract, a circuit breaker,
      a rate limiter, and a call pool with retries.
    \<^item> \<^verbatim>\<open>internal/dex/onchain\<close> derives pool addresses and reads pools through \<^verbatim>\<open>internal/rpc\<close>.
    \<^item> \<^verbatim>\<open>internal/cache\<close> holds the published snapshot and stores pools in Redis for warm starts.
    \<^item> \<^verbatim>\<open>internal/indexer\<close> polls the sources, builds a snapshot, publishes it and saves its pools.
    \<^item> \<^verbatim>\<open>internal/api\<close> answers HTTP requests from the published snapshot and streams prices.
    \<^item> \<^verbatim>\<open>internal/config\<close> reads the settings from the environment.
    \<^item> \<^verbatim>\<open>internal/dex/sim\<close> makes up a market from a seed, for running without a provider.
    \<^item> \<^verbatim>\<open>cmd/aggregator\<close> puts the parts together and starts them.

  \<^bold>\<open>The theories\<close>, each modelling the source file of its name:

    \<^item> \<open>Prelude\<close>: outcomes (\<open>Ok\<close>, \<open>Err\<close>, \<open>Panic\<close>), Go's integer arithmetic (\<open>go_div\<close> is \<^verbatim>\<open>big.Int.Div\<close>, \<open>wrap32\<close> and
      \<open>wrap64\<close> the machine integers), string functions, monadic folds over loops that may panic, and the lemmas on
      lists, options and folds the other theories share.
    \<^item> \<open>Go_Json\<close>: JSON documents and decoding them into structures. \<open>Go_Decimal\<close>, \<open>Go_Duration\<close>: printing and parsing of integers, printing of durations. \<open>Go_Float\<close>: binary64
      arithmetic (\<open>gofloat\<close>, exact rationals rounded to the nearest double, with infinities and NaN, under the library's operator signs) and
      \<^verbatim>\<open>big.Float\<close> with its precision.
    \<^item> \<open>Amm_TickMath\<close> (\<^verbatim>\<open>tickmath.go\<close>, \<^verbatim>\<open>amount.go\<close>), \<open>Amm_Scratch\<close> (\<^verbatim>\<open>scratch.go\<close>), \<open>Amm_V2\<close> (\<^verbatim>\<open>v2.go\<close>),
      \<open>Amm_V3\<close> (\<^verbatim>\<open>v3.go\<close>). The workspace is a store from register names to integers; a \<^verbatim>\<open>*big.Int\<close> result is a
      reference into it (\<open>Reg\<close>) or a foreign value (\<open>Ext\<close>), so that aliasing is visible. The theories also hold
      pure reference functions (\<open>swapV3\<close> and others) and the refinement of the in-place code to them.
    \<^item> \<open>Dex_Pool\<close> (\<^verbatim>\<open>pool.go\<close>, \<^verbatim>\<open>tokens.go\<close>), \<open>Graph_Snapshot\<close>, \<open>Graph_Router\<close>, \<open>Graph_Arbitrage\<close>. The relaxation table is
      a record of matrices indexed by round and token, as in the code.
    \<^item> \<open>Rpc_Breaker\<close>, \<open>Rpc_Limiter\<close>, \<open>Rpc_Transport\<close>, \<open>Rpc_Pool\<close>, \<open>Rpc_Abi\<close>, \<open>Rpc_Multicall\<close>, \<open>Dex_Onchain\<close> (\<^verbatim>\<open>addresses.go\<close>, \<^verbatim>\<open>sushiswap.go\<close>,
      \<^verbatim>\<open>uniswapv3.go\<close>), \<open>Dex_Sim\<close> (\<^verbatim>\<open>sim/source.go\<close>).
    \<^item> \<open>Cache_Store\<close> (\<^verbatim>\<open>holder.go\<close>, \<^verbatim>\<open>store.go\<close>), \<open>Indexer\<close>, \<open>Config\<close>.
    \<^item> \<open>Api_Amount\<close> (\<^verbatim>\<open>parseAmount\<close> of \<^verbatim>\<open>quote.go\<close>), \<open>Api_Server\<close> (\<^verbatim>\<open>quote.go\<close>, \<^verbatim>\<open>handlers.go\<close>), \<open>Api_Prices\<close> and
      \<open>Api_Stream\<close> (\<^verbatim>\<open>ws.go\<close>: the hub and its prices; the life of the connections as the step relation \<open>ws_step\<close>),
      \<open>Api_Routes\<close> (\<^verbatim>\<open>server.go\<close>, \<^verbatim>\<open>metrics.go\<close>: routes, middleware, the recorded status, the observations), \<open>Command\<close>
      (\<^verbatim>\<open>main.go\<close>).
    \<^item> Two theories put parts together: \<open>Rpc_Client\<close> runs the batches of \<open>Rpc_Multicall\<close> through the pool of \<open>Rpc_Pool\<close>, with its
      limiter, breaker and transport; \<open>Service\<close> is the running process, the indexer, the handlers, the stream and the
      pool interleaved over their shared state (\<open>service_step\<close>).

  \<^bold>\<open>The interfaces\<close> are locales, each interpreted on the model where it is provided. \<open>workspace_routine\<close> of
  \<open>Amm_Scratch\<close> says that a routine's answer does not depend on what the workspace held; it is interpreted for both
  swaps and for the quote of a pool, and the search is proved from it. \<open>monotone_market\<close> and \<open>routable\<close> are what the
  search needs of a graph, \<open>pool_source\<close> what the indexer needs of a source, \<open>call_guard\<close> what a retrying caller
  needs of the breaker. \<open>evolution\<close> and \<open>machine\<close> of \<open>Prelude\<close> are what the concurrent parts share, a step relation with an
  invariant and an order in which the states only grow; the indexer, the stream and the whole service are interpretations.

  \<^bold>\<open>What the lemmas show.\<close>

    \<^item> Swaps: the constant-product output is the largest that keeps the invariant; a concentrated-liquidity swap
      spends its input exactly or fails, rounds in favour of the pool in every step, is monotone across any number
      of ticks, and its loop bound never cuts a walk short; the tick-to-price table is strictly increasing.
    \<^item> Quotes: whatever the workspace held before, a quote equals that of a fresh one. This is the contract the graph
      search relies on.
    \<^item> Graph: a built snapshot is well formed and holds exactly the usable pools; a returned route is a real, simple,
      executable path with the amounts fresh quotes give; up to two hops it is as good as any path, and a concrete market
      shows that it need not be at three; a reported arbitrage loop really gains.
    \<^item> Provider: the breaker refines a three-state automaton; each call is counted once and frees its slot; ABI words and
      result arrays round-trip; batching does not change answers, and neither do retries, the breaker and the limiter
      around it; no more requests are posted than the quota allows; the sources read each pool as if it were read alone.
    \<^item> Service: what a refresh publishes, that no failure unpublishes it, that a warm restart serves the same graph; that
      an answered quote is right to the stated slippage, that all other requests are refused with the documented status,
      when the health check is ready, what price is streamed, that a slow client harms no other and is given
      no stream with holes, and that connections coming and going in any order leak nothing; that every request is counted under the status it was answered with.
    \<^item> Running: whatever the seed, the simulated market is indexed completely; without a provider the service starts with
      a published snapshot, and neither Redis nor the provider can keep it from starting; once it runs, no
      interleaving of its parts makes a request or a tick of the stream panic or takes a published snapshot back.

  \<^bold>\<open>Bounds and fuel.\<close> Every loop of the code is bounded by its data, and the model's recursion follows it: the swap
  loop runs at most \<^verbatim>\<open>len(ticks)+1\<close> times as in the code, the relaxation \<^verbatim>\<open>maxHops\<close> rounds, the retry loop
  \<^verbatim>\<open>MaxRetries\<close> attempts, so no fuel is added. The polling loop of the indexer runs until the process ends; it is the
  step relation \<open>ix_step\<close>, and its invariant holds in every reachable state.

  \<^bold>\<open>Parameters.\<close> Keccak-256, the random numbers, logarithm and power of the simulation, the answer of the provider, the Redis client, the parsers of floats and durations,
  notations of decimals other than plain digits with a point, the clock readings, the order in which Go iterates a map,
  and the choices of concurrent callers are arguments of the definitions. Where a property relies on one (a Redis
  client returns what it stored), the hypothesis is in its statement and a witness instantiates it.

  \<^bold>\<open>Not modelled.\<close> What only moves bytes or prints: the HTTP client and server and the websocket library below the
  requests, responses and frames, the text of JSON documents, the exposition of the Prometheus collectors, logging, and the delivery of signals.
\<close>

section \<open>The service as a whole\<close>



end
